theory Spec2Isabelle
  imports Complex_Main "HOL-Library.Monad_Syntax"
begin

section \<open>The quickhull convex hull of three-extras.umd.js\<close>

text \<open>
  The development embeds the classes \<open>ConvexHull\<close>, \<open>Face\<close>, \<open>HalfEdge\<close>,
  \<open>VertexNode\<close> and \<open>VertexList\<close> of \<^verbatim>\<open>src/three-extras.umd.js\<close>.

  \<^item> JavaScript objects live in three arenas (vertex nodes, half-edges, faces); a reference
    is an index into its arena, \<open>null\<close> and \<open>undefined\<close> are \<open>None\<close>.
  \<^item> A method that mutates objects takes the state and returns the new one. A method that
    dereferences \<open>null\<close>/\<open>undefined\<close> throws a TypeError in the source; the model
    returns \<open>None\<close> there. Loops that walk linked structures carry a step budget and
    also return \<open>None\<close> when it is used up.
  \<^item> JavaScript numbers are modelled as exact reals: rounding, overflow and NaN are
    outside the model. The two infinities that \<open>intersectRay\<close> starts from are written
    out in the type \<open>xreal\<close>.
  \<^item> The fields of \<open>VertexNode\<close>, \<open>HalfEdge\<close>, \<open>Face\<close> and \<open>VertexList\<close> share
    names in the source (\<open>prev\<close>, \<open>next\<close>, \<open>face\<close>, ...); the records prefix them with
    \<open>v_\<close>, \<open>e_\<close>, \<open>f_\<close> and \<open>l_\<close>.
\<close>

subsection \<open>Vectors\<close>

text \<open>
  Modelled from the spec: \<open>Vector3\<close> belongs to the three.js core, which is not under
  \<^verbatim>\<open>src/\<close>. Only the operations the hull code calls are given, with their usual
  meaning (component access, dot and cross product, difference, scaling, squared distance).
\<close>

datatype vec3 = Vector3 real real real

datatype axis = AxisX | AxisY | AxisZ

fun getComponent :: "vec3 \<Rightarrow> axis \<Rightarrow> real" where
  "getComponent (Vector3 a b c) AxisX = a"
| "getComponent (Vector3 a b c) AxisY = b"
| "getComponent (Vector3 a b c) AxisZ = c"

fun setComponent :: "vec3 \<Rightarrow> axis \<Rightarrow> real \<Rightarrow> vec3" where
  "setComponent (Vector3 a b c) AxisX v = Vector3 v b c"
| "setComponent (Vector3 a b c) AxisY v = Vector3 a v c"
| "setComponent (Vector3 a b c) AxisZ v = Vector3 a b v"

fun dot :: "vec3 \<Rightarrow> vec3 \<Rightarrow> real" where
  "dot (Vector3 a b c) (Vector3 d e f) = a * d + b * e + c * f"

fun subVectors :: "vec3 \<Rightarrow> vec3 \<Rightarrow> vec3" where
  "subVectors (Vector3 a b c) (Vector3 d e f) = Vector3 (a - d) (b - e) (c - f)"

fun addVectors :: "vec3 \<Rightarrow> vec3 \<Rightarrow> vec3" where
  "addVectors (Vector3 a b c) (Vector3 d e f) = Vector3 (a + d) (b + e) (c + f)"

fun multiplyScalar :: "vec3 \<Rightarrow> real \<Rightarrow> vec3" where
  "multiplyScalar (Vector3 a b c) k = Vector3 (a * k) (b * k) (c * k)"

fun cross :: "vec3 \<Rightarrow> vec3 \<Rightarrow> vec3" where
  "cross (Vector3 a b c) (Vector3 d e f) =
     Vector3 (b * f - c * e) (c * d - a * f) (a * e - b * d)"

definition lengthSq :: "vec3 \<Rightarrow> real" where
  "lengthSq v = dot v v"

definition distanceToSquared :: "vec3 \<Rightarrow> vec3 \<Rightarrow> real" where
  "distanceToSquared v w = lengthSq (subVectors v w)"

subsection \<open>Objects and references\<close>

type_synonym vref = nat
type_synonym eref = nat
type_synonym fref = nat

datatype mark = Visible | Deleted

record VertexNode =
  v_point :: vec3
  v_prev :: "vref option"
  v_next :: "vref option"
  v_face :: "fref option"

record HalfEdge =
  e_vertex :: "vref option"
  e_prev :: "eref option"
  e_next :: "eref option"
  e_twin :: "eref option"
  e_face :: fref

record Face =
  f_normal :: vec3
  f_midpoint :: vec3
  f_area :: real
  f_constant :: real
  f_outside :: "vref option"
  f_mark :: mark
  f_edge :: "eref option"

record VertexList =
  l_head :: "vref option"
  l_tail :: "vref option"

text \<open>
  The instance fields of \<open>ConvexHull\<close>, followed by the three arenas that hold the
  objects the references point to.
\<close>

record ConvexHull =
  tolerance :: real
  faces :: "fref list"
  newFaces :: "fref list"
  assigned :: VertexList
  unassigned :: VertexList
  vertices :: "vref list"
  heap_v :: "VertexNode list"
  heap_e :: "HalfEdge list"
  heap_f :: "Face list"

definition lookup :: "'a list \<Rightarrow> nat \<Rightarrow> 'a option" where
  "lookup xs i = (if i < length xs then Some (xs ! i) else None)"

text \<open>Dereferencing a nullable reference: \<open>null\<close> throws.\<close>

definition deref :: "'a list \<Rightarrow> nat option \<Rightarrow> 'a option" where
  "deref xs r = (case r of None \<Rightarrow> None | Some i \<Rightarrow> lookup xs i)"

text \<open>The constructor of \<open>ConvexHull\<close>, with empty arenas.\<close>

definition emptyList :: VertexList where
  "emptyList = \<lparr> l_head = None, l_tail = None \<rparr>"

definition newConvexHull :: ConvexHull where
  "newConvexHull = \<lparr> tolerance = - 1, faces = [], newFaces = [],
     assigned = emptyList, unassigned = emptyList, vertices = [],
     heap_v = [], heap_e = [], heap_f = [] \<rparr>"

subsection \<open>Face.distanceToPoint and ConvexHull.containsPoint\<close>

definition distanceToPoint :: "Face \<Rightarrow> vec3 \<Rightarrow> real" where
  "distanceToPoint face p = dot (f_normal face) p - f_constant face"

fun containsPoint_loop :: "Face list \<Rightarrow> real \<Rightarrow> fref list \<Rightarrow> vec3 \<Rightarrow> bool option" where
  "containsPoint_loop hf tol [] p = Some True"
| "containsPoint_loop hf tol (i # is) p =
     do { face \<leftarrow> lookup hf i;
          if distanceToPoint face p > tol then Some False
          else containsPoint_loop hf tol is p }"

definition containsPoint :: "ConvexHull \<Rightarrow> vec3 \<Rightarrow> bool option" where
  "containsPoint h p = containsPoint_loop (heap_f h) (tolerance h) (faces h) p"

subsection \<open>Triangle, Plane and Line3\<close>

text \<open>
  Modelled from the spec: \<open>Triangle\<close>, \<open>Plane\<close> and \<open>Line3\<close> belong to the three.js
  core, which is not under \<^verbatim>\<open>src/\<close>. The spec says that a face's normal, centroid, area
  and plane constant are computed from the triangle geometry, that \<open>v2\<close> is the point
  farthest (by squared distance) from the line through \<open>v0\<close> and \<open>v1\<close>, and that \<open>v3\<close>
  has the greatest absolute signed distance from the plane through \<open>v0\<close>, \<open>v1\<close>, \<open>v2\<close>.
  The normal of a triangle \<open>a b c\<close> is the unit vector along \<open>(c - b) \<times> (a - b)\<close>, the
  zero vector for a degenerate triangle.
\<close>

definition getNormal :: "vec3 \<Rightarrow> vec3 \<Rightarrow> vec3 \<Rightarrow> vec3" where
  "getNormal a b c =
     (let t = cross (subVectors c b) (subVectors a b); l = lengthSq t
      in if l > 0 then multiplyScalar t (1 / sqrt l) else Vector3 0 0 0)"

definition getMidpoint :: "vec3 \<Rightarrow> vec3 \<Rightarrow> vec3 \<Rightarrow> vec3" where
  "getMidpoint a b c = multiplyScalar (addVectors (addVectors a b) c) (1 / 3)"

definition getArea :: "vec3 \<Rightarrow> vec3 \<Rightarrow> vec3 \<Rightarrow> real" where
  "getArea a b c = sqrt (lengthSq (cross (subVectors c b) (subVectors a b))) * (1 / 2)"

record Plane =
  p_normal :: vec3
  p_constant :: real

definition setFromCoplanarPoints :: "vec3 \<Rightarrow> vec3 \<Rightarrow> vec3 \<Rightarrow> Plane" where
  "setFromCoplanarPoints a b c =
     (let n = getNormal a b c in \<lparr> p_normal = n, p_constant = - dot a n \<rparr>)"

definition planeDistanceToPoint :: "Plane \<Rightarrow> vec3 \<Rightarrow> real" where
  "planeDistanceToPoint pl p = dot (p_normal pl) p + p_constant pl"

text \<open>
  \<open>Line3.closestPointToPoint(point, true, target)\<close>: the point of the segment from
  \<open>start\<close> to \<open>end\<close> nearest to \<open>point\<close> (the parameter is clamped to \<open>[0, 1]\<close>).
\<close>

definition closestPointToPoint :: "vec3 \<Rightarrow> vec3 \<Rightarrow> vec3 \<Rightarrow> vec3" where
  "closestPointToPoint start end p =
     (let startEnd = subVectors end start;
          t = dot startEnd (subVectors p start) / dot startEnd startEnd;
          t = max 0 (min 1 t)
      in addVectors (multiplyScalar startEnd t) start)"

subsection \<open>HalfEdge\<close>

definition newHalfEdge :: "vref option \<Rightarrow> fref \<Rightarrow> HalfEdge" where
  "newHalfEdge vertex face =
     \<lparr> e_vertex = vertex, e_prev = None, e_next = None, e_twin = None, e_face = face \<rparr>"

definition head :: "HalfEdge \<Rightarrow> vref option" where
  "head e = e_vertex e"

text \<open>\<open>tail()\<close> is the vertex of the previous edge, \<open>null\<close> when there is none.\<close>

definition tail :: "HalfEdge list \<Rightarrow> HalfEdge \<Rightarrow> vref option" where
  "tail he e = (case deref he (e_prev e) of None \<Rightarrow> None | Some p \<Rightarrow> e_vertex p)"

text \<open>
  \<open>setTwin(edge)\<close>: \<open>this.twin = edge; edge.twin = this\<close>. Writing to a \<open>null\<close> edge
  throws.
\<close>

definition setTwin :: "HalfEdge list \<Rightarrow> eref \<Rightarrow> eref option \<Rightarrow> HalfEdge list option" where
  "setTwin he this edge =
     (case edge of None \<Rightarrow> None
      | Some other \<Rightarrow>
          if this < length he \<and> other < length he then
            (let he1 = he[this := (he ! this)\<lparr> e_twin := Some other \<rparr>]
             in Some (he1[other := (he1 ! other)\<lparr> e_twin := Some this \<rparr>]))
          else None)"

subsection \<open>Face\<close>

definition newFace :: Face where
  "newFace = \<lparr> f_normal = Vector3 0 0 0, f_midpoint = Vector3 0 0 0, f_area = 0,
     f_constant = 0, f_outside = None, f_mark = Visible, f_edge = None \<rparr>"

text \<open>
  \<open>compute()\<close> reads the three corners through the base edge and stores normal,
  midpoint, area and plane constant.
\<close>

definition compute :: "ConvexHull \<Rightarrow> fref \<Rightarrow> ConvexHull option" where
  "compute h this =
     do { face \<leftarrow> lookup (heap_f h) this;
          edge \<leftarrow> deref (heap_e h) (f_edge face);
          a \<leftarrow> deref (heap_v h) (tail (heap_e h) edge);
          b \<leftarrow> deref (heap_v h) (head edge);
          edgeNext \<leftarrow> deref (heap_e h) (e_next edge);
          c \<leftarrow> deref (heap_v h) (head edgeNext);
          let normal = getNormal (v_point a) (v_point b) (v_point c);
          let midpoint = getMidpoint (v_point a) (v_point b) (v_point c);
          let area = getArea (v_point a) (v_point b) (v_point c);
          Some (h\<lparr> heap_f := (heap_f h)[this := face\<lparr> f_normal := normal,
                   f_midpoint := midpoint, f_area := area,
                   f_constant := dot normal midpoint \<rparr>] \<rparr>) }"

text \<open>
  \<open>Face.create(a, b, c)\<close> allocates the face and its three half-edges, joins the edges
  and calls \<open>compute\<close>. It returns the reference of the new face.
\<close>

definition create :: "ConvexHull \<Rightarrow> vref option \<Rightarrow> vref option \<Rightarrow> vref option
    \<Rightarrow> (fref \<times> ConvexHull) option" where
  "create h a b c =
     (let face = length (heap_f h);
          i0 = length (heap_e h); i1 = i0 + 1; i2 = i0 + 2;
          e0 = newHalfEdge a face; e1 = newHalfEdge b face; e2 = newHalfEdge c face;
          e0 = e0\<lparr> e_next := Some i1 \<rparr>; e2 = e2\<lparr> e_prev := Some i1 \<rparr>;
          e1 = e1\<lparr> e_next := Some i2 \<rparr>; e0 = e0\<lparr> e_prev := Some i2 \<rparr>;
          e2 = e2\<lparr> e_next := Some i0 \<rparr>; e1 = e1\<lparr> e_prev := Some i0 \<rparr>;
          h1 = h\<lparr> heap_e := heap_e h @ [e0, e1, e2],
                 heap_f := heap_f h @ [newFace\<lparr> f_edge := Some i0 \<rparr>] \<rparr>
      in do { h2 \<leftarrow> compute h1 face; Some (face, h2) })"

text \<open>
  \<open>getEdge(i)\<close> walks \<open>next\<close> for \<open>i > 0\<close> and \<open>prev\<close> for \<open>i < 0\<close>. Every caller
  dereferences the result, so a \<open>null\<close> result and a throw are both \<open>None\<close>.
\<close>

fun walkNext :: "HalfEdge list \<Rightarrow> nat \<Rightarrow> eref \<Rightarrow> eref option" where
  "walkNext he 0 e = Some e"
| "walkNext he (Suc n) e = do { edge \<leftarrow> lookup he e; e' \<leftarrow> e_next edge; walkNext he n e' }"

fun walkPrev :: "HalfEdge list \<Rightarrow> nat \<Rightarrow> eref \<Rightarrow> eref option" where
  "walkPrev he 0 e = Some e"
| "walkPrev he (Suc n) e = do { edge \<leftarrow> lookup he e; e' \<leftarrow> e_prev edge; walkPrev he n e' }"

definition getEdge :: "ConvexHull \<Rightarrow> fref \<Rightarrow> int \<Rightarrow> eref option" where
  "getEdge h this i =
     do { face \<leftarrow> lookup (heap_f h) this;
          e \<leftarrow> f_edge face;
          if i > 0 then walkNext (heap_e h) (nat i) e else walkPrev (heap_e h) (nat (- i)) e }"

subsection \<open>VertexList\<close>

text \<open>
  The list methods work on the list object (head and tail) and on the arena of vertex
  nodes; they return both.
\<close>

definition newVertexNode :: "vec3 \<Rightarrow> VertexNode" where
  "newVertexNode p = \<lparr> v_point = p, v_prev = None, v_next = None, v_face = None \<rparr>"

definition set_prev :: "VertexNode list \<Rightarrow> vref \<Rightarrow> vref option \<Rightarrow> VertexNode list option" where
  "set_prev hv v r = (if v < length hv then Some (hv[v := (hv ! v)\<lparr> v_prev := r \<rparr>]) else None)"

definition set_next :: "VertexNode list \<Rightarrow> vref \<Rightarrow> vref option \<Rightarrow> VertexNode list option" where
  "set_next hv v r = (if v < length hv then Some (hv[v := (hv ! v)\<lparr> v_next := r \<rparr>]) else None)"

definition first :: "VertexList \<Rightarrow> vref option" where
  "first l = l_head l"

definition last_vertex :: "VertexList \<Rightarrow> vref option" where
  "last_vertex l = l_tail l"

definition clear :: "VertexList \<Rightarrow> VertexList" where
  "clear l = l\<lparr> l_head := None, l_tail := None \<rparr>"

definition isEmpty :: "VertexList \<Rightarrow> bool" where
  "isEmpty l = (l_head l = None)"

definition insertBefore :: "VertexList \<times> VertexNode list \<Rightarrow> vref \<Rightarrow> vref
    \<Rightarrow> (VertexList \<times> VertexNode list) option" where
  "insertBefore lv target vertex =
     (case lv of (l, hv) \<Rightarrow>
      do { t \<leftarrow> lookup hv target;
           hv \<leftarrow> set_prev hv vertex (v_prev t);
           hv \<leftarrow> set_next hv vertex (Some target);
           v \<leftarrow> lookup hv vertex;
           (l, hv) \<leftarrow> (case v_prev v of
                         None \<Rightarrow> Some (l\<lparr> l_head := Some vertex \<rparr>, hv)
                       | Some p \<Rightarrow> do { hv \<leftarrow> set_next hv p (Some vertex); Some (l, hv) });
           hv \<leftarrow> set_prev hv target (Some vertex);
           Some (l, hv) })"

definition insertAfter :: "VertexList \<times> VertexNode list \<Rightarrow> vref \<Rightarrow> vref
    \<Rightarrow> (VertexList \<times> VertexNode list) option" where
  "insertAfter lv target vertex =
     (case lv of (l, hv) \<Rightarrow>
      do { t \<leftarrow> lookup hv target;
           hv \<leftarrow> set_prev hv vertex (Some target);
           hv \<leftarrow> set_next hv vertex (v_next t);
           v \<leftarrow> lookup hv vertex;
           (l, hv) \<leftarrow> (case v_next v of
                         None \<Rightarrow> Some (l\<lparr> l_tail := Some vertex \<rparr>, hv)
                       | Some n \<Rightarrow> do { hv \<leftarrow> set_prev hv n (Some vertex); Some (l, hv) });
           hv \<leftarrow> set_next hv target (Some vertex);
           Some (l, hv) })"

definition append :: "VertexList \<times> VertexNode list \<Rightarrow> vref
    \<Rightarrow> (VertexList \<times> VertexNode list) option" where
  "append lv vertex =
     (case lv of (l, hv) \<Rightarrow>
      do { (l, hv) \<leftarrow> (case l_head l of
                         None \<Rightarrow> Some (l\<lparr> l_head := Some vertex \<rparr>, hv)
                       | Some _ \<Rightarrow> do { t \<leftarrow> l_tail l;
                                        hv \<leftarrow> set_next hv t (Some vertex);
                                        Some (l, hv) });
           hv \<leftarrow> set_prev hv vertex (l_tail l);
           hv \<leftarrow> set_next hv vertex None;
           Some (l\<lparr> l_tail := Some vertex \<rparr>, hv) })"

text \<open>
  \<open>appendChain\<close> walks to the end of the chain; the walk has a step budget, since a
  cyclic chain would never end.
\<close>

fun chainEnd :: "nat \<Rightarrow> VertexNode list \<Rightarrow> vref \<Rightarrow> vref option" where
  "chainEnd 0 hv v = None"
| "chainEnd (Suc n) hv v =
     do { node \<leftarrow> lookup hv v;
          case v_next node of None \<Rightarrow> Some v | Some v' \<Rightarrow> chainEnd n hv v' }"

definition appendChain :: "nat \<Rightarrow> VertexList \<times> VertexNode list \<Rightarrow> vref
    \<Rightarrow> (VertexList \<times> VertexNode list) option" where
  "appendChain fuel lv vertex =
     (case lv of (l, hv) \<Rightarrow>
      do { (l, hv) \<leftarrow> (case l_head l of
                         None \<Rightarrow> Some (l\<lparr> l_head := Some vertex \<rparr>, hv)
                       | Some _ \<Rightarrow> do { t \<leftarrow> l_tail l;
                                        hv \<leftarrow> set_next hv t (Some vertex);
                                        Some (l, hv) });
           hv \<leftarrow> set_prev hv vertex (l_tail l);
           last \<leftarrow> chainEnd fuel hv vertex;
           Some (l\<lparr> l_tail := Some last \<rparr>, hv) })"

definition remove :: "VertexList \<times> VertexNode list \<Rightarrow> vref
    \<Rightarrow> (VertexList \<times> VertexNode list) option" where
  "remove lv vertex =
     (case lv of (l, hv) \<Rightarrow>
      do { v \<leftarrow> lookup hv vertex;
           (l, hv) \<leftarrow> (case v_prev v of
                         None \<Rightarrow> Some (l\<lparr> l_head := v_next v \<rparr>, hv)
                       | Some p \<Rightarrow> do { hv \<leftarrow> set_next hv p (v_next v); Some (l, hv) });
           v \<leftarrow> lookup hv vertex;
           (case v_next v of
              None \<Rightarrow> Some (l\<lparr> l_tail := v_prev v \<rparr>, hv)
            | Some n \<Rightarrow> do { hv \<leftarrow> set_prev hv n (v_prev v); Some (l, hv) }) })"

definition removeSubList :: "VertexList \<times> VertexNode list \<Rightarrow> vref \<Rightarrow> vref
    \<Rightarrow> (VertexList \<times> VertexNode list) option" where
  "removeSubList lv a b =
     (case lv of (l, hv) \<Rightarrow>
      do { va \<leftarrow> lookup hv a;
           vb \<leftarrow> lookup hv b;
           (l, hv) \<leftarrow> (case v_prev va of
                         None \<Rightarrow> Some (l\<lparr> l_head := v_next vb \<rparr>, hv)
                       | Some p \<Rightarrow> do { hv \<leftarrow> set_next hv p (v_next vb); Some (l, hv) });
           va \<leftarrow> lookup hv a;
           vb \<leftarrow> lookup hv b;
           (case v_next vb of
              None \<Rightarrow> Some (l\<lparr> l_tail := v_prev va \<rparr>, hv)
            | Some n \<Rightarrow> do { hv \<leftarrow> set_prev hv n (v_prev va); Some (l, hv) }) })"

subsection \<open>ConvexHull: vertices of a face\<close>

definition set_face :: "VertexNode list \<Rightarrow> vref \<Rightarrow> fref option \<Rightarrow> VertexNode list option" where
  "set_face hv v r = (if v < length hv then Some (hv[v := (hv ! v)\<lparr> v_face := r \<rparr>]) else None)"

definition set_outside :: "Face list \<Rightarrow> fref \<Rightarrow> vref option \<Rightarrow> Face list option" where
  "set_outside hf f r = (if f < length hf then Some (hf[f := (hf ! f)\<lparr> f_outside := r \<rparr>]) else None)"

definition set_mark :: "Face list \<Rightarrow> fref \<Rightarrow> mark \<Rightarrow> Face list option" where
  "set_mark hf f m = (if f < length hf then Some (hf[f := (hf ! f)\<lparr> f_mark := m \<rparr>]) else None)"

definition addVertexToFace :: "ConvexHull \<Rightarrow> vref \<Rightarrow> fref \<Rightarrow> ConvexHull option" where
  "addVertexToFace h vertex face =
     do { hv \<leftarrow> set_face (heap_v h) vertex (Some face);
          f \<leftarrow> lookup (heap_f h) face;
          (l, hv) \<leftarrow> (case f_outside f of
                         None \<Rightarrow> append (assigned h, hv) vertex
                       | Some out \<Rightarrow> insertBefore (assigned h, hv) out vertex);
          hf \<leftarrow> set_outside (heap_f h) face (Some vertex);
          Some (h\<lparr> assigned := l, heap_v := hv, heap_f := hf \<rparr>) }"

text \<open>
  The first part of \<open>_removeVertexFromFace\<close>: when the vertex is \<open>face.outside\<close>, the
  reference moves to the next vertex of the same face, or becomes \<open>null\<close>.
\<close>

definition fixOutsideLink :: "ConvexHull \<Rightarrow> vref \<Rightarrow> fref \<Rightarrow> Face list option" where
  "fixOutsideLink h vertex face =
     do { f \<leftarrow> lookup (heap_f h) face;
          if Some vertex = f_outside f then
            do { v \<leftarrow> lookup (heap_v h) vertex;
                 case v_next v of
                   None \<Rightarrow> set_outside (heap_f h) face None
                 | Some n \<Rightarrow>
                     do { nv \<leftarrow> lookup (heap_v h) n;
                          if v_face nv = Some face
                          then set_outside (heap_f h) face (v_next v)
                          else set_outside (heap_f h) face None } }
          else Some (heap_f h) }"

definition removeVertexFromFace :: "ConvexHull \<Rightarrow> vref \<Rightarrow> fref \<Rightarrow> ConvexHull option" where
  "removeVertexFromFace h vertex face =
     do { hf \<leftarrow> fixOutsideLink h vertex face;
          (l, hv) \<leftarrow> remove (assigned h, heap_v h) vertex;
          Some (h\<lparr> assigned := l, heap_v := hv, heap_f := hf \<rparr>) }"

text \<open>
  The last vertex of the run of \<open>face\<close> that starts at \<open>end\<close>
  (\<open>while ( end.next !== null && end.next.face === face ) end = end.next\<close>).
\<close>

fun runEnd :: "nat \<Rightarrow> VertexNode list \<Rightarrow> fref \<Rightarrow> vref \<Rightarrow> vref option" where
  "runEnd 0 hv face end = None"
| "runEnd (Suc n) hv face end =
     do { e \<leftarrow> lookup hv end;
          case v_next e of
            None \<Rightarrow> Some end
          | Some nx \<Rightarrow>
              do { nv \<leftarrow> lookup hv nx;
                   if v_face nv = Some face then runEnd n hv face nx else Some end } }"

text \<open>The result is the head of the removed chain, \<open>undefined\<close> when the face sees nothing.\<close>

definition removeAllVerticesFromFace :: "nat \<Rightarrow> ConvexHull \<Rightarrow> fref
    \<Rightarrow> (vref option \<times> ConvexHull) option" where
  "removeAllVerticesFromFace fuel h face =
     do { f \<leftarrow> lookup (heap_f h) face;
          case f_outside f of
            None \<Rightarrow> Some (None, h)
          | Some start \<Rightarrow>
              do { end \<leftarrow> runEnd fuel (heap_v h) face start;
                   (l, hv) \<leftarrow> removeSubList (assigned h, heap_v h) start end;
                   hv \<leftarrow> set_next hv end None;
                   hv \<leftarrow> set_prev hv start None;
                   hf \<leftarrow> set_outside (heap_f h) face None;
                   Some (Some start, h\<lparr> assigned := l, heap_v := hv, heap_f := hf \<rparr>) } }"

fun absorbLoop :: "nat \<Rightarrow> ConvexHull \<Rightarrow> fref \<Rightarrow> vref \<Rightarrow> ConvexHull option" where
  "absorbLoop 0 h absorbingFace vertex = None"
| "absorbLoop (Suc n) h absorbingFace vertex =
     do { v \<leftarrow> lookup (heap_v h) vertex;
          let nextVertex = v_next v;
          af \<leftarrow> lookup (heap_f h) absorbingFace;
          let distance = distanceToPoint af (v_point v);
          h \<leftarrow> (if distance > tolerance h then addVertexToFace h vertex absorbingFace
                else do { (l, hv) \<leftarrow> append (unassigned h, heap_v h) vertex;
                          Some (h\<lparr> unassigned := l, heap_v := hv \<rparr>) });
          case nextVertex of None \<Rightarrow> Some h | Some nv \<Rightarrow> absorbLoop n h absorbingFace nv }"

definition deleteFaceVertices :: "nat \<Rightarrow> ConvexHull \<Rightarrow> fref \<Rightarrow> fref option
    \<Rightarrow> ConvexHull option" where
  "deleteFaceVertices fuel h face absorbingFace =
     do { (faceVertices, h) \<leftarrow> removeAllVerticesFromFace fuel h face;
          case faceVertices of
            None \<Rightarrow> Some h
          | Some fv \<Rightarrow>
              (case absorbingFace of
                 None \<Rightarrow> do { (l, hv) \<leftarrow> appendChain fuel (unassigned h, heap_v h) fv;
                              Some (h\<lparr> unassigned := l, heap_v := hv \<rparr>) }
               | Some af \<Rightarrow> absorbLoop fuel h af fv) }"

text \<open>
  The inner loop of \<open>_resolveUnassignedPoints\<close>: the visible new face farthest below the
  point, with the early exit at \<open>1000 * tolerance\<close>.
\<close>

fun findMaxFace :: "Face list \<Rightarrow> real \<Rightarrow> vec3 \<Rightarrow> fref list \<Rightarrow> real \<times> fref option
    \<Rightarrow> (real \<times> fref option) option" where
  "findMaxFace hf tol p [] acc = Some acc"
| "findMaxFace hf tol p (i # is) (maxDistance, maxFace) =
     do { face \<leftarrow> lookup hf i;
          if f_mark face = Visible then
            (let distance = distanceToPoint face p;
                 (maxDistance, maxFace) =
                    (if distance > maxDistance then (distance, Some i)
                     else (maxDistance, maxFace))
             in if maxDistance > 1000 * tol then Some (maxDistance, maxFace)
                else findMaxFace hf tol p is (maxDistance, maxFace))
          else findMaxFace hf tol p is (maxDistance, maxFace) }"

fun resolveLoop :: "nat \<Rightarrow> ConvexHull \<Rightarrow> fref list \<Rightarrow> vref \<Rightarrow> ConvexHull option" where
  "resolveLoop 0 h nfs vertex = None"
| "resolveLoop (Suc n) h nfs vertex =
     do { v \<leftarrow> lookup (heap_v h) vertex;
          let nextVertex = v_next v;
          (maxDistance, maxFace) \<leftarrow>
             findMaxFace (heap_f h) (tolerance h) (v_point v) nfs (tolerance h, None);
          h \<leftarrow> (case maxFace of None \<Rightarrow> Some h | Some mf \<Rightarrow> addVertexToFace h vertex mf);
          case nextVertex of None \<Rightarrow> Some h | Some nv \<Rightarrow> resolveLoop n h nfs nv }"

definition resolveUnassignedPoints :: "nat \<Rightarrow> ConvexHull \<Rightarrow> fref list \<Rightarrow> ConvexHull option" where
  "resolveUnassignedPoints fuel h nfs =
     (if isEmpty (unassigned h) = False then
        do { vertex \<leftarrow> first (unassigned h); resolveLoop fuel h nfs vertex }
      else Some h)"

subsection \<open>ConvexHull: the initial hull\<close>

definition EPSILON :: real where
  "EPSILON = 1 / 2 ^ 52"

record extremes =
  x_min :: "axis \<Rightarrow> vref"
  x_max :: "axis \<Rightarrow> vref"

definition updateMin :: "vec3 \<Rightarrow> vref \<Rightarrow> vec3 \<times> (axis \<Rightarrow> vref) \<Rightarrow> axis \<Rightarrow> vec3 \<times> (axis \<Rightarrow> vref)" where
  "updateMin p vertex acc j =
     (case acc of (mn, minVertices) \<Rightarrow>
        if getComponent p j < getComponent mn j
        then (setComponent mn j (getComponent p j), minVertices(j := vertex))
        else (mn, minVertices))"

definition updateMax :: "vec3 \<Rightarrow> vref \<Rightarrow> vec3 \<times> (axis \<Rightarrow> vref) \<Rightarrow> axis \<Rightarrow> vec3 \<times> (axis \<Rightarrow> vref)" where
  "updateMax p vertex acc j =
     (case acc of (mx, maxVertices) \<Rightarrow>
        if getComponent p j > getComponent mx j
        then (setComponent mx j (getComponent p j), maxVertices(j := vertex))
        else (mx, maxVertices))"

fun extremesLoop :: "VertexNode list \<Rightarrow> vref list
    \<Rightarrow> (vec3 \<times> (axis \<Rightarrow> vref)) \<times> (vec3 \<times> (axis \<Rightarrow> vref))
    \<Rightarrow> ((vec3 \<times> (axis \<Rightarrow> vref)) \<times> (vec3 \<times> (axis \<Rightarrow> vref))) option" where
  "extremesLoop hv [] acc = Some acc"
| "extremesLoop hv (vertex # vs) (mn, mx) =
     do { v \<leftarrow> lookup hv vertex;
          let mn = foldl (updateMin (v_point v) vertex) mn [AxisX, AxisY, AxisZ];
          let mx = foldl (updateMax (v_point v) vertex) mx [AxisX, AxisY, AxisZ];
          extremesLoop hv vs (mn, mx) }"

definition computeExtremes :: "ConvexHull \<Rightarrow> (extremes \<times> ConvexHull) option" where
  "computeExtremes h =
     (case vertices h of
        [] \<Rightarrow> None
      | v0 # _ \<Rightarrow>
          do { v \<leftarrow> lookup (heap_v h) v0;
               ((mn, minVertices), (mx, maxVertices)) \<leftarrow>
                  extremesLoop (heap_v h) (vertices h)
                    ((v_point v, \<lambda>_. v0), (v_point v, \<lambda>_. v0));
               let tol = 3 * EPSILON *
                     (max \<bar>getComponent mn AxisX\<bar> \<bar>getComponent mx AxisX\<bar> +
                      max \<bar>getComponent mn AxisY\<bar> \<bar>getComponent mx AxisY\<bar> +
                      max \<bar>getComponent mn AxisZ\<bar> \<bar>getComponent mx AxisZ\<bar>);
               Some (\<lparr> x_min = minVertices, x_max = maxVertices \<rparr>, h\<lparr> tolerance := tol \<rparr>) })"

text \<open>Step 1: the axis with the greatest separation between its two extreme vertices.\<close>

fun separationLoop :: "VertexNode list \<Rightarrow> extremes \<Rightarrow> axis list \<Rightarrow> real \<times> axis
    \<Rightarrow> (real \<times> axis) option" where
  "separationLoop hv ex [] acc = Some acc"
| "separationLoop hv ex (i # is) (maxDistance, index) =
     do { mx \<leftarrow> lookup hv (x_max ex i);
          mn \<leftarrow> lookup hv (x_min ex i);
          let distance = getComponent (v_point mx) i - getComponent (v_point mn) i;
          if distance > maxDistance then separationLoop hv ex is (distance, i)
          else separationLoop hv ex is (maxDistance, index) }"

text \<open>Step 2: the vertex farthest from the line through \<open>v0\<close> and \<open>v1\<close>.\<close>

fun farthestFromLine :: "VertexNode list \<Rightarrow> vref \<Rightarrow> vref \<Rightarrow> vec3 \<Rightarrow> vec3 \<Rightarrow> vref list
    \<Rightarrow> real \<times> vref option \<Rightarrow> (real \<times> vref option) option" where
  "farthestFromLine hv v0 v1 p0 p1 [] acc = Some acc"
| "farthestFromLine hv v0 v1 p0 p1 (vertex # vs) (maxDistance, v2) =
     (if vertex \<noteq> v0 \<and> vertex \<noteq> v1 then
        do { v \<leftarrow> lookup hv vertex;
             let closestPoint = closestPointToPoint p0 p1 (v_point v);
             let distance = distanceToSquared closestPoint (v_point v);
             if distance > maxDistance
             then farthestFromLine hv v0 v1 p0 p1 vs (distance, Some vertex)
             else farthestFromLine hv v0 v1 p0 p1 vs (maxDistance, v2) }
      else farthestFromLine hv v0 v1 p0 p1 vs (maxDistance, v2))"

text \<open>Step 3: the vertex farthest from the plane through \<open>v0\<close>, \<open>v1\<close>, \<open>v2\<close>.\<close>

fun farthestFromPlane :: "VertexNode list \<Rightarrow> vref \<Rightarrow> vref \<Rightarrow> vref \<Rightarrow> Plane \<Rightarrow> vref list
    \<Rightarrow> real \<times> vref option \<Rightarrow> (real \<times> vref option) option" where
  "farthestFromPlane hv v0 v1 v2 pl [] acc = Some acc"
| "farthestFromPlane hv v0 v1 v2 pl (vertex # vs) (maxDistance, v3) =
     (if vertex \<noteq> v0 \<and> vertex \<noteq> v1 \<and> vertex \<noteq> v2 then
        do { v \<leftarrow> lookup hv vertex;
             let distance = \<bar>planeDistanceToPoint pl (v_point v)\<bar>;
             if distance > maxDistance
             then farthestFromPlane hv v0 v1 v2 pl vs (distance, Some vertex)
             else farthestFromPlane hv v0 v1 v2 pl vs (maxDistance, v3) }
      else farthestFromPlane hv v0 v1 v2 pl vs (maxDistance, v3))"

text \<open>
  The two twin-linking loops of the tetrahedron, one per orientation; \<open>fs\<close> is the local
  array \<open>faces\<close> of four faces and \<open>i\<close> runs over \<open>0, 1, 2\<close>.
\<close>

definition twinsOutward :: "fref list \<Rightarrow> ConvexHull \<Rightarrow> nat \<Rightarrow> ConvexHull option" where
  "twinsOutward fs h i =
     do { let j = (i + 1) mod 3;
          fi \<leftarrow> lookup fs (i + 1);
          f0 \<leftarrow> lookup fs 0;
          fj \<leftarrow> lookup fs (j + 1);
          e \<leftarrow> getEdge h fi 2;
          he \<leftarrow> setTwin (heap_e h) e (getEdge h f0 (int j));
          let h = h\<lparr> heap_e := he \<rparr>;
          e \<leftarrow> getEdge h fi 1;
          he \<leftarrow> setTwin (heap_e h) e (getEdge h fj 0);
          Some (h\<lparr> heap_e := he \<rparr>) }"

definition twinsInward :: "fref list \<Rightarrow> ConvexHull \<Rightarrow> nat \<Rightarrow> ConvexHull option" where
  "twinsInward fs h i =
     do { let j = (i + 1) mod 3;
          fi \<leftarrow> lookup fs (i + 1);
          f0 \<leftarrow> lookup fs 0;
          fj \<leftarrow> lookup fs (j + 1);
          e \<leftarrow> getEdge h fi 2;
          he \<leftarrow> setTwin (heap_e h) e (getEdge h f0 (int ((3 - i) mod 3)));
          let h = h\<lparr> heap_e := he \<rparr>;
          e \<leftarrow> getEdge h fi 0;
          he \<leftarrow> setTwin (heap_e h) e (getEdge h fj 1);
          Some (h\<lparr> heap_e := he \<rparr>) }"

fun forEach :: "('s \<Rightarrow> 'a \<Rightarrow> 's option) \<Rightarrow> 's \<Rightarrow> 'a list \<Rightarrow> 's option" where
  "forEach body s [] = Some s"
| "forEach body s (x # xs) = do { s \<leftarrow> body s x; forEach body s xs }"

text \<open>The initial assignment of one vertex to the tetrahedron face it is farthest above.\<close>

fun maxOfFour :: "Face list \<Rightarrow> vec3 \<Rightarrow> fref list \<Rightarrow> real \<times> fref option
    \<Rightarrow> (real \<times> fref option) option" where
  "maxOfFour hf p [] acc = Some acc"
| "maxOfFour hf p (j # js) (maxDistance, maxFace) =
     do { face \<leftarrow> lookup hf j;
          let distance = distanceToPoint face p;
          if distance > maxDistance then maxOfFour hf p js (distance, Some j)
          else maxOfFour hf p js (maxDistance, maxFace) }"

definition assignInitial :: "vref \<Rightarrow> vref \<Rightarrow> vref \<Rightarrow> vref \<Rightarrow> ConvexHull \<Rightarrow> vref
    \<Rightarrow> ConvexHull option" where
  "assignInitial v0 v1 v2 v3 h vertex =
     (if vertex \<noteq> v0 \<and> vertex \<noteq> v1 \<and> vertex \<noteq> v2 \<and> vertex \<noteq> v3 then
        do { v \<leftarrow> lookup (heap_v h) vertex;
             (maxDistance, maxFace) \<leftarrow>
                (if length (faces h) < 4 then None
                 else maxOfFour (heap_f h) (v_point v) (take 4 (faces h)) (tolerance h, None));
             case maxFace of None \<Rightarrow> Some h | Some mf \<Rightarrow> addVertexToFace h vertex mf }
      else Some h)"

text \<open>
  \<open>_computeInitialHull\<close> in three blocks: the choice of \<open>v0\<close> ... \<open>v3\<close> (with the test
  \<open>_plane.distanceToPoint( v3.point ) < 0\<close>), the four faces with their twins, and the
  assignment of the remaining vertices.
\<close>

definition initialVertices :: "ConvexHull \<Rightarrow> extremes \<Rightarrow> (vref \<times> vref \<times> vref \<times> vref \<times> bool) option" where
  "initialVertices h ex =
     do { (maxDistance, index) \<leftarrow>
             separationLoop (heap_v h) ex [AxisX, AxisY, AxisZ] (0, AxisX);
          let v0 = x_min ex index;
          let v1 = x_max ex index;
          n0 \<leftarrow> lookup (heap_v h) v0;
          n1 \<leftarrow> lookup (heap_v h) v1;
          (maxDistance, v2) \<leftarrow>
             farthestFromLine (heap_v h) v0 v1 (v_point n0) (v_point n1) (vertices h) (0, None);
          v2 \<leftarrow> v2;
          n2 \<leftarrow> lookup (heap_v h) v2;
          let plane = setFromCoplanarPoints (v_point n0) (v_point n1) (v_point n2);
          (maxDistance, v3) \<leftarrow>
             farthestFromPlane (heap_v h) v0 v1 v2 plane (vertices h) (- 1, None);
          v3 \<leftarrow> v3;
          n3 \<leftarrow> lookup (heap_v h) v3;
          Some (v0, v1, v2, v3, planeDistanceToPoint plane (v_point n3) < 0) }"

definition initialFaces :: "ConvexHull \<Rightarrow> vref \<Rightarrow> vref \<Rightarrow> vref \<Rightarrow> vref \<Rightarrow> bool
    \<Rightarrow> (fref list \<times> ConvexHull) option" where
  "initialFaces h v0 v1 v2 v3 below =
     (if below then
        do { (f0, h) \<leftarrow> create h (Some v0) (Some v1) (Some v2);
             (f1, h) \<leftarrow> create h (Some v3) (Some v1) (Some v0);
             (f2, h) \<leftarrow> create h (Some v3) (Some v2) (Some v1);
             (f3, h) \<leftarrow> create h (Some v3) (Some v0) (Some v2);
             let fs = [f0, f1, f2, f3];
             h \<leftarrow> forEach (twinsOutward fs) h [0, 1, 2];
             Some (fs, h) }
      else
        do { (f0, h) \<leftarrow> create h (Some v0) (Some v2) (Some v1);
             (f1, h) \<leftarrow> create h (Some v3) (Some v0) (Some v1);
             (f2, h) \<leftarrow> create h (Some v3) (Some v1) (Some v2);
             (f3, h) \<leftarrow> create h (Some v3) (Some v2) (Some v0);
             let fs = [f0, f1, f2, f3];
             h \<leftarrow> forEach (twinsInward fs) h [0, 1, 2];
             Some (fs, h) })"

definition computeInitialHull :: "ConvexHull \<Rightarrow> ConvexHull option" where
  "computeInitialHull h =
     do { (ex, h) \<leftarrow> computeExtremes h;
          (v0, v1, v2, v3, below) \<leftarrow> initialVertices h ex;
          (fs, h) \<leftarrow> initialFaces h v0 v1 v2 v3 below;
          let h = h\<lparr> faces := faces h @ fs \<rparr>;
          forEach (assignInitial v0 v1 v2 v3) h (vertices h) }"

subsection \<open>ConvexHull: adding a vertex\<close>

fun reindexLoop :: "Face list \<Rightarrow> fref list \<Rightarrow> fref list option" where
  "reindexLoop hf [] = Some []"
| "reindexLoop hf (i # is) =
     do { face \<leftarrow> lookup hf i;
          activeFaces \<leftarrow> reindexLoop hf is;
          Some (if f_mark face = Visible then i # activeFaces else activeFaces) }"

definition reindexFaces :: "ConvexHull \<Rightarrow> ConvexHull option" where
  "reindexFaces h = do { activeFaces \<leftarrow> reindexLoop (heap_f h) (faces h);
                         Some (h\<lparr> faces := activeFaces \<rparr>) }"

text \<open>
  The \<open>do ... while\<close> loop of \<open>_nextVertexToAdd\<close> over the run of \<open>eyeFace\<close>; the
  accumulator is \<open>(eyeVertex, maxDistance)\<close>, with \<open>eyeVertex\<close> undefined at first.
\<close>

fun nextVertexLoop :: "nat \<Rightarrow> VertexNode list \<Rightarrow> fref \<Rightarrow> Face \<Rightarrow> vref
    \<Rightarrow> vref option \<times> real \<Rightarrow> vref option option" where
  "nextVertexLoop 0 hv eyeFace ef vertex acc = None"
| "nextVertexLoop (Suc n) hv eyeFace ef vertex (eyeVertex, maxDistance) =
     do { v \<leftarrow> lookup hv vertex;
          let distance = distanceToPoint ef (v_point v);
          let (eyeVertex, maxDistance) =
                (if distance > maxDistance then (Some vertex, distance)
                 else (eyeVertex, maxDistance));
          case v_next v of
            None \<Rightarrow> Some eyeVertex
          | Some nx \<Rightarrow>
              do { nv \<leftarrow> lookup hv nx;
                   if v_face nv = Some eyeFace
                   then nextVertexLoop n hv eyeFace ef nx (eyeVertex, maxDistance)
                   else Some eyeVertex } }"

text \<open>The result \<open>Some None\<close> is the source's \<open>undefined\<close>: no vertex is left.\<close>

definition nextVertexToAdd :: "nat \<Rightarrow> ConvexHull \<Rightarrow> vref option option" where
  "nextVertexToAdd fuel h =
     (if isEmpty (assigned h) = False then
        do { fv \<leftarrow> deref (heap_v h) (first (assigned h));
             eyeFace \<leftarrow> v_face fv;
             ef \<leftarrow> lookup (heap_f h) eyeFace;
             vertex \<leftarrow> f_outside ef;
             nextVertexLoop fuel (heap_v h) eyeFace ef vertex (None, 0) }
      else Some None)"

text \<open>
  \<open>_computeHorizon\<close> and its \<open>do ... while\<close> loop over the edges of the face call each
  other; the horizon is the array passed along and returned.
\<close>

fun computeHorizon :: "nat \<Rightarrow> ConvexHull \<Rightarrow> vec3 \<Rightarrow> eref option \<Rightarrow> fref \<Rightarrow> eref list
    \<Rightarrow> (ConvexHull \<times> eref list) option"
and horizonLoop :: "nat \<Rightarrow> ConvexHull \<Rightarrow> vec3 \<Rightarrow> eref \<Rightarrow> eref \<Rightarrow> eref list
    \<Rightarrow> (ConvexHull \<times> eref list) option" where
  "computeHorizon 0 h eyePoint crossEdge face horizon = None"
| "computeHorizon (Suc n) h eyePoint crossEdge face horizon =
     do { h \<leftarrow> deleteFaceVertices (Suc n) h face None;
          hf \<leftarrow> set_mark (heap_f h) face Deleted;
          let h = h\<lparr> heap_f := hf \<rparr>;
          (edge, crossEdge) \<leftarrow>
             (case crossEdge of
                None \<Rightarrow> do { e \<leftarrow> getEdge h face 0; Some (e, e) }
              | Some ce \<Rightarrow> do { c \<leftarrow> lookup (heap_e h) ce; e \<leftarrow> e_next c; Some (e, ce) });
          horizonLoop n h eyePoint crossEdge edge horizon }"
| "horizonLoop 0 h eyePoint crossEdge edge horizon = None"
| "horizonLoop (Suc n) h eyePoint crossEdge edge horizon =
     do { e \<leftarrow> lookup (heap_e h) edge;
          twinEdge \<leftarrow> e_twin e;
          te \<leftarrow> lookup (heap_e h) twinEdge;
          let oppositeFace = e_face te;
          opp \<leftarrow> lookup (heap_f h) oppositeFace;
          (h, horizon) \<leftarrow>
             (if f_mark opp = Visible then
                (if distanceToPoint opp eyePoint > tolerance h
                 then computeHorizon n h eyePoint (Some twinEdge) oppositeFace horizon
                 else Some (h, horizon @ [edge]))
              else Some (h, horizon));
          e \<leftarrow> lookup (heap_e h) edge;
          edge \<leftarrow> e_next e;
          if edge \<noteq> crossEdge then horizonLoop n h eyePoint crossEdge edge horizon
          else Some (h, horizon) }"

text \<open>The result is the half-edge of the new face whose vertex is the eye vertex.\<close>

definition addAdjoiningFace :: "ConvexHull \<Rightarrow> vref \<Rightarrow> eref \<Rightarrow> (eref \<times> ConvexHull) option" where
  "addAdjoiningFace h eyeVertex horizonEdge =
     do { he \<leftarrow> lookup (heap_e h) horizonEdge;
          (face, h) \<leftarrow> create h (Some eyeVertex) (tail (heap_e h) he) (head he);
          let h = h\<lparr> faces := faces h @ [face] \<rparr>;
          e \<leftarrow> getEdge h face (- 1);
          he \<leftarrow> lookup (heap_e h) horizonEdge;
          hes \<leftarrow> setTwin (heap_e h) e (e_twin he);
          let h = h\<lparr> heap_e := hes \<rparr>;
          e0 \<leftarrow> getEdge h face 0;
          Some (e0, h) }"

text \<open>
  The \<open>if\<close> in the loop of \<open>_addNewFaces\<close>: the first side edge is remembered, every
  later one is joined with the side edge of the face before it.
\<close>

definition joinSideEdge :: "ConvexHull \<Rightarrow> eref option \<Rightarrow> eref option \<Rightarrow> eref
    \<Rightarrow> (eref option \<times> ConvexHull) option" where
  "joinSideEdge h firstSideEdge previousSideEdge sideEdge =
     (case firstSideEdge of
        None \<Rightarrow> Some (Some sideEdge, h)
      | Some _ \<Rightarrow> do { se \<leftarrow> lookup (heap_e h) sideEdge;
                       nx \<leftarrow> e_next se;
                       hes \<leftarrow> setTwin (heap_e h) nx previousSideEdge;
                       Some (firstSideEdge, h\<lparr> heap_e := hes \<rparr>) })"

fun addNewFacesLoop :: "ConvexHull \<Rightarrow> vref \<Rightarrow> eref list \<Rightarrow> eref option \<times> eref option
    \<Rightarrow> (ConvexHull \<times> eref option \<times> eref option) option" where
  "addNewFacesLoop h eyeVertex [] acc = Some (h, acc)"
| "addNewFacesLoop h eyeVertex (horizonEdge # hs) (firstSideEdge, previousSideEdge) =
     do { (sideEdge, h) \<leftarrow> addAdjoiningFace h eyeVertex horizonEdge;
          (firstSideEdge, h) \<leftarrow> joinSideEdge h firstSideEdge previousSideEdge sideEdge;
          se \<leftarrow> lookup (heap_e h) sideEdge;
          let h = h\<lparr> newFaces := newFaces h @ [e_face se] \<rparr>;
          addNewFacesLoop h eyeVertex hs (firstSideEdge, Some sideEdge) }"

definition addNewFaces :: "ConvexHull \<Rightarrow> vref \<Rightarrow> eref list \<Rightarrow> ConvexHull option" where
  "addNewFaces h eyeVertex horizon =
     do { (h, firstSideEdge, previousSideEdge) \<leftarrow>
             addNewFacesLoop (h\<lparr> newFaces := [] \<rparr>) eyeVertex horizon (None, None);
          fe \<leftarrow> deref (heap_e h) firstSideEdge;
          nx \<leftarrow> e_next fe;
          hes \<leftarrow> setTwin (heap_e h) nx previousSideEdge;
          Some (h\<lparr> heap_e := hes \<rparr>) }"

definition addVertexToHull :: "nat \<Rightarrow> ConvexHull \<Rightarrow> vref \<Rightarrow> ConvexHull option" where
  "addVertexToHull fuel h eyeVertex =
     do { let h = h\<lparr> unassigned := clear (unassigned h) \<rparr>;
          ev \<leftarrow> lookup (heap_v h) eyeVertex;
          face \<leftarrow> v_face ev;
          h \<leftarrow> removeVertexFromFace h eyeVertex face;
          ev \<leftarrow> lookup (heap_v h) eyeVertex;
          face \<leftarrow> v_face ev;
          (h, horizon) \<leftarrow> computeHorizon fuel h (v_point ev) None face [];
          h \<leftarrow> addNewFaces h eyeVertex horizon;
          resolveUnassignedPoints fuel h (newFaces h) }"

definition cleanup :: "ConvexHull \<Rightarrow> ConvexHull" where
  "cleanup h = h\<lparr> assigned := clear (assigned h), unassigned := clear (unassigned h),
                 newFaces := [] \<rparr>"

text \<open>The \<open>while\<close> loop of \<open>_compute\<close>, then \<open>_compute\<close> itself.\<close>

fun computeLoop :: "nat \<Rightarrow> nat \<Rightarrow> ConvexHull \<Rightarrow> ConvexHull option" where
  "computeLoop 0 fuel h = None"
| "computeLoop (Suc n) fuel h =
     do { vertex \<leftarrow> nextVertexToAdd fuel h;
          case vertex of
            None \<Rightarrow> Some h
          | Some v \<Rightarrow> do { h \<leftarrow> addVertexToHull fuel h v; computeLoop n fuel h } }"

definition computeHull :: "nat \<Rightarrow> ConvexHull \<Rightarrow> ConvexHull option" where
  "computeHull fuel h =
     do { h \<leftarrow> computeInitialHull h;
          h \<leftarrow> computeLoop fuel fuel h;
          h \<leftarrow> reindexFaces h;
          Some (cleanup h) }"

definition makeEmpty :: "ConvexHull \<Rightarrow> ConvexHull" where
  "makeEmpty h = h\<lparr> faces := [], vertices := [] \<rparr>"

definition pushVertex :: "ConvexHull \<Rightarrow> vec3 \<Rightarrow> ConvexHull" where
  "pushVertex h p = h\<lparr> vertices := vertices h @ [length (heap_v h)],
                       heap_v := heap_v h @ [newVertexNode p] \<rparr>"

definition setFromPoints :: "nat \<Rightarrow> ConvexHull \<Rightarrow> vec3 list \<Rightarrow> ConvexHull option" where
  "setFromPoints fuel h points =
     (if length points \<ge> 4 then computeHull fuel (foldl pushVertex (makeEmpty h) points)
      else Some h)"

subsection \<open>ConvexHull.intersectRay\<close>

text \<open>
  Modelled from the spec: \<open>Ray\<close> belongs to the three.js core, which is not under
  \<^verbatim>\<open>src/\<close>. \<open>ray.at(t, target)\<close> stores the point of the ray at parameter \<open>t\<close> in
  \<open>target\<close>; the model keeps the ray and the parameter, which may be infinite.
\<close>

record Ray =
  origin :: vec3
  direction :: vec3

datatype xreal = MInf | Fin real | PInf

fun xless :: "xreal \<Rightarrow> xreal \<Rightarrow> bool" where
  "xless MInf MInf = False"
| "xless MInf _ = True"
| "xless (Fin a) (Fin b) = (a < b)"
| "xless (Fin a) PInf = True"
| "xless (Fin a) MInf = False"
| "xless PInf _ = False"

definition xmin :: "xreal \<Rightarrow> xreal \<Rightarrow> xreal" where
  "xmin a b = (if xless b a then b else a)"

definition xmax :: "xreal \<Rightarrow> xreal \<Rightarrow> xreal" where
  "xmax a b = (if xless a b then b else a)"

datatype rayPoint = At Ray xreal

fun intersectRay_loop :: "Face list \<Rightarrow> Ray \<Rightarrow> fref list \<Rightarrow> xreal \<times> xreal
    \<Rightarrow> (xreal \<times> xreal) option option" where
  "intersectRay_loop hf ray [] acc = Some (Some acc)"
| "intersectRay_loop hf ray (i # is) (tNear, tFar) =
     do { face \<leftarrow> lookup hf i;
          let vN = distanceToPoint face (origin ray);
          let vD = dot (f_normal face) (direction ray);
          if vN > 0 \<and> vD \<ge> 0 then Some None
          else
            (let t = (if vD \<noteq> 0 then - vN / vD else 0)
             in if t \<le> 0 then intersectRay_loop hf ray is (tNear, tFar)
                else
                  (let (tNear, tFar) =
                         (if vD > 0 then (tNear, xmin (Fin t) tFar)
                          else (xmax (Fin t) tNear, tFar))
                   in if xless tFar tNear then Some None
                      else intersectRay_loop hf ray is (tNear, tFar))) }"

text \<open>The result \<open>Some None\<close> is the source's \<open>null\<close>.\<close>

definition intersectRay :: "ConvexHull \<Rightarrow> Ray \<Rightarrow> rayPoint option option" where
  "intersectRay h ray =
     do { r \<leftarrow> intersectRay_loop (heap_f h) ray (faces h) (MInf, PInf);
          case r of
            None \<Rightarrow> Some None
          | Some (tNear, tFar) \<Rightarrow>
              Some (Some (if tNear \<noteq> MInf then At ray tNear else At ray tFar)) }"

definition intersectsRay :: "ConvexHull \<Rightarrow> Ray \<Rightarrow> bool option" where
  "intersectsRay h ray = do { r \<leftarrow> intersectRay h ray; Some (r \<noteq> None) }"

subsection \<open>The words of the spec for \<open>intersectRay\<close>\<close>

text \<open>
  These definitions follow the spec, not the source: a face is a \<^emph>\<open>definite miss\<close> for a
  ray whose origin is strictly on its outward side while the ray is turned away from or
  parallel to it; \<open>running\<close> gives the running maximum entry parameter \<open>tNear\<close> and the
  running minimum exit parameter \<open>tFar\<close> after a list of faces, each face taken as a
  half-space; \<open>crossed\<close> says that \<open>tNear\<close> exceeds \<open>tFar\<close>.
\<close>

definition definiteMiss :: "Ray \<Rightarrow> Face \<Rightarrow> bool" where
  "definiteMiss ray face =
     (distanceToPoint face (origin ray) > 0 \<and> dot (f_normal face) (direction ray) \<ge> 0)"

definition slab :: "Ray \<Rightarrow> xreal \<times> xreal \<Rightarrow> Face \<Rightarrow> xreal \<times> xreal" where
  "slab ray acc face =
     (let vN = distanceToPoint face (origin ray);
          vD = dot (f_normal face) (direction ray);
          t = (if vD \<noteq> 0 then - vN / vD else 0)
      in if t \<le> 0 then acc
         else if vD > 0 then (fst acc, xmin (Fin t) (snd acc))
         else (xmax (Fin t) (fst acc), snd acc))"

definition running :: "Ray \<Rightarrow> Face list \<Rightarrow> xreal \<times> xreal" where
  "running ray fs = foldl (slab ray) (MInf, PInf) fs"

definition crossed :: "xreal \<times> xreal \<Rightarrow> bool" where
  "crossed acc = xless (snd acc) (fst acc)"

definition finite_x :: "xreal \<Rightarrow> bool" where
  "finite_x t = (case t of Fin _ \<Rightarrow> True | _ \<Rightarrow> False)"

subsection \<open>Example states\<close>

text \<open>
  Three points wrapped as vertex nodes, and the hull object holding the single face that
  \<open>Face.create\<close> builds on them.
\<close>

definition threePoints :: ConvexHull where
  "threePoints = foldl pushVertex newConvexHull [Vector3 0 0 0, Vector3 1 0 0, Vector3 0 1 0]"

definition oneFace :: ConvexHull where
  "oneFace = (case create threePoints (Some 0) (Some 1) (Some 2) of
                None \<Rightarrow> threePoints | Some (f, h) \<Rightarrow> h\<lparr> faces := [f], tolerance := 0 \<rparr>)"

definition unitRay :: Ray where
  "unitRay = \<lparr> origin = Vector3 0 0 1, direction = Vector3 0 0 (- 1) \<rparr>"

subsection \<open>Invariants of the construction\<close>

text \<open>
  The states of a hull object between two calls of its methods: a new object, the state
  after \<open>_computeInitialHull\<close> on the vertices pushed by \<open>setFromPoints\<close>, after one
  round of the loop of \<open>_compute\<close>, after \<open>_reindexFaces\<close> and after \<open>_cleanup\<close>.
\<close>

inductive reachable :: "ConvexHull \<Rightarrow> bool" where
  new: "reachable newConvexHull"
| initialHull: "reachable h0 \<Longrightarrow> length points \<ge> 4 \<Longrightarrow>
     computeInitialHull (foldl pushVertex (makeEmpty h0) points) = Some h \<Longrightarrow> reachable h"
| addVertex: "reachable h \<Longrightarrow> nextVertexToAdd fuel h = Some (Some v) \<Longrightarrow>
     addVertexToHull fuel h v = Some h' \<Longrightarrow> reachable h'"
| reindex: "reachable h \<Longrightarrow> reindexFaces h = Some h' \<Longrightarrow> reachable h'"
| cleanup: "reachable h \<Longrightarrow> reachable (cleanup h)"

text \<open>
  A vertex resides in a list when the walk along \<open>next\<close> from the head of the list
  comes to it.
\<close>

inductive resides :: "VertexNode list \<Rightarrow> vref option \<Rightarrow> vref \<Rightarrow> bool" where
  here: "resides hv (Some v) v"
| further: "u < length hv \<Longrightarrow> resides hv (v_next (hv ! u)) v \<Longrightarrow> resides hv (Some u) v"

text \<open>
  A reference is null or points to a vertex with a face; \<open>faceRefs\<close> says so of every
  reference to a vertex that the hull stores: the links of the nodes, the ends of the two
  lists and the \<open>outside\<close> of the faces.
\<close>

definition hasFace :: "VertexNode list \<Rightarrow> vref option \<Rightarrow> bool" where
  "hasFace hv r = (case r of None \<Rightarrow> True | Some v \<Rightarrow> v < length hv \<and> v_face (hv ! v) \<noteq> None)"

definition linksOK :: "VertexNode list \<Rightarrow> bool" where
  "linksOK hv = (\<forall>v < length hv. hasFace hv (v_prev (hv ! v)) \<and> hasFace hv (v_next (hv ! v)))"

definition listOK :: "VertexNode list \<Rightarrow> VertexList \<Rightarrow> bool" where
  "listOK hv l = (hasFace hv (l_head l) \<and> hasFace hv (l_tail l))"

definition outsideOK :: "VertexNode list \<Rightarrow> Face list \<Rightarrow> bool" where
  "outsideOK hv hf = (\<forall>f < length hf. hasFace hv (f_outside (hf ! f)))"

definition faceRefs :: "ConvexHull \<Rightarrow> bool" where
  "faceRefs h = (linksOK (heap_v h) \<and> listOK (heap_v h) (assigned h) \<and>
                 listOK (heap_v h) (unassigned h) \<and> outsideOK (heap_v h) (heap_f h))"

text \<open>What a step leaves alone: the faces of the nodes, or at least that they have one.\<close>

definition facesKept :: "VertexNode list \<Rightarrow> VertexNode list \<Rightarrow> bool" where
  "facesKept hv hv' = (length hv' = length hv \<and> (\<forall>v < length hv. v_face (hv' ! v) = v_face (hv ! v)))"

definition facesGrow :: "VertexNode list \<Rightarrow> VertexNode list \<Rightarrow> bool" where
  "facesGrow hv hv' = (length hv' = length hv \<and> (\<forall>r. hasFace hv r \<longrightarrow> hasFace hv' r))"

definition nodesKept :: "VertexNode list \<Rightarrow> VertexNode list \<Rightarrow> bool" where
  "nodesKept hv hv' = (length hv' = length hv \<and>
      (\<forall>v < length hv. v_point (hv' ! v) = v_point (hv ! v) \<and> v_face (hv' ! v) = v_face (hv ! v)))"

definition pointsKept :: "VertexNode list \<Rightarrow> VertexNode list \<Rightarrow> bool" where
  "pointsKept hv hv' = (length hv' = length hv \<and>
      (\<forall>v < length hv. v_point (hv' ! v) = v_point (hv ! v)))"

text \<open>Half-edges are kept up to their twins, faces up to their outside set and mark.\<close>

definition edgesKept :: "HalfEdge list \<Rightarrow> HalfEdge list \<Rightarrow> bool" where
  "edgesKept he he' = (length he \<le> length he' \<and>
      (\<forall>e < length he. (he' ! e)\<lparr> e_twin := None \<rparr> = (he ! e)\<lparr> e_twin := None \<rparr>))"

definition planesKept :: "Face list \<Rightarrow> Face list \<Rightarrow> bool" where
  "planesKept hf hf' = (length hf \<le> length hf' \<and>
      (\<forall>f < length hf. (hf' ! f)\<lparr> f_outside := None, f_mark := Visible \<rparr>
                       = (hf ! f)\<lparr> f_outside := None, f_mark := Visible \<rparr>))"

definition frame :: "ConvexHull \<Rightarrow> ConvexHull \<Rightarrow> bool" where
  "frame h h' = (tolerance h' = tolerance h \<and> vertices h' = vertices h \<and>
      pointsKept (heap_v h) (heap_v h') \<and> edgesKept (heap_e h) (heap_e h') \<and>
      planesKept (heap_f h) (heap_f h'))"

text \<open>
  Every vertex of the hull that refers to a face lies above the plane of that face by more
  than the tolerance.
\<close>

definition outsideInv :: "ConvexHull \<Rightarrow> bool" where
  "outsideInv h = (\<forall>v \<in> set (vertices h). \<forall>f. v < length (heap_v h) \<longrightarrow>
      v_face (heap_v h ! v) = Some f \<longrightarrow>
      f < length (heap_f h) \<and>
      distanceToPoint (heap_f h ! f) (v_point (heap_v h ! v)) > tolerance h)"

text \<open>
  The three half-edges of a face: three different edges of that face, closed under
  \<open>next\<close> and under \<open>prev\<close>.
\<close>

definition triangleOK :: "HalfEdge list \<Rightarrow> fref \<Rightarrow> eref \<Rightarrow> bool" where
  "triangleOK he f e0 = (\<exists>e1 e2. e0 < length he \<and> e1 < length he \<and> e2 < length he \<and>
      e0 \<noteq> e1 \<and> e1 \<noteq> e2 \<and> e2 \<noteq> e0 \<and>
      e_next (he ! e0) = Some e1 \<and> e_next (he ! e1) = Some e2 \<and> e_next (he ! e2) = Some e0 \<and>
      e_prev (he ! e0) = Some e2 \<and> e_prev (he ! e1) = Some e0 \<and> e_prev (he ! e2) = Some e1 \<and>
      e_face (he ! e0) = f \<and> e_face (he ! e1) = f \<and> e_face (he ! e2) = f)"

definition cyclesOK :: "ConvexHull \<Rightarrow> bool" where
  "cyclesOK h = (\<forall>f < length (heap_f h).
      \<exists>e0. f_edge (heap_f h ! f) = Some e0 \<and> triangleOK (heap_e h) f e0)"

definition steady :: "ConvexHull \<Rightarrow> ConvexHull \<Rightarrow> bool" where
  "steady h h' = (frame h h' \<and> (outsideInv h \<longrightarrow> outsideInv h') \<and> (cyclesOK h \<longrightarrow> cyclesOK h'))"

definition quiet :: "ConvexHull \<Rightarrow> ConvexHull \<Rightarrow> bool" where
  "quiet h h' = (frame h h' \<and> nodesKept (heap_v h) (heap_v h') \<and>
                 length (heap_f h') = length (heap_f h))"

subsection \<open>The words of the spec for the tolerance\<close>

text \<open>
  Three times the machine epsilon times the sum, over the three axes, of the larger of the
  absolute values of the least and the greatest coordinate of the points of the hull.
\<close>

definition coordinates :: "ConvexHull \<Rightarrow> axis \<Rightarrow> real set" where
  "coordinates h j = (\<lambda>v. getComponent (v_point (heap_v h ! v)) j) ` set (vertices h)"

definition specTolerance :: "ConvexHull \<Rightarrow> real" where
  "specTolerance h = 3 * EPSILON *
     (\<Sum>j \<leftarrow> [AxisX, AxisY, AxisZ]. max \<bar>Min (coordinates h j)\<bar> \<bar>Max (coordinates h j)\<bar>)"

text \<open>
  What every state of the construction satisfies: the outside sets and the triangles above,
  vertices that exist, and a tolerance that is the one of the spec once there are vertices.
\<close>

definition hullInv :: "ConvexHull \<Rightarrow> bool" where
  "hullInv h = (outsideInv h \<and> cyclesOK h \<and> (\<forall>v \<in> set (vertices h). v < length (heap_v h)) \<and>
                (vertices h \<noteq> [] \<longrightarrow> tolerance h = specTolerance h))"

subsection \<open>A run on six points\<close>

text \<open>
  The states of \<open>setFromPoints\<close> on a tetrahedron, a point above one of its faces and a
  point above the same face but below the faces that the first one adds: \<open>S0\<close> after the
  vertices are pushed, \<open>S1\<close> after \<open>_computeExtremes\<close>, \<open>C0\<close> ... \<open>C3\<close> after the four
  calls of \<open>Face.create\<close>, \<open>T0\<close> ... \<open>T2\<close> after the rounds that join the twins, \<open>S3\<close>
  after \<open>_computeInitialHull\<close>; then, in \<open>_addVertexToHull\<close> for vertex 4, \<open>R1\<close> after
  \<open>_removeVertexFromFace\<close>, \<open>R2\<close> after \<open>_computeHorizon\<close> and \<open>R3\<close> after
  \<open>_addNewFaces\<close> (and after \<open>_resolveUnassignedPoints\<close>, which changes nothing);
  \<open>R4\<close> after \<open>_reindexFaces\<close> and \<open>R5\<close> after \<open>_cleanup\<close>. Every state is written as
  the fields that differ from the state before it.
\<close>

abbreviation mkL :: "vref option \<Rightarrow> vref option \<Rightarrow> VertexList" where
  "mkL h t \<equiv> \<lparr> l_head = h, l_tail = t \<rparr>"

abbreviation mkV :: "vec3 \<Rightarrow> vref option \<Rightarrow> vref option \<Rightarrow> fref option \<Rightarrow> VertexNode" where
  "mkV p pr nx f \<equiv> \<lparr> v_point = p, v_prev = pr, v_next = nx, v_face = f \<rparr>"

abbreviation mkE :: "vref option \<Rightarrow> eref option \<Rightarrow> eref option \<Rightarrow> eref option \<Rightarrow> fref
    \<Rightarrow> HalfEdge" where
  "mkE v pr nx tw f \<equiv> \<lparr> e_vertex = v, e_prev = pr, e_next = nx, e_twin = tw, e_face = f \<rparr>"

abbreviation mkF :: "vec3 \<Rightarrow> vec3 \<Rightarrow> real \<Rightarrow> real \<Rightarrow> vref option \<Rightarrow> mark \<Rightarrow> eref option
    \<Rightarrow> Face" where
  "mkF n m a c out mk e \<equiv> \<lparr> f_normal = n, f_midpoint = m, f_area = a, f_constant = c,
      f_outside = out, f_mark = mk, f_edge = e \<rparr>"

definition sixPoints :: "vec3 list" where
  "sixPoints = [Vector3 0 0 0, Vector3 2 0 0, Vector3 0 1 0, Vector3 0 0 1,
                Vector3 (2/5) (3/5) (3/5), Vector3 (1/2) (1/2) (1/2)]"

definition S0 :: ConvexHull where
  "S0 =
   \<lparr> tolerance = - 1, faces = [], newFaces = [], assigned = mkL None None,
     unassigned = mkL None None, vertices = [0, 1, 2, 3, 4, 5],
     heap_v =
       [mkV (Vector3 0 0 0) None None None, mkV (Vector3 2 0 0) None None None,
        mkV (Vector3 0 1 0) None None None, mkV (Vector3 0 0 1) None None None,
        mkV (Vector3 (2 / 5) (3 / 5) (3 / 5)) None None None,
        mkV (Vector3 (1 / 2) (1 / 2) (1 / 2)) None None None],
     heap_e = [], heap_f = [] \<rparr>"

definition ex1 :: extremes where
  "ex1 = \<lparr>x_min = \<lambda>_. 0, x_max = (\<lambda>_. 0)(AxisX := 1, AxisY := 2, AxisZ := 3)\<rparr>"

definition S1 :: ConvexHull where
  "S1 =
   S0\<lparr> tolerance := 3 / 1125899906842624 \<rparr>"

definition C0 :: ConvexHull where
  "C0 =
   S1\<lparr> heap_e :=
       [mkE (Some 0) (Some 2) (Some 1) None 0, mkE (Some 2) (Some 0) (Some 2) None 0,
        mkE (Some 1) (Some 1) (Some 0) None 0],
     heap_f :=
       [mkF (Vector3 0 0 (- 1)) (Vector3 (2 / 3) (1 / 3) 0) 1 0 None Visible (Some 0)] \<rparr>"

definition C1 :: ConvexHull where
  "C1 =
   C0\<lparr> heap_e :=
       [mkE (Some 0) (Some 2) (Some 1) None 0, mkE (Some 2) (Some 0) (Some 2) None 0,
        mkE (Some 1) (Some 1) (Some 0) None 0, mkE (Some 3) (Some 5) (Some 4) None 1,
        mkE (Some 0) (Some 3) (Some 5) None 1, mkE (Some 1) (Some 4) (Some 3) None 1],
     heap_f :=
       [mkF (Vector3 0 0 (- 1)) (Vector3 (2 / 3) (1 / 3) 0) 1 0 None Visible (Some 0),
        mkF (Vector3 0 (- 1) 0) (Vector3 (2 / 3) 0 (1 / 3)) 1 0 None Visible (Some 3)] \<rparr>"

definition C2 :: ConvexHull where
  "C2 =
   C1\<lparr> heap_e :=
       [mkE (Some 0) (Some 2) (Some 1) None 0, mkE (Some 2) (Some 0) (Some 2) None 0,
        mkE (Some 1) (Some 1) (Some 0) None 0, mkE (Some 3) (Some 5) (Some 4) None 1,
        mkE (Some 0) (Some 3) (Some 5) None 1, mkE (Some 1) (Some 4) (Some 3) None 1,
        mkE (Some 3) (Some 8) (Some 7) None 2, mkE (Some 1) (Some 6) (Some 8) None 2,
        mkE (Some 2) (Some 7) (Some 6) None 2],
     heap_f :=
       [mkF (Vector3 0 0 (- 1)) (Vector3 (2 / 3) (1 / 3) 0) 1 0 None Visible (Some 0),
        mkF (Vector3 0 (- 1) 0) (Vector3 (2 / 3) 0 (1 / 3)) 1 0 None Visible (Some 3),
        mkF (Vector3 (1 / 3) (2 / 3) (2 / 3)) (Vector3 (2 / 3) (1 / 3) (1 / 3)) (3 / 2) (2 / 3) None Visible (Some 6)] \<rparr>"

definition C3 :: ConvexHull where
  "C3 =
   C2\<lparr> heap_e :=
       [mkE (Some 0) (Some 2) (Some 1) None 0, mkE (Some 2) (Some 0) (Some 2) None 0,
        mkE (Some 1) (Some 1) (Some 0) None 0, mkE (Some 3) (Some 5) (Some 4) None 1,
        mkE (Some 0) (Some 3) (Some 5) None 1, mkE (Some 1) (Some 4) (Some 3) None 1,
        mkE (Some 3) (Some 8) (Some 7) None 2, mkE (Some 1) (Some 6) (Some 8) None 2,
        mkE (Some 2) (Some 7) (Some 6) None 2, mkE (Some 3) (Some 11) (Some 10) None 3,
        mkE (Some 2) (Some 9) (Some 11) None 3, mkE (Some 0) (Some 10) (Some 9) None 3],
     heap_f :=
       [mkF (Vector3 0 0 (- 1)) (Vector3 (2 / 3) (1 / 3) 0) 1 0 None Visible (Some 0),
        mkF (Vector3 0 (- 1) 0) (Vector3 (2 / 3) 0 (1 / 3)) 1 0 None Visible (Some 3),
        mkF (Vector3 (1 / 3) (2 / 3) (2 / 3)) (Vector3 (2 / 3) (1 / 3) (1 / 3)) (3 / 2) (2 / 3) None Visible (Some 6),
        mkF (Vector3 (- 1) 0 0) (Vector3 0 (1 / 3) (1 / 3)) (1 / 2) 0 None Visible (Some 9)] \<rparr>"

definition T0 :: ConvexHull where
  "T0 =
   C3\<lparr> heap_e :=
       [mkE (Some 0) (Some 2) (Some 1) (Some 5) 0, mkE (Some 2) (Some 0) (Some 2) None 0,
        mkE (Some 1) (Some 1) (Some 0) None 0, mkE (Some 3) (Some 5) (Some 4) (Some 7) 1,
        mkE (Some 0) (Some 3) (Some 5) None 1, mkE (Some 1) (Some 4) (Some 3) (Some 0) 1,
        mkE (Some 3) (Some 8) (Some 7) None 2, mkE (Some 1) (Some 6) (Some 8) (Some 3) 2,
        mkE (Some 2) (Some 7) (Some 6) None 2, mkE (Some 3) (Some 11) (Some 10) None 3,
        mkE (Some 2) (Some 9) (Some 11) None 3, mkE (Some 0) (Some 10) (Some 9) None 3] \<rparr>"

definition T1 :: ConvexHull where
  "T1 =
   T0\<lparr> heap_e :=
       [mkE (Some 0) (Some 2) (Some 1) (Some 5) 0, mkE (Some 2) (Some 0) (Some 2) None 0,
        mkE (Some 1) (Some 1) (Some 0) (Some 8) 0, mkE (Some 3) (Some 5) (Some 4) (Some 7) 1,
        mkE (Some 0) (Some 3) (Some 5) None 1, mkE (Some 1) (Some 4) (Some 3) (Some 0) 1,
        mkE (Some 3) (Some 8) (Some 7) (Some 10) 2, mkE (Some 1) (Some 6) (Some 8) (Some 3) 2,
        mkE (Some 2) (Some 7) (Some 6) (Some 2) 2, mkE (Some 3) (Some 11) (Some 10) None 3,
        mkE (Some 2) (Some 9) (Some 11) (Some 6) 3, mkE (Some 0) (Some 10) (Some 9) None 3] \<rparr>"

definition T2 :: ConvexHull where
  "T2 =
   T1\<lparr> heap_e :=
       [mkE (Some 0) (Some 2) (Some 1) (Some 5) 0, mkE (Some 2) (Some 0) (Some 2) (Some 11) 0,
        mkE (Some 1) (Some 1) (Some 0) (Some 8) 0, mkE (Some 3) (Some 5) (Some 4) (Some 7) 1,
        mkE (Some 0) (Some 3) (Some 5) (Some 9) 1, mkE (Some 1) (Some 4) (Some 3) (Some 0) 1,
        mkE (Some 3) (Some 8) (Some 7) (Some 10) 2, mkE (Some 1) (Some 6) (Some 8) (Some 3) 2,
        mkE (Some 2) (Some 7) (Some 6) (Some 2) 2, mkE (Some 3) (Some 11) (Some 10) (Some 4) 3,
        mkE (Some 2) (Some 9) (Some 11) (Some 6) 3, mkE (Some 0) (Some 10) (Some 9) (Some 1) 3] \<rparr>"

definition S3 :: ConvexHull where
  "S3 =
   T2\<lparr> faces := [0, 1, 2, 3], assigned := mkL (Some 5) (Some 4),
     heap_v :=
       [mkV (Vector3 0 0 0) None None None, mkV (Vector3 2 0 0) None None None,
        mkV (Vector3 0 1 0) None None None, mkV (Vector3 0 0 1) None None None,
        mkV (Vector3 (2 / 5) (3 / 5) (3 / 5)) (Some 5) None (Some 2),
        mkV (Vector3 (1 / 2) (1 / 2) (1 / 2)) None (Some 4) (Some 2)],
     heap_f :=
       [mkF (Vector3 0 0 (- 1)) (Vector3 (2 / 3) (1 / 3) 0) 1 0 None Visible (Some 0),
        mkF (Vector3 0 (- 1) 0) (Vector3 (2 / 3) 0 (1 / 3)) 1 0 None Visible (Some 3),
        mkF (Vector3 (1 / 3) (2 / 3) (2 / 3)) (Vector3 (2 / 3) (1 / 3) (1 / 3)) (3 / 2) (2 / 3) (Some 5) Visible (Some 6),
        mkF (Vector3 (- 1) 0 0) (Vector3 0 (1 / 3) (1 / 3)) (1 / 2) 0 None Visible (Some 9)] \<rparr>"

definition R1 :: ConvexHull where
  "R1 =
   S3\<lparr> assigned := mkL (Some 5) (Some 5),
     heap_v :=
       [mkV (Vector3 0 0 0) None None None, mkV (Vector3 2 0 0) None None None,
        mkV (Vector3 0 1 0) None None None, mkV (Vector3 0 0 1) None None None,
        mkV (Vector3 (2 / 5) (3 / 5) (3 / 5)) (Some 5) None (Some 2),
        mkV (Vector3 (1 / 2) (1 / 2) (1 / 2)) None None (Some 2)] \<rparr>"

definition R2 :: ConvexHull where
  "R2 =
   R1\<lparr> assigned := mkL None None, unassigned := mkL (Some 5) (Some 5),
     heap_f :=
       [mkF (Vector3 0 0 (- 1)) (Vector3 (2 / 3) (1 / 3) 0) 1 0 None Visible (Some 0),
        mkF (Vector3 0 (- 1) 0) (Vector3 (2 / 3) 0 (1 / 3)) 1 0 None Visible (Some 3),
        mkF (Vector3 (1 / 3) (2 / 3) (2 / 3)) (Vector3 (2 / 3) (1 / 3) (1 / 3)) (3 / 2) (2 / 3) None Deleted (Some 6),
        mkF (Vector3 (- 1) 0 0) (Vector3 0 (1 / 3) (1 / 3)) (1 / 2) 0 None Visible (Some 9)] \<rparr>"

definition R3 :: ConvexHull where
  "R3 =
   R2\<lparr> faces := [0, 1, 2, 3, 4, 5, 6], newFaces := [4, 5, 6],
     heap_e :=
       [mkE (Some 0) (Some 2) (Some 1) (Some 5) 0, mkE (Some 2) (Some 0) (Some 2) (Some 11) 0,
        mkE (Some 1) (Some 1) (Some 0) (Some 20) 0, mkE (Some 3) (Some 5) (Some 4) (Some 17) 1,
        mkE (Some 0) (Some 3) (Some 5) (Some 9) 1, mkE (Some 1) (Some 4) (Some 3) (Some 0) 1,
        mkE (Some 3) (Some 8) (Some 7) (Some 10) 2, mkE (Some 1) (Some 6) (Some 8) (Some 3) 2,
        mkE (Some 2) (Some 7) (Some 6) (Some 2) 2, mkE (Some 3) (Some 11) (Some 10) (Some 4) 3,
        mkE (Some 2) (Some 9) (Some 11) (Some 14) 3, mkE (Some 0) (Some 10) (Some 9) (Some 1) 3,
        mkE (Some 4) (Some 14) (Some 13) (Some 16) 4,
        mkE (Some 2) (Some 12) (Some 14) (Some 18) 4,
        mkE (Some 3) (Some 13) (Some 12) (Some 10) 4,
        mkE (Some 4) (Some 17) (Some 16) (Some 19) 5,
        mkE (Some 3) (Some 15) (Some 17) (Some 12) 5, mkE (Some 1) (Some 16) (Some 15) (Some 3) 5,
        mkE (Some 4) (Some 20) (Some 19) (Some 13) 6,
        mkE (Some 1) (Some 18) (Some 20) (Some 15) 6, mkE (Some 2) (Some 19) (Some 18) (Some 2) 6],
     heap_f :=
       [mkF (Vector3 0 0 (- 1)) (Vector3 (2 / 3) (1 / 3) 0) 1 0 None Visible (Some 0),
        mkF (Vector3 0 (- 1) 0) (Vector3 (2 / 3) 0 (1 / 3)) 1 0 None Visible (Some 3),
        mkF (Vector3 (1 / 3) (2 / 3) (2 / 3)) (Vector3 (2 / 3) (1 / 3) (1 / 3)) (3 / 2) (2 / 3) None Deleted (Some 6),
        mkF (Vector3 (- 1) 0 0) (Vector3 0 (1 / 3) (1 / 3)) (1 / 2) 0 None Visible (Some 9),
        mkF (Vector3 (- (1 / 3)) (2 / 3) (2 / 3)) (Vector3 (2 / 15) (8 / 15) (8 / 15)) (3 / 10) (2 / 3) None Visible (Some 12),
        mkF (Vector3 (3 / 7) (2 / 7) (6 / 7)) (Vector3 (4 / 5) (1 / 5) (8 / 15)) (7 / 10) (6 / 7) None Visible (Some 15),
        mkF (Vector3 (3 / 7) (6 / 7) (2 / 7)) (Vector3 (4 / 5) (8 / 15) (1 / 5)) (7 / 10) (6 / 7) None Visible (Some 18)] \<rparr>"

definition R4 :: ConvexHull where
  "R4 =
   R3\<lparr> faces := [0, 1, 3, 4, 5, 6] \<rparr>"

definition R5 :: ConvexHull where
  "R5 =
   R4\<lparr> newFaces := [], unassigned := mkL None None \<rparr>"

subsection \<open>A run with a point within the tolerance of a face\<close>

text \<open>
  The same tetrahedron; the fifth point lies outside it near the edge from vertex 0 to
  vertex 1, \<open>4 / 2 ^ 50\<close> above the face \<open>y = 0\<close> and \<open>3 / 2 ^ 50\<close> (the tolerance)
  above the face \<open>z = 0\<close>; the sixth point lies on the face \<open>z = 0\<close>. The states are
  named as before: \<open>F0\<close>, \<open>F1\<close>, \<open>FC0\<close> ... \<open>FC3\<close>, \<open>FT0\<close> ... \<open>FT2\<close> and \<open>F3\<close> for
  the initial hull, \<open>G1\<close> ... \<open>G3\<close> in \<open>_addVertexToHull\<close> for vertex 4, \<open>G4\<close> after
  \<open>_reindexFaces\<close> and \<open>G5\<close> after \<open>_cleanup\<close>.
\<close>

definition flatPoints :: "vec3 list" where
  "flatPoints = [Vector3 0 0 0, Vector3 2 0 0, Vector3 0 1 0, Vector3 0 0 1,
                 Vector3 (3 / 2 ^ 50) (- (4 / 2 ^ 50)) (- (3 / 2 ^ 50)), Vector3 (1/4) (1/4) 0]"

definition F0 :: ConvexHull where
  "F0 =
   \<lparr> tolerance = - 1, faces = [], newFaces = [], assigned = mkL None None,
     unassigned = mkL None None, vertices = [0, 1, 2, 3, 4, 5],
     heap_v =
       [mkV (Vector3 0 0 0) None None None, mkV (Vector3 2 0 0) None None None,
        mkV (Vector3 0 1 0) None None None, mkV (Vector3 0 0 1) None None None,
        mkV (Vector3 (3 / 1125899906842624) (- (1 / 281474976710656)) (- (3 / 1125899906842624))) None None None,
        mkV (Vector3 (1 / 4) (1 / 4) 0) None None None],
     heap_e = [], heap_f = [] \<rparr>"

definition ex2 :: extremes where
  "ex2 = \<lparr>x_min = (\<lambda>_. 0)(AxisY := 4, AxisZ := 4), x_max = (\<lambda>_. 0)(AxisX := 1, AxisY := 2, AxisZ := 3)\<rparr>"

definition F1 :: ConvexHull where
  "F1 = S1\<lparr> heap_v := heap_v F0 \<rparr>"

definition FC0 :: ConvexHull where
  "FC0 = C0\<lparr> heap_v := heap_v F0 \<rparr>"

definition FC1 :: ConvexHull where
  "FC1 = C1\<lparr> heap_v := heap_v F0 \<rparr>"

definition FC2 :: ConvexHull where
  "FC2 = C2\<lparr> heap_v := heap_v F0 \<rparr>"

definition FC3 :: ConvexHull where
  "FC3 = C3\<lparr> heap_v := heap_v F0 \<rparr>"

definition FT0 :: ConvexHull where
  "FT0 = T0\<lparr> heap_v := heap_v F0 \<rparr>"

definition FT1 :: ConvexHull where
  "FT1 = T1\<lparr> heap_v := heap_v F0 \<rparr>"

definition FT2 :: ConvexHull where
  "FT2 = T2\<lparr> heap_v := heap_v F0 \<rparr>"

definition F3 :: ConvexHull where
  "F3 =
   FT2\<lparr> faces := [0, 1, 2, 3], assigned := mkL (Some 4) (Some 4),
     heap_v :=
       [mkV (Vector3 0 0 0) None None None, mkV (Vector3 2 0 0) None None None,
        mkV (Vector3 0 1 0) None None None, mkV (Vector3 0 0 1) None None None,
        mkV (Vector3 (3 / 1125899906842624) (- (1 / 281474976710656)) (- (3 / 1125899906842624))) None None (Some 1),
        mkV (Vector3 (1 / 4) (1 / 4) 0) None None None],
     heap_f :=
       [mkF (Vector3 0 0 (- 1)) (Vector3 (2 / 3) (1 / 3) 0) 1 0 None Visible (Some 0),
        mkF (Vector3 0 (- 1) 0) (Vector3 (2 / 3) 0 (1 / 3)) 1 0 (Some 4) Visible (Some 3),
        mkF (Vector3 (1 / 3) (2 / 3) (2 / 3)) (Vector3 (2 / 3) (1 / 3) (1 / 3)) (3 / 2) (2 / 3) None Visible (Some 6),
        mkF (Vector3 (- 1) 0 0) (Vector3 0 (1 / 3) (1 / 3)) (1 / 2) 0 None Visible (Some 9)] \<rparr>"

definition G1 :: ConvexHull where
  "G1 =
   F3\<lparr> assigned := mkL None None,
     heap_f :=
       [mkF (Vector3 0 0 (- 1)) (Vector3 (2 / 3) (1 / 3) 0) 1 0 None Visible (Some 0),
        mkF (Vector3 0 (- 1) 0) (Vector3 (2 / 3) 0 (1 / 3)) 1 0 None Visible (Some 3),
        mkF (Vector3 (1 / 3) (2 / 3) (2 / 3)) (Vector3 (2 / 3) (1 / 3) (1 / 3)) (3 / 2) (2 / 3) None Visible (Some 6),
        mkF (Vector3 (- 1) 0 0) (Vector3 0 (1 / 3) (1 / 3)) (1 / 2) 0 None Visible (Some 9)] \<rparr>"

definition G2 :: ConvexHull where
  "G2 =
   G1\<lparr> heap_f :=
       [mkF (Vector3 0 0 (- 1)) (Vector3 (2 / 3) (1 / 3) 0) 1 0 None Visible (Some 0),
        mkF (Vector3 0 (- 1) 0) (Vector3 (2 / 3) 0 (1 / 3)) 1 0 None Deleted (Some 3),
        mkF (Vector3 (1 / 3) (2 / 3) (2 / 3)) (Vector3 (2 / 3) (1 / 3) (1 / 3)) (3 / 2) (2 / 3) None Visible (Some 6),
        mkF (Vector3 (- 1) 0 0) (Vector3 0 (1 / 3) (1 / 3)) (1 / 2) 0 None Visible (Some 9)] \<rparr>"

definition G3 :: ConvexHull where
  "G3 =
   G2\<lparr> faces := [0, 1, 2, 3, 4, 5, 6], newFaces := [4, 5, 6],
     heap_e :=
       [mkE (Some 0) (Some 2) (Some 1) (Some 20) 0, mkE (Some 2) (Some 0) (Some 2) (Some 11) 0,
        mkE (Some 1) (Some 1) (Some 0) (Some 8) 0, mkE (Some 3) (Some 5) (Some 4) (Some 7) 1,
        mkE (Some 0) (Some 3) (Some 5) (Some 9) 1, mkE (Some 1) (Some 4) (Some 3) (Some 0) 1,
        mkE (Some 3) (Some 8) (Some 7) (Some 10) 2, mkE (Some 1) (Some 6) (Some 8) (Some 14) 2,
        mkE (Some 2) (Some 7) (Some 6) (Some 2) 2, mkE (Some 3) (Some 11) (Some 10) (Some 17) 3,
        mkE (Some 2) (Some 9) (Some 11) (Some 6) 3, mkE (Some 0) (Some 10) (Some 9) (Some 1) 3,
        mkE (Some 4) (Some 14) (Some 13) (Some 16) 4,
        mkE (Some 1) (Some 12) (Some 14) (Some 18) 4, mkE (Some 3) (Some 13) (Some 12) (Some 7) 4,
        mkE (Some 4) (Some 17) (Some 16) (Some 19) 5,
        mkE (Some 3) (Some 15) (Some 17) (Some 12) 5, mkE (Some 0) (Some 16) (Some 15) (Some 9) 5,
        mkE (Some 4) (Some 20) (Some 19) (Some 13) 6,
        mkE (Some 0) (Some 18) (Some 20) (Some 15) 6, mkE (Some 1) (Some 19) (Some 18) (Some 0) 6],
     heap_f :=
       [mkF (Vector3 0 0 (- 1)) (Vector3 (2 / 3) (1 / 3) 0) 1 0 None Visible (Some 0),
        mkF (Vector3 0 (- 1) 0) (Vector3 (2 / 3) 0 (1 / 3)) 1 0 None Deleted (Some 3),
        mkF (Vector3 (1 / 3) (2 / 3) (2 / 3)) (Vector3 (2 / 3) (1 / 3) (1 / 3)) (3 / 2) (2 / 3) None Visible (Some 6),
        mkF (Vector3 (- 1) 0 0) (Vector3 0 (1 / 3) (1 / 3)) (1 / 2) 0 None Visible (Some 9),
        mkF (Vector3 (4 / sqrt 5070602400912931116785694933081) (- (2251799813685251 / sqrt 5070602400912931116785694933081)) (8 / sqrt 5070602400912931116785694933081)) (Vector3 (2251799813685251 / 3377699720527872) (- (1 / 844424930131968)) (1125899906842621 / 3377699720527872)) (sqrt 5070602400912931116785694933081 / 2251799813685248) (8 / sqrt 5070602400912931116785694933081) None Visible (Some 12),
        mkF (Vector3 (- (4 / 5)) (- (3 / 5)) 0) (Vector3 (1 / 1125899906842624) (- (1 / 844424930131968)) (1125899906842621 / 3377699720527872)) (5 / 2251799813685248) 0 None Visible (Some 15),
        mkF (Vector3 0 (3 / 5) (- (4 / 5))) (Vector3 (2251799813685251 / 3377699720527872) (- (1 / 844424930131968)) (- (1 / 1125899906842624))) (5 / 1125899906842624) 0 None Visible (Some 18)] \<rparr>"

definition G4 :: ConvexHull where
  "G4 =
   G3\<lparr> faces := [0, 2, 3, 4, 5, 6] \<rparr>"

definition G5 :: ConvexHull where
  "G5 =
   G4\<lparr> newFaces := [] \<rparr>"

subsection \<open>The words of the spec for the next vertex\<close>

text \<open>
  The outside run of a face: the vertices from \<open>face.outside\<close> along \<open>next\<close>, as long as
  the next vertex belongs to the face. \<open>farther\<close> keeps the vertex seen first among those
  of greatest distance.
\<close>

fun outsideRun :: "nat \<Rightarrow> VertexNode list \<Rightarrow> fref \<Rightarrow> vref \<Rightarrow> vref list option" where
  "outsideRun 0 hv f v = None"
| "outsideRun (Suc n) hv f v =
     do { node \<leftarrow> lookup hv v;
          case v_next node of
            None \<Rightarrow> Some [v]
          | Some nx \<Rightarrow>
              do { nn \<leftarrow> lookup hv nx;
                   if v_face nn = Some f
                   then do { vs \<leftarrow> outsideRun n hv f nx; Some (v # vs) }
                   else Some [v] } }"

definition farther :: "(vref \<Rightarrow> real) \<Rightarrow> vref option \<times> real \<Rightarrow> vref \<Rightarrow> vref option \<times> real" where
  "farther d acc u = (if d u > snd acc then (Some u, d u) else acc)"

subsection \<open>The assigned list as a list of outside sets\<close>

text \<open>
  A segment of a doubly linked list: the nodes \<open>xs\<close> in this order, joined by \<open>next\<close> and
  \<open>prev\<close>, with \<open>p\<close> before the first and \<open>n\<close> after the last. \<open>dl hv l xs\<close> says that
  the list object \<open>l\<close> holds exactly the nodes \<open>xs\<close>, each once; an empty list has neither
  head nor tail.
\<close>

fun hdo :: "vref list \<Rightarrow> vref option \<Rightarrow> vref option" where
  "hdo [] n = n"
| "hdo (x # xs) n = Some x"

fun lasto :: "vref list \<Rightarrow> vref option \<Rightarrow> vref option" where
  "lasto [] p = p"
| "lasto (x # xs) p = lasto xs (Some x)"

fun seg :: "VertexNode list \<Rightarrow> vref option \<Rightarrow> vref list \<Rightarrow> vref option \<Rightarrow> bool" where
  "seg hv p [] n = True"
| "seg hv p (x # xs) n = (x < length hv \<and> v_prev (hv ! x) = p \<and> v_next (hv ! x) = hdo xs n \<and>
                          seg hv (Some x) xs n)"

definition dl :: "VertexNode list \<Rightarrow> VertexList \<Rightarrow> vref list \<Rightarrow> bool" where
  "dl hv l xs = (distinct xs \<and> seg hv None xs None \<and> l_head l = hdo xs None \<and>
                 l_tail l = lasto xs None)"

text \<open>A step that rewrites links of the nodes in \<open>S\<close> only, and no point or face.\<close>

definition relinked :: "vref set \<Rightarrow> VertexNode list \<Rightarrow> VertexNode list \<Rightarrow> bool" where
  "relinked S hv hv' = (length hv' = length hv \<and>
     (\<forall>x < length hv. v_point (hv' ! x) = v_point (hv ! x) \<and> v_face (hv' ! x) = v_face (hv ! x) \<and>
         (x \<notin> S \<longrightarrow> hv' ! x = hv ! x)))"

text \<open>
  The outside sets: the assigned list is the concatenation of blocks, one for each face
  with a non-null \<open>outside\<close>; the face is not deleted, \<open>outside\<close> is the first vertex of
  its block, and the vertices of the block are vertices of the hull that refer to the face.
\<close>

definition blocksOK :: "ConvexHull \<Rightarrow> (fref \<times> vref list) list \<Rightarrow> bool" where
  "blocksOK h bs = (distinct (map fst bs) \<and>
     (\<forall>fb \<in> set bs. snd fb \<noteq> [] \<and> fst fb < length (heap_f h) \<and>
         f_mark (heap_f h ! fst fb) = Visible \<and>
         f_outside (heap_f h ! fst fb) = Some (hd (snd fb)) \<and>
         (\<forall>x \<in> set (snd fb). v_face (heap_v h ! x) = Some (fst fb) \<and> x \<in> set (vertices h))) \<and>
     (\<forall>f < length (heap_f h). f_outside (heap_f h ! f) \<noteq> None \<longrightarrow> f \<in> fst ` set bs))"

definition assignedOK :: "ConvexHull \<Rightarrow> (fref \<times> vref list) list \<Rightarrow> bool" where
  "assignedOK h bs = (dl (heap_v h) (assigned h) (concat (map snd bs)) \<and> blocksOK h bs)"

text \<open>What ends the walk along the block of \<open>f\<close>: no next vertex, or one of another face.\<close>

definition blockEnd :: "VertexNode list \<Rightarrow> fref \<Rightarrow> vref option \<Rightarrow> bool" where
  "blockEnd hv f nx = (case nx of None \<Rightarrow> True
                       | Some y \<Rightarrow> y < length hv \<and> v_face (hv ! y) \<noteq> Some f)"

text \<open>What a step on the assigned list leaves alone.\<close>

definition listStep :: "vref set \<Rightarrow> ConvexHull \<Rightarrow> ConvexHull \<Rightarrow> bool" where
  "listStep S h h' = (unassigned h' = unassigned h \<and> vertices h' = vertices h \<and>
     heap_e h' = heap_e h \<and>
     length (heap_v h') = length (heap_v h) \<and>
     (\<forall>x < length (heap_v h). x \<notin> S \<longrightarrow> heap_v h' ! x = heap_v h ! x) \<and>
     length (heap_f h') = length (heap_f h) \<and>
     (\<forall>g < length (heap_f h). f_mark (heap_f h' ! g) = f_mark (heap_f h ! g)))"

text \<open>
  During \<open>_addVertexToHull\<close> the unassigned list is a second doubly linked list, of vertices
  in no block.
\<close>

definition listsOK :: "ConvexHull \<Rightarrow> (fref \<times> vref list) list \<Rightarrow> vref list \<Rightarrow> bool" where
  "listsOK h bs ys = (assignedOK h bs \<and> dl (heap_v h) (unassigned h) ys \<and>
     set (concat (map snd bs)) \<inter> set ys = {} \<and> set ys \<subseteq> set (vertices h))"

text \<open>
  What \<open>Face.create\<close> and \<open>setTwin\<close> leave alone: both lists, the vertex nodes, and the
  outside set and mark of every face that existed; a new face has no outside set and is
  visible.
\<close>

definition listsKept :: "ConvexHull \<Rightarrow> ConvexHull \<Rightarrow> bool" where
  "listsKept h h' = (assigned h' = assigned h \<and> unassigned h' = unassigned h \<and>
     heap_v h' = heap_v h \<and> vertices h' = vertices h \<and>
     length (heap_f h) \<le> length (heap_f h') \<and>
     (\<forall>g < length (heap_f h). f_outside (heap_f h' ! g) = f_outside (heap_f h ! g) \<and>
                               f_mark (heap_f h' ! g) = f_mark (heap_f h ! g)) \<and>
     (\<forall>g < length (heap_f h'). length (heap_f h) \<le> g \<longrightarrow>
         f_outside (heap_f h' ! g) = None \<and> f_mark (heap_f h' ! g) = Visible))"

text \<open>
  The states of a hull object as \<open>setFromPoints\<close> goes through them. \<open>finished\<close>: the
  states between two calls of the public methods, a new object, a hull after \<open>makeEmpty\<close>
  and a hull after \<open>_compute\<close> has returned. \<open>computing\<close>: the states at the head of the
  \<open>while\<close> loop of \<open>_compute\<close>, after \<open>_computeInitialHull\<close> and after each round; the
  loop ends, with \<open>_reindexFaces\<close> and \<open>_cleanup\<close>, only when \<open>_nextVertexToAdd\<close> has
  returned \<open>undefined\<close>.
\<close>

inductive computing :: "ConvexHull \<Rightarrow> bool" and finished :: "ConvexHull \<Rightarrow> bool" where
  fresh: "finished newConvexHull"
| emptied: "finished h \<Longrightarrow> finished (makeEmpty h)"
| started: "finished h0 \<Longrightarrow> length points \<ge> 4 \<Longrightarrow>
     computeInitialHull (foldl pushVertex (makeEmpty h0) points) = Some h \<Longrightarrow> computing h"
| round: "computing h \<Longrightarrow> nextVertexToAdd fuel h = Some (Some v) \<Longrightarrow>
     addVertexToHull fuel h v = Some h' \<Longrightarrow> computing h'"
| completed: "computing h \<Longrightarrow> nextVertexToAdd fuel h = Some None \<Longrightarrow>
     reindexFaces h = Some h' \<Longrightarrow> finished (cleanup h')"

text \<open>No vertex is assigned: the assigned list is empty and no face has an outside set.\<close>

definition idle :: "ConvexHull \<Rightarrow> bool" where
  "idle h = (l_head (assigned h) = None \<and> l_tail (assigned h) = None \<and>
             (\<forall>f < length (heap_f h). f_outside (heap_f h ! f) = None))"


subsection \<open>The words of the spec for the outside sets\<close>


definition marksFall :: "ConvexHull \<Rightarrow> ConvexHull \<Rightarrow> bool" where
  "marksFall h h' = (heap_e h' = heap_e h \<and> tolerance h' = tolerance h \<and>
     length (heap_f h') = length (heap_f h) \<and>
     (\<forall>g < length (heap_f h).
        f_normal (heap_f h' ! g) = f_normal (heap_f h ! g) \<and>
        f_constant (heap_f h' ! g) = f_constant (heap_f h ! g) \<and>
        (f_mark (heap_f h' ! g) = Visible \<longrightarrow> f_mark (heap_f h ! g) = Visible)))"


subsection \<open>Numbers that may be NaN\<close>













subsection \<open>An array of three points\<close>

definition threePoints_input :: "vec3 list" where
  "threePoints_input = [Vector3 0 0 0, Vector3 1 0 0, Vector3 0 1 0]"


section \<open>Properties\<close>

lemma lookup_Some: "i < length xs \<Longrightarrow> lookup xs i = Some (xs ! i)"
  by (simp add: lookup_def)

lemma containsPoint_loop_eq:
  "\<forall>i \<in> set fs. i < length hf \<Longrightarrow>
   containsPoint_loop hf tol fs p = Some (\<forall>i \<in> set fs. distanceToPoint (hf ! i) p \<le> tol)"
  by (induction fs) (auto simp: lookup_Some)

lemma threePoints_eq:
  "threePoints = \<lparr> tolerance = - 1, faces = [], newFaces = [],
     assigned = \<lparr> l_head = None, l_tail = None \<rparr>,
     unassigned = \<lparr> l_head = None, l_tail = None \<rparr>, vertices = [0, 1, 2],
     heap_v = [\<lparr> v_point = Vector3 0 0 0, v_prev = None, v_next = None, v_face = None \<rparr>,
               \<lparr> v_point = Vector3 1 0 0, v_prev = None, v_next = None, v_face = None \<rparr>,
               \<lparr> v_point = Vector3 0 1 0, v_prev = None, v_next = None, v_face = None \<rparr>],
     heap_e = [], heap_f = [] \<rparr>"
  by (simp add: threePoints_def pushVertex_def newConvexHull_def newVertexNode_def emptyList_def)

lemma oneFace_eq:
  "oneFace = \<lparr> tolerance = 0, faces = [0], newFaces = [],
     assigned = \<lparr> l_head = None, l_tail = None \<rparr>,
     unassigned = \<lparr> l_head = None, l_tail = None \<rparr>, vertices = [0, 1, 2],
     heap_v = [\<lparr> v_point = Vector3 0 0 0, v_prev = None, v_next = None, v_face = None \<rparr>,
               \<lparr> v_point = Vector3 1 0 0, v_prev = None, v_next = None, v_face = None \<rparr>,
               \<lparr> v_point = Vector3 0 1 0, v_prev = None, v_next = None, v_face = None \<rparr>],
     heap_e = [\<lparr> e_vertex = Some 0, e_prev = Some 2, e_next = Some 1, e_twin = None, e_face = 0 \<rparr>,
               \<lparr> e_vertex = Some 1, e_prev = Some 0, e_next = Some 2, e_twin = None, e_face = 0 \<rparr>,
               \<lparr> e_vertex = Some 2, e_prev = Some 1, e_next = Some 0, e_twin = None, e_face = 0 \<rparr>],
     heap_f = [\<lparr> f_normal = Vector3 0 0 1, f_midpoint = Vector3 (1 / 3) (1 / 3) 0,
                 f_area = 1 / 2, f_constant = 0, f_outside = None, f_mark = Visible,
                 f_edge = Some 0 \<rparr>] \<rparr>"
  by (simp add: oneFace_def threePoints_eq create_def compute_def newHalfEdge_def newFace_def
      lookup_def deref_def tail_def head_def getNormal_def getMidpoint_def getArea_def
      lengthSq_def Let_def)

subsection \<open>The plane of a face\<close>

text \<open>
  Claim C6. For every face and every point, \<open>distanceToPoint(face, point)\<close> is the dot
  product of the face's normal with the point minus the face's plane constant; and the
  plane constant that \<open>Face.compute\<close> stores is the dot product of the face's normal with
  its midpoint.
\<close>

theorem distanceToPoint_plane_constant:
  assumes "compute h this = Some h'"
  shows "(\<forall>face p. distanceToPoint face p = dot (f_normal face) p - f_constant face) \<and>
         (\<exists>face. lookup (heap_f h') this = Some face \<and>
                  f_constant face = dot (f_normal face) (f_midpoint face))"
  using assms
  by (auto simp: compute_def distanceToPoint_def lookup_def Let_def split: bind_splits if_splits)

theorem distanceToPoint_plane_constant_witness:
  "compute oneFace 0 = Some oneFace \<and>
   (\<exists>face. lookup (heap_f oneFace) 0 = Some face \<and>
            f_constant face = dot (f_normal face) (f_midpoint face))"
proof -
  have c: "compute oneFace 0 = Some oneFace"
    by (simp add: oneFace_eq compute_def lookup_def deref_def tail_def head_def getNormal_def
        getMidpoint_def getArea_def lengthSq_def Let_def)
  from distanceToPoint_plane_constant [OF c] c show ?thesis by blast
qed

subsection \<open>Removing a vertex from a list\<close>

text \<open>
  Claim C10. \<open>remove(vertex)\<close> updates only the links of the neighbouring nodes and the
  head and tail of the list: the \<open>prev\<close> and \<open>next\<close> fields of the removed vertex itself
  are left as they were, still pointing at its former neighbours. The vertex and its two
  neighbours are existing nodes; then the call completes, no node changes its point or its
  face, only the \<open>next\<close> of the former predecessor and the \<open>prev\<close> of the former
  successor are rewritten, and the head (tail) of the list changes only when the vertex
  had no predecessor (successor).
\<close>

theorem remove_leaves_own_links:
  assumes "vertex < length hv"
      and "\<forall>p. v_prev (hv ! vertex) = Some p \<longrightarrow> p < length hv"
      and "\<forall>n. v_next (hv ! vertex) = Some n \<longrightarrow> n < length hv"
  shows "\<exists>l' hv'. remove (l, hv) vertex = Some (l', hv') \<and> length hv' = length hv \<and>
           v_prev (hv' ! vertex) = v_prev (hv ! vertex) \<and>
           v_next (hv' ! vertex) = v_next (hv ! vertex) \<and>
           (\<forall>u < length hv.
              v_point (hv' ! u) = v_point (hv ! u) \<and> v_face (hv' ! u) = v_face (hv ! u) \<and>
              (v_prev (hv ! vertex) \<noteq> Some u \<longrightarrow> v_next (hv' ! u) = v_next (hv ! u)) \<and>
              (v_next (hv ! vertex) \<noteq> Some u \<longrightarrow> v_prev (hv' ! u) = v_prev (hv ! u))) \<and>
           (case v_prev (hv ! vertex) of
              None \<Rightarrow> l_head l' = v_next (hv ! vertex)
            | Some p \<Rightarrow> l_head l' = l_head l \<and> v_next (hv' ! p) = v_next (hv ! vertex)) \<and>
           (case v_next (hv ! vertex) of
              None \<Rightarrow> l_tail l' = v_prev (hv ! vertex)
            | Some n \<Rightarrow> l_tail l' = l_tail l \<and> v_prev (hv' ! n) = v_prev (hv ! vertex))"
  using assms
  by (cases "v_prev (hv ! vertex)"; cases "v_next (hv ! vertex)")
     (auto simp: remove_def set_next_def set_prev_def lookup_def nth_list_update)

theorem remove_leaves_own_links_witness:
  "\<exists>l' hv'. remove (\<lparr> l_head = Some 0, l_tail = Some 2 \<rparr>,
       [\<lparr> v_point = Vector3 0 0 0, v_prev = None, v_next = Some 1, v_face = Some 0 \<rparr>,
        \<lparr> v_point = Vector3 1 0 0, v_prev = Some 0, v_next = Some 2, v_face = Some 0 \<rparr>,
        \<lparr> v_point = Vector3 0 1 0, v_prev = Some 1, v_next = None, v_face = Some 0 \<rparr>]) 1
     = Some (l', hv') \<and> v_prev (hv' ! 1) = Some 0 \<and> v_next (hv' ! 1) = Some 2 \<and>
       v_next (hv' ! 0) = Some 2 \<and> v_prev (hv' ! 2) = Some 0"
  using remove_leaves_own_links [of 1
       "[\<lparr> v_point = Vector3 0 0 0, v_prev = None, v_next = Some 1, v_face = Some 0 \<rparr>,
         \<lparr> v_point = Vector3 1 0 0, v_prev = Some 0, v_next = Some 2, v_face = Some 0 \<rparr>,
         \<lparr> v_point = Vector3 0 1 0, v_prev = Some 1, v_next = None, v_face = Some 0 \<rparr>]"
       "\<lparr> l_head = Some 0, l_tail = Some 2 \<rparr>"]
  by (simp add: remove_def lookup_def set_next_def set_prev_def)

subsection \<open>The ray query\<close>

lemma intersectRay_loop_eq:
  assumes "\<forall>i \<in> set is. i < length hf" "\<not> crossed acc"
  shows "intersectRay_loop hf ray is acc =
     Some (if (\<exists>i \<in> set is. definiteMiss ray (hf ! i)) \<or>
              (\<exists>k \<le> length is. crossed (foldl (slab ray) acc (take k (map ((!) hf) is))))
           then None else Some (foldl (slab ray) acc (map ((!) hf) is)))"
  using assms
proof (induction "is" arbitrary: acc)
  case Nil
  then show ?case by simp
next
  case (Cons i "is")
  obtain tn tf where acc: "acc = (tn, tf)" by (cases acc)
  let ?f = "hf ! i"
  have i: "lookup hf i = Some ?f" using Cons.prems by (simp add: lookup_def)
  have ex: "(\<exists>k \<le> length (i # is).
                crossed (foldl (slab ray) acc (take k (map ((!) hf) (i # is))))) =
            (\<exists>k \<le> length is.
                crossed (foldl (slab ray) (slab ray acc ?f) (take k (map ((!) hf) is))))"
    (is "?L = ?R")
  proof
    assume ?L
    then obtain k where k: "k \<le> length (i # is)"
        "crossed (foldl (slab ray) acc (take k (map ((!) hf) (i # is))))" by blast
    with Cons.prems(2) have "k \<noteq> 0" by (cases k) auto
    then obtain k' where "k = Suc k'" by (cases k) auto
    with k show ?R by auto
  next
    assume ?R
    then obtain k where k: "k \<le> length is"
        "crossed (foldl (slab ray) (slab ray acc ?f) (take k (map ((!) hf) is)))" by blast
    then have "Suc k \<le> length (i # is) \<and>
        crossed (foldl (slab ray) acc (take (Suc k) (map ((!) hf) (i # is))))" by simp
    then show ?L by blast
  qed
  show ?case
  proof (cases "definiteMiss ray ?f")
    case True
    then show ?thesis using i acc by (simp add: definiteMiss_def)
  next
    case False
    show ?thesis
    proof (cases "crossed (slab ray acc ?f)")
      case True
      then have "\<exists>k \<le> length is.
          crossed (foldl (slab ray) (slab ray acc ?f) (take k (map ((!) hf) is)))"
        by (intro exI[of _ 0]) simp
      with ex have R: "\<exists>k \<le> length (i # is).
          crossed (foldl (slab ray) acc (take k (map ((!) hf) (i # is))))" by simp
      have "intersectRay_loop hf ray (i # is) acc = Some None"
        using i acc False True Cons.prems(2)
        by (auto simp: definiteMiss_def slab_def Let_def crossed_def split: if_splits)
      then show ?thesis using R by simp
    next
      case nc: False
      have IH: "intersectRay_loop hf ray is (slab ray acc ?f) =
         Some (if (\<exists>i \<in> set is. definiteMiss ray (hf ! i)) \<or>
                  (\<exists>k \<le> length is.
                      crossed (foldl (slab ray) (slab ray acc ?f) (take k (map ((!) hf) is))))
               then None else Some (foldl (slab ray) (slab ray acc ?f) (map ((!) hf) is)))"
        using Cons.IH[OF _ nc] Cons.prems(1) by simp
      have step: "intersectRay_loop hf ray (i # is) acc =
                  intersectRay_loop hf ray is (slab ray acc ?f)"
        using i acc False nc
        by (auto simp: definiteMiss_def slab_def Let_def crossed_def split: if_splits)
      show ?thesis unfolding step IH using ex False by simp
    qed
  qed
qed

lemma fst_slabs_not_PInf: "fst acc \<noteq> PInf \<Longrightarrow> fst (foldl (slab ray) acc fs) \<noteq> PInf"
  by (induction fs arbitrary: acc) (auto simp: slab_def Let_def xmax_def)

text \<open>
  Claim C5. \<open>intersectRay\<close> returns \<open>null\<close> exactly when some face is a definite miss
  (the ray origin strictly on its outward side, the direction turned away from or parallel
  to it) or the running \<open>tNear\<close> exceeds the running \<open>tFar\<close> after some prefix of the face
  list; otherwise it returns the point of the ray at \<open>tNear\<close> when \<open>tNear\<close> is finite, and
  at \<open>tFar\<close> when it is not. The face list holds references to existing face objects.
\<close>

theorem intersectRay_null_iff:
  assumes "\<forall>i \<in> set (faces h). i < length (heap_f h)"
  shows "intersectRay h ray =
     Some (if (\<exists>i \<in> set (faces h). definiteMiss ray (heap_f h ! i)) \<or>
              (\<exists>k \<le> length (faces h).
                  crossed (running ray (take k (map ((!) (heap_f h)) (faces h)))))
           then None
           else (let (tNear, tFar) = running ray (map ((!) (heap_f h)) (faces h))
                 in Some (At ray (if finite_x tNear then tNear else tFar))))"
proof -
  have nc: "\<not> crossed (MInf, PInf)" by (simp add: crossed_def)
  obtain tn tf where r: "running ray (map ((!) (heap_f h)) (faces h)) = (tn, tf)"
    by (cases "running ray (map ((!) (heap_f h)) (faces h))")
  have "fst (running ray (map ((!) (heap_f h)) (faces h))) \<noteq> PInf"
    unfolding running_def by (rule fst_slabs_not_PInf) simp
  with r have "tn \<noteq> PInf" by simp
  then have fin: "finite_x tn = (tn \<noteq> MInf)" by (cases tn) (simp_all add: finite_x_def)
  show ?thesis
    using r fin
    by (simp add: intersectRay_def intersectRay_loop_eq [OF assms nc] running_def)
qed

theorem intersectRay_null_iff_witness:
  "list_all (\<lambda>i. i < length (heap_f oneFace)) (faces oneFace) \<and>
   intersectRay oneFace unitRay = Some (Some (At unitRay (Fin 1))) \<and>
   intersectRay oneFace (unitRay\<lparr> direction := Vector3 0 0 1 \<rparr>) = Some None \<and>
   intersectRay oneFace (unitRay\<lparr> origin := Vector3 0 0 (- 1) \<rparr>)
     = Some (Some (At (unitRay\<lparr> origin := Vector3 0 0 (- 1) \<rparr>) PInf))"
proof -
  have valid: "\<forall>i \<in> set (faces oneFace). i < length (heap_f oneFace)"
    by (simp add: oneFace_eq)
  have miss: "definiteMiss (unitRay\<lparr> direction := Vector3 0 0 1 \<rparr>) (heap_f oneFace ! 0)"
    by (simp add: oneFace_eq unitRay_def definiteMiss_def distanceToPoint_def)
  have null: "intersectRay oneFace (unitRay\<lparr> direction := Vector3 0 0 1 \<rparr>) = Some None"
    using intersectRay_null_iff [OF valid, of "unitRay\<lparr> direction := Vector3 0 0 1 \<rparr>"] miss
    by (simp add: oneFace_eq)
  have hits: "intersectRay oneFace unitRay = Some (Some (At unitRay (Fin 1)))"
    "intersectRay oneFace (unitRay\<lparr> origin := Vector3 0 0 (- 1) \<rparr>)
       = Some (Some (At (unitRay\<lparr> origin := Vector3 0 0 (- 1) \<rparr>) PInf))"
    by (simp_all add: intersectRay_def oneFace_eq unitRay_def lookup_def distanceToPoint_def
        xmax_def xmin_def)
  from valid null hits show ?thesis by (simp add: list_all_iff)
qed

subsection \<open>Face references of the vertices\<close>

lemma hasFace_kept: "facesKept hv hv' \<Longrightarrow> hasFace hv' r = hasFace hv r"
  by (auto simp: facesKept_def hasFace_def split: option.splits)

lemma hasFace_fwd: "facesKept hv hv' \<Longrightarrow> hasFace hv r \<Longrightarrow> hasFace hv' r"
  by (simp add: hasFace_kept)

lemma hasFace_bwd: "facesKept hv hv' \<Longrightarrow> hasFace hv' r \<Longrightarrow> hasFace hv r"
  by (simp add: hasFace_kept)

lemma facesKept_refl [simp]: "facesKept hv hv" by (simp add: facesKept_def)

lemma facesKept_trans: "facesKept a b \<Longrightarrow> facesKept b c \<Longrightarrow> facesKept a c" by (simp add: facesKept_def)

lemma set_next_J:
  assumes "set_next hv v r = Some hv'" "linksOK hv" "hasFace hv r"
  shows "linksOK hv' \<and> facesKept hv hv'"
proof -
  have k: "facesKept hv hv'" using assms(1) by (auto simp: set_next_def facesKept_def nth_list_update split: if_splits)
  have "linksOK hv'" unfolding linksOK_def hasFace_kept[OF k]
    using assms by (auto simp: set_next_def linksOK_def nth_list_update split: if_splits)
  with k show ?thesis by simp
qed

lemma set_prev_J:
  assumes "set_prev hv v r = Some hv'" "linksOK hv" "hasFace hv r"
  shows "linksOK hv' \<and> facesKept hv hv'"
proof -
  have k: "facesKept hv hv'" using assms(1) by (auto simp: set_prev_def facesKept_def nth_list_update split: if_splits)
  have "linksOK hv'" unfolding linksOK_def hasFace_kept[OF k]
    using assms by (auto simp: set_prev_def linksOK_def nth_list_update split: if_splits)
  with k show ?thesis by simp
qed

lemma lookup_links: "linksOK hv \<Longrightarrow> lookup hv v = Some n \<Longrightarrow> hasFace hv (v_prev n) \<and> hasFace hv (v_next n)"
  by (auto simp: linksOK_def lookup_def split: if_splits)

lemma listOK_kept: "facesKept hv hv' \<Longrightarrow> listOK hv' l = listOK hv l"
  by (simp add: listOK_def hasFace_kept)

lemma remove_J:
  assumes "remove (l, hv) vertex = Some (l', hv')" "linksOK hv" "listOK hv l"
  shows "linksOK hv' \<and> facesKept hv hv' \<and> listOK hv' l'"
proof -
  from assms(1) obtain v l1 hv1 v' where
    v: "lookup hv vertex = Some v" and
    s1: "(case v_prev v of None \<Rightarrow> Some (l\<lparr> l_head := v_next v \<rparr>, hv)
          | Some p \<Rightarrow> do { hv \<leftarrow> set_next hv p (v_next v); Some (l, hv) }) = Some (l1, hv1)" and
    v': "lookup hv1 vertex = Some v'" and
    s2: "(case v_next v' of None \<Rightarrow> Some (l1\<lparr> l_tail := v_prev v' \<rparr>, hv1)
          | Some n \<Rightarrow> do { hv \<leftarrow> set_prev hv1 n (v_prev v'); Some (l1, hv) }) = Some (l', hv')"
    by (auto simp: remove_def split: bind_splits)
  note hv = lookup_links[OF assms(2) v]
  have 1: "linksOK hv1 \<and> facesKept hv hv1 \<and> listOK hv1 l1"
    using s1 hv assms(2,3)
    by (auto simp: listOK_def hasFace_kept split: option.splits bind_splits dest!: set_next_J)
  note hv' = lookup_links[OF conjunct1[OF 1] v']
  have 2: "linksOK hv' \<and> facesKept hv1 hv' \<and> listOK hv' l'"
    using s2 hv' 1
    by (auto simp: listOK_def hasFace_kept split: option.splits bind_splits dest!: set_prev_J)
  with 1 show ?thesis by (auto intro: facesKept_trans)
qed

lemma removeSubList_J:
  assumes "removeSubList (l, hv) a b = Some (l', hv')" "linksOK hv" "listOK hv l"
  shows "linksOK hv' \<and> facesKept hv hv' \<and> listOK hv' l'"
proof -
  from assms(1) obtain va vb l1 hv1 va' vb' where
    va: "lookup hv a = Some va" and vb: "lookup hv b = Some vb" and
    s1: "(case v_prev va of None \<Rightarrow> Some (l\<lparr> l_head := v_next vb \<rparr>, hv)
          | Some p \<Rightarrow> do { hv \<leftarrow> set_next hv p (v_next vb); Some (l, hv) }) = Some (l1, hv1)" and
    va': "lookup hv1 a = Some va'" and vb': "lookup hv1 b = Some vb'" and
    s2: "(case v_next vb' of None \<Rightarrow> Some (l1\<lparr> l_tail := v_prev va' \<rparr>, hv1)
          | Some n \<Rightarrow> do { hv \<leftarrow> set_prev hv1 n (v_prev va'); Some (l1, hv) }) = Some (l', hv')"
    by (auto simp: removeSubList_def split: bind_splits)
  note ha = lookup_links[OF assms(2) va] and hb = lookup_links[OF assms(2) vb]
  have 1: "linksOK hv1 \<and> facesKept hv hv1 \<and> listOK hv1 l1"
    using s1 ha hb assms(2,3)
    by (auto simp: listOK_def hasFace_kept split: option.splits bind_splits dest!: set_next_J)
  note ha' = lookup_links[OF conjunct1[OF 1] va'] and hb' = lookup_links[OF conjunct1[OF 1] vb']
  have 2: "linksOK hv' \<and> facesKept hv1 hv' \<and> listOK hv' l'"
    using s2 ha' hb' 1
    by (auto simp: listOK_def hasFace_kept split: option.splits bind_splits dest!: set_prev_J)
  with 1 show ?thesis by (auto intro: facesKept_trans)
qed

lemma hasFace_None [simp]: "hasFace hv None" by (simp add: hasFace_def)

lemma append_J:
  assumes "append (l, hv) vertex = Some (l', hv')" "linksOK hv" "listOK hv l" "hasFace hv (Some vertex)"
  shows "linksOK hv' \<and> facesKept hv hv' \<and> listOK hv' l'"
proof -
  from assms(1) obtain l1 hv1 hv2 where
    s1: "(case l_head l of None \<Rightarrow> Some (l\<lparr> l_head := Some vertex \<rparr>, hv)
          | Some _ \<Rightarrow> do { t \<leftarrow> l_tail l; hv \<leftarrow> set_next hv t (Some vertex); Some (l, hv) }) = Some (l1, hv1)" and
    s2: "set_prev hv1 vertex (l_tail l1) = Some hv2" and
    s3: "set_next hv2 vertex None = Some hv'" and l': "l' = l1\<lparr> l_tail := Some vertex \<rparr>"
    by (auto simp: append_def split: bind_splits)
  have 1: "linksOK hv1 \<and> facesKept hv hv1 \<and> listOK hv1 l1"
    using s1 assms(2,3,4)
    by (auto simp: listOK_def hasFace_kept split: option.splits bind_splits dest!: set_next_J)
  have 2: "linksOK hv2 \<and> facesKept hv1 hv2"
    using s2 1 by (auto simp: listOK_def dest!: set_prev_J)
  have 3: "linksOK hv' \<and> facesKept hv2 hv'"
    using s3 2 by (auto dest!: set_next_J)
  have k: "facesKept hv hv'" using 1 2 3 by (blast intro: facesKept_trans)
  have k1: "facesKept hv1 hv'" using 2 3 by (blast intro: facesKept_trans)
  show ?thesis using 1 3 k k1 assms(4) l'
    by (auto simp: listOK_def intro: hasFace_fwd)
qed

lemma insertBefore_J:
  assumes "insertBefore (l, hv) target vertex = Some (l', hv')" "linksOK hv" "listOK hv l"
    "hasFace hv (Some vertex)" "hasFace hv (Some target)"
  shows "linksOK hv' \<and> facesKept hv hv' \<and> listOK hv' l'"
proof -
  from assms(1) obtain t hv1 hv2 v l3 hv3 where
    t: "lookup hv target = Some t" and
    s1: "set_prev hv vertex (v_prev t) = Some hv1" and
    s2: "set_next hv1 vertex (Some target) = Some hv2" and
    v: "lookup hv2 vertex = Some v" and
    s3: "(case v_prev v of None \<Rightarrow> Some (l\<lparr> l_head := Some vertex \<rparr>, hv2)
          | Some p \<Rightarrow> do { hv \<leftarrow> set_next hv2 p (Some vertex); Some (l, hv) }) = Some (l3, hv3)" and
    s4: "set_prev hv3 target (Some vertex) = Some hv'" and l': "l' = l3"
    by (auto simp: insertBefore_def split: bind_splits)
  note ht = lookup_links[OF assms(2) t]
  have 1: "linksOK hv1 \<and> facesKept hv hv1" using s1 ht assms(2) by (auto dest!: set_prev_J)
  then have k1: "facesKept hv hv1" by simp
  have 2: "linksOK hv2 \<and> facesKept hv1 hv2" using s2 1 assms(5) by (auto dest!: set_next_J intro: hasFace_fwd)
  have k2: "facesKept hv hv2" using 1 2 by (blast intro: facesKept_trans)
  have a2: "hasFace hv2 (Some vertex)" "hasFace hv2 (l_head l)" "hasFace hv2 (l_tail l)"
    using assms(3,4) k2 by (auto simp: listOK_def intro: hasFace_fwd)
  have 3: "linksOK hv3 \<and> facesKept hv2 hv3 \<and> listOK hv3 l3"
    using s3 2 a2
    by (auto simp: listOK_def split: option.splits bind_splits dest!: set_next_J intro: hasFace_fwd)
  have k3: "facesKept hv hv3" using k2 3 by (blast intro: facesKept_trans)
  have 4: "linksOK hv' \<and> facesKept hv3 hv'" using s4 3 assms(4) k3 by (auto dest!: set_prev_J intro: hasFace_fwd)
  have k: "facesKept hv hv'" using k3 4 by (blast intro: facesKept_trans)
  show ?thesis using 3 4 k l' by (auto simp: listOK_def intro: hasFace_fwd)
qed

lemma chainEnd_hasFace:
  "chainEnd n hv v = Some e \<Longrightarrow> linksOK hv \<Longrightarrow> hasFace hv (Some v) \<Longrightarrow> hasFace hv (Some e)"
proof (induction n arbitrary: v)
  case 0 then show ?case by simp
next
  case (Suc n)
  from Suc.prems(1) obtain node where node: "lookup hv v = Some node"
    and c: "(case v_next node of None \<Rightarrow> Some v | Some v' \<Rightarrow> chainEnd n hv v') = Some e"
    by (auto split: bind_splits)
  note lookup_links[OF Suc.prems(2) node]
  then show ?case using c Suc.IH Suc.prems(2,3) by (auto split: option.splits)
qed

lemma appendChain_J:
  assumes "appendChain fuel (l, hv) vertex = Some (l', hv')" "linksOK hv" "listOK hv l" "hasFace hv (Some vertex)"
  shows "linksOK hv' \<and> facesKept hv hv' \<and> listOK hv' l'"
proof -
  from assms(1) obtain l1 hv1 lst where
    s1: "(case l_head l of None \<Rightarrow> Some (l\<lparr> l_head := Some vertex \<rparr>, hv)
          | Some _ \<Rightarrow> do { t \<leftarrow> l_tail l; hv \<leftarrow> set_next hv t (Some vertex); Some (l, hv) }) = Some (l1, hv1)" and
    s2: "set_prev hv1 vertex (l_tail l1) = Some hv'" and
    s3: "chainEnd fuel hv' vertex = Some lst" and l': "l' = l1\<lparr> l_tail := Some lst \<rparr>"
    by (auto simp: appendChain_def split: bind_splits)
  have 1: "linksOK hv1 \<and> facesKept hv hv1 \<and> listOK hv1 l1"
    using s1 assms(2,3,4)
    by (auto simp: listOK_def hasFace_kept split: option.splits bind_splits dest!: set_next_J)
  have 2: "linksOK hv' \<and> facesKept hv1 hv'"
    using s2 1 by (auto simp: listOK_def dest!: set_prev_J)
  have k: "facesKept hv hv'" using 1 2 by (blast intro: facesKept_trans)
  have "hasFace hv' (Some lst)" using chainEnd_hasFace[OF s3] 2 assms(4) by (simp add: hasFace_kept[OF k])
  then show ?thesis using 1 2 k l' by (auto simp: listOK_def intro: hasFace_fwd)
qed

lemma outsideOK_fwd: "facesKept hv hv' \<Longrightarrow> outsideOK hv hf \<Longrightarrow> outsideOK hv' hf"
  by (auto simp: outsideOK_def intro: hasFace_fwd)

lemma listOK_fwd: "facesKept hv hv' \<Longrightarrow> listOK hv l \<Longrightarrow> listOK hv' l"
  by (auto simp: listOK_def intro: hasFace_fwd)

lemma set_outside_J:
  "set_outside hf f r = Some hf' \<Longrightarrow> outsideOK hv hf \<Longrightarrow> hasFace hv r \<Longrightarrow> outsideOK hv hf'"
  by (auto simp: set_outside_def outsideOK_def nth_list_update split: if_splits)

lemma set_mark_J:
  "set_mark hf f m = Some hf' \<Longrightarrow> outsideOK hv hf \<Longrightarrow> outsideOK hv hf'"
  by (auto simp: set_mark_def outsideOK_def nth_list_update split: if_splits)

lemma lookup_outside: "outsideOK hv hf \<Longrightarrow> lookup hf f = Some face \<Longrightarrow> hasFace hv (f_outside face)"
  by (auto simp: outsideOK_def lookup_def split: if_splits)

lemma facesKept_Grow: "facesKept hv hv' \<Longrightarrow> facesGrow hv hv'"
  by (auto simp: facesGrow_def facesKept_def intro: hasFace_fwd[unfolded facesKept_def])

lemma facesGrow_trans: "facesGrow a b \<Longrightarrow> facesGrow b c \<Longrightarrow> facesGrow a c"
  by (simp add: facesGrow_def)

lemma facesGrow_refl [simp]: "facesGrow a a" by (simp add: facesGrow_def)

lemma facesGrowD: "facesGrow hv hv' \<Longrightarrow> hasFace hv r \<Longrightarrow> hasFace hv' r"
  by (simp add: facesGrow_def)

lemma set_face_J:
  assumes "set_face hv v (Some f) = Some hv'" "linksOK hv"
  shows "linksOK hv' \<and> facesGrow hv hv' \<and> hasFace hv' (Some v)"
  using assms
  by (auto simp: set_face_def linksOK_def facesGrow_def hasFace_def nth_list_update split: if_splits option.splits)

lemma addVertexToFace_J:
  assumes "addVertexToFace h vertex face = Some h'" "faceRefs h"
  shows "faceRefs h' \<and> facesGrow (heap_v h) (heap_v h')"
proof -
  from assms(1) obtain hv1 f l hv2 hf where
    s1: "set_face (heap_v h) vertex (Some face) = Some hv1" and
    f: "lookup (heap_f h) face = Some f" and
    s2: "(case f_outside f of None \<Rightarrow> append (assigned h, hv1) vertex
          | Some out \<Rightarrow> insertBefore (assigned h, hv1) out vertex) = Some (l, hv2)" and
    s3: "set_outside (heap_f h) face (Some vertex) = Some hf" and
    h': "h' = h\<lparr> assigned := l, heap_v := hv2, heap_f := hf \<rparr>"
    by (auto simp: addVertexToFace_def split: bind_splits)
  from assms(2) have J: "linksOK (heap_v h)" "listOK (heap_v h) (assigned h)"
    "listOK (heap_v h) (unassigned h)" "outsideOK (heap_v h) (heap_f h)" by (simp_all add: faceRefs_def)
  from set_face_J[OF s1 J(1)] have 1: "linksOK hv1" "facesGrow (heap_v h) hv1" "hasFace hv1 (Some vertex)" by simp_all
  have o1: "hasFace hv1 (f_outside f)" using lookup_outside[OF J(4) f] 1(2) by (rule facesGrowD[rotated])
  have l1: "listOK hv1 (assigned h)" using J(2) 1(2) by (auto simp: listOK_def dest: facesGrowD)
  have 2: "linksOK hv2 \<and> facesKept hv1 hv2 \<and> listOK hv2 l"
    using s2 1 o1 l1 by (auto split: option.splits dest: append_J insertBefore_J)
  then have g: "facesGrow (heap_v h) hv2" using 1(2) by (blast intro: facesGrow_trans facesKept_Grow)
  have "outsideOK hv2 (heap_f h)" using J(4) g by (auto simp: outsideOK_def dest: facesGrowD)
  moreover have "hasFace hv2 (Some vertex)" using 1(3) 2 by (blast intro: hasFace_fwd)
  ultimately have "outsideOK hv2 hf" using s3 by (blast intro: set_outside_J)
  moreover have "listOK hv2 (unassigned h)" using J(3) g by (auto simp: listOK_def dest: facesGrowD)
  ultimately show ?thesis using 2 g h' by (simp add: faceRefs_def)
qed

lemma faceRefsD:
  "faceRefs h \<Longrightarrow> linksOK (heap_v h)" "faceRefs h \<Longrightarrow> listOK (heap_v h) (assigned h)"
  "faceRefs h \<Longrightarrow> listOK (heap_v h) (unassigned h)" "faceRefs h \<Longrightarrow> outsideOK (heap_v h) (heap_f h)"
  by (simp_all add: faceRefs_def)

lemma fixOutsideLink_J:
  assumes "fixOutsideLink h vertex face = Some hf" "linksOK (heap_v h)" "outsideOK (heap_v h) (heap_f h)"
  shows "outsideOK (heap_v h) hf"
  using assms
  by (auto simp: fixOutsideLink_def split: bind_splits if_splits option.splits
           dest!: lookup_links[OF assms(2)] intro: set_outside_J)

lemma removeVertexFromFace_J:
  assumes "removeVertexFromFace h vertex face = Some h'" "faceRefs h"
  shows "faceRefs h' \<and> facesGrow (heap_v h) (heap_v h')"
proof -
  note J = faceRefsD[OF assms(2)]
  from assms(1) obtain hf l hv where
    s1: "fixOutsideLink h vertex face = Some hf" and
    s2: "remove (assigned h, heap_v h) vertex = Some (l, hv)" and
    h': "h' = h\<lparr> assigned := l, heap_v := hv, heap_f := hf \<rparr>"
    by (auto simp: removeVertexFromFace_def split: bind_splits)
  note 1 = fixOutsideLink_J[OF s1 J(1,4)]
  from remove_J[OF s2 J(1,2)] have 2: "linksOK hv" "facesKept (heap_v h) hv" "listOK hv l" by simp_all
  show ?thesis using 1 2 J(3) h'
    by (auto simp: faceRefs_def intro: outsideOK_fwd listOK_fwd facesKept_Grow)
qed

lemma runEnd_hasFace:
  "runEnd n hv face v = Some e \<Longrightarrow> linksOK hv \<Longrightarrow> hasFace hv (Some v) \<Longrightarrow> hasFace hv (Some e)"
proof (induction n arbitrary: v)
  case 0 then show ?case by simp
next
  case (Suc n)
  from Suc.prems(1) obtain node where node: "lookup hv v = Some node"
    and c: "(case v_next node of None \<Rightarrow> Some v
             | Some nx \<Rightarrow> do { nv \<leftarrow> lookup hv nx;
                   if v_face nv = Some face then runEnd n hv face nx else Some v }) = Some e"
    by (auto split: bind_splits)
  note lookup_links[OF Suc.prems(2) node]
  then show ?case using c Suc.IH Suc.prems(2,3) by (auto split: option.splits bind_splits if_splits)
qed

lemma removeAllVerticesFromFace_J:
  assumes "removeAllVerticesFromFace fuel h face = Some (r, h')" "faceRefs h"
  shows "faceRefs h' \<and> facesGrow (heap_v h) (heap_v h') \<and> hasFace (heap_v h') r"
proof -
  note J = faceRefsD[OF assms(2)]
  from assms(1) obtain f where f: "lookup (heap_f h) face = Some f"
    by (auto simp: removeAllVerticesFromFace_def split: bind_splits)
  show ?thesis
  proof (cases "f_outside f")
    case None
    then show ?thesis using assms f by (auto simp: removeAllVerticesFromFace_def)
  next
    case (Some start)
    with assms(1) f obtain en l hv1 hv2 hv3 hf where
      e: "runEnd fuel (heap_v h) face start = Some en" and
      s1: "removeSubList (assigned h, heap_v h) start en = Some (l, hv1)" and
      s2: "set_next hv1 en None = Some hv2" and
      s3: "set_prev hv2 start None = Some hv3" and
      s4: "set_outside (heap_f h) face None = Some hf" and
      h': "h' = h\<lparr> assigned := l, heap_v := hv3, heap_f := hf \<rparr>" and r: "r = Some start"
      by (auto simp: removeAllVerticesFromFace_def split: bind_splits)
    have st: "hasFace (heap_v h) (Some start)" using lookup_outside[OF J(4) f] Some by simp
    from removeSubList_J[OF s1 J(1,2)] have 1: "linksOK hv1" "facesKept (heap_v h) hv1" "listOK hv1 l" by simp_all
    from set_next_J[OF s2 1(1)] have 2: "linksOK hv2" "facesKept hv1 hv2" by simp_all
    from set_prev_J[OF s3 2(1)] have 3: "linksOK hv3" "facesKept hv2 hv3" by simp_all
    have k: "facesKept (heap_v h) hv3" using 1 2 3 by (blast intro: facesKept_trans)
    have k1: "facesKept hv1 hv3" using 2 3 by (blast intro: facesKept_trans)
    have "outsideOK (heap_v h) hf" using s4 J(4) by (auto intro: set_outside_J)
    then show ?thesis using 1 3 k k1 J(3) st h' r
      by (auto simp: faceRefs_def intro: outsideOK_fwd listOK_fwd facesKept_Grow hasFace_fwd)
  qed
qed

lemma unassigned_append_J:
  assumes "append (unassigned h, heap_v h) vertex = Some (l, hv)" "faceRefs h" "hasFace (heap_v h) (Some vertex)"
  shows "faceRefs (h\<lparr> unassigned := l, heap_v := hv \<rparr>) \<and> facesGrow (heap_v h) hv"
proof -
  note J = faceRefsD[OF assms(2)]
  from append_J[OF assms(1) J(1,3) assms(3)] have 1: "linksOK hv" "facesKept (heap_v h) hv" "listOK hv l" by simp_all
  then show ?thesis using J by (auto simp: faceRefs_def intro: outsideOK_fwd listOK_fwd facesKept_Grow)
qed

lemma unassigned_appendChain_J:
  assumes "appendChain fuel (unassigned h, heap_v h) vertex = Some (l, hv)" "faceRefs h" "hasFace (heap_v h) (Some vertex)"
  shows "faceRefs (h\<lparr> unassigned := l, heap_v := hv \<rparr>) \<and> facesGrow (heap_v h) hv"
proof -
  note J = faceRefsD[OF assms(2)]
  from appendChain_J[OF assms(1) J(1,3) assms(3)] have 1: "linksOK hv" "facesKept (heap_v h) hv" "listOK hv l" by simp_all
  then show ?thesis using J by (auto simp: faceRefs_def intro: outsideOK_fwd listOK_fwd facesKept_Grow)
qed

lemma absorbLoop_J:
  "absorbLoop n h af vertex = Some h' \<Longrightarrow> faceRefs h \<Longrightarrow> hasFace (heap_v h) (Some vertex)
   \<Longrightarrow> faceRefs h' \<and> facesGrow (heap_v h) (heap_v h')"
proof (induction n arbitrary: h vertex)
  case 0 then show ?case by simp
next
  case (Suc n)
  from Suc.prems(1) obtain v a h1 where
    v: "lookup (heap_v h) vertex = Some v" and a: "lookup (heap_f h) af = Some a" and
    s1: "(if distanceToPoint a (v_point v) > tolerance h then addVertexToFace h vertex af
          else do { (l, hv) \<leftarrow> append (unassigned h, heap_v h) vertex;
                    Some (h\<lparr> unassigned := l, heap_v := hv \<rparr>) }) = Some h1" and
    s2: "(case v_next v of None \<Rightarrow> Some h1 | Some nv \<Rightarrow> absorbLoop n h1 af nv) = Some h'"
    by (auto simp: Let_def split: bind_splits)
  have 1: "faceRefs h1 \<and> facesGrow (heap_v h) (heap_v h1)"
    using s1 Suc.prems(2,3)
    by (auto split: if_splits bind_splits dest: addVertexToFace_J unassigned_append_J)
  have nx: "hasFace (heap_v h1) (v_next v)"
    using lookup_links[OF faceRefsD(1)[OF Suc.prems(2)] v] 1 by (auto dest: facesGrowD)
  show ?case
  proof (cases "v_next v")
    case None then show ?thesis using s2 1 by simp
  next
    case (Some nv)
    then have "absorbLoop n h1 af nv = Some h'" using s2 by simp
    from Suc.IH[OF this] 1 nx Some show ?thesis by (auto intro: facesGrow_trans)
  qed
qed

lemma deleteFaceVertices_J:
  assumes "deleteFaceVertices fuel h face af = Some h'" "faceRefs h"
  shows "faceRefs h' \<and> facesGrow (heap_v h) (heap_v h')"
proof -
  from assms(1) obtain fv h1 where
    s1: "removeAllVerticesFromFace fuel h face = Some (fv, h1)" and
    s2: "(case fv of None \<Rightarrow> Some h1
          | Some v \<Rightarrow> (case af of
               None \<Rightarrow> do { (l, hv) \<leftarrow> appendChain fuel (unassigned h1, heap_v h1) v;
                            Some (h1\<lparr> unassigned := l, heap_v := hv \<rparr>) }
             | Some a \<Rightarrow> absorbLoop fuel h1 a v)) = Some h'"
    by (auto simp: deleteFaceVertices_def split: bind_splits)
  from removeAllVerticesFromFace_J[OF s1 assms(2)]
  have 1: "faceRefs h1" "facesGrow (heap_v h) (heap_v h1)" "hasFace (heap_v h1) fv" by simp_all
  have "faceRefs h' \<and> facesGrow (heap_v h1) (heap_v h')"
    using s2 1
    by (auto split: option.splits bind_splits dest: unassigned_appendChain_J absorbLoop_J)
  then show ?thesis using 1(2) by (auto intro: facesGrow_trans)
qed

lemma resolveLoop_J:
  "resolveLoop n h nfs vertex = Some h' \<Longrightarrow> faceRefs h \<Longrightarrow> hasFace (heap_v h) (Some vertex)
   \<Longrightarrow> faceRefs h' \<and> facesGrow (heap_v h) (heap_v h')"
proof (induction n arbitrary: h vertex)
  case 0 then show ?case by simp
next
  case (Suc n)
  from Suc.prems(1) obtain v md mf h1 where
    v: "lookup (heap_v h) vertex = Some v" and
    s1: "(case mf of None \<Rightarrow> Some h | Some m \<Rightarrow> addVertexToFace h vertex m) = Some h1" and
    s2: "(case v_next v of None \<Rightarrow> Some h1 | Some nv \<Rightarrow> resolveLoop n h1 nfs nv) = Some h'"
    by (auto simp: Let_def split: bind_splits)
  have 1: "faceRefs h1 \<and> facesGrow (heap_v h) (heap_v h1)"
    using s1 Suc.prems(2,3) by (auto split: option.splits dest: addVertexToFace_J)
  have nx: "hasFace (heap_v h1) (v_next v)"
    using lookup_links[OF faceRefsD(1)[OF Suc.prems(2)] v] 1 by (auto dest: facesGrowD)
  show ?case
  proof (cases "v_next v")
    case None then show ?thesis using s2 1 by simp
  next
    case (Some nv)
    then have "resolveLoop n h1 nfs nv = Some h'" using s2 by simp
    from Suc.IH[OF this] 1 nx Some show ?thesis by (auto intro: facesGrow_trans)
  qed
qed

lemma resolveUnassignedPoints_J:
  assumes "resolveUnassignedPoints fuel h nfs = Some h'" "faceRefs h"
  shows "faceRefs h' \<and> facesGrow (heap_v h) (heap_v h')"
  using assms faceRefsD(3)[OF assms(2)]
  by (auto simp: resolveUnassignedPoints_def first_def listOK_def split: if_splits bind_splits
           dest: resolveLoop_J)

lemma faceRefs_upd [simp]:
  "faceRefs (h\<lparr> heap_e := he \<rparr>) = faceRefs h"
  "faceRefs (h\<lparr> faces := fs \<rparr>) = faceRefs h"
  "faceRefs (h\<lparr> newFaces := fs \<rparr>) = faceRefs h"
  "faceRefs (h\<lparr> tolerance := t \<rparr>) = faceRefs h"
  "faceRefs (h\<lparr> vertices := vs \<rparr>) = faceRefs h"
  by (simp_all add: faceRefs_def)

lemma compute_J:
  "compute h f = Some h' \<Longrightarrow> faceRefs h \<Longrightarrow> faceRefs h' \<and> heap_v h' = heap_v h"
  by (auto simp: compute_def faceRefs_def outsideOK_def lookup_def Let_def nth_list_update
           split: bind_splits if_splits)

lemma create_J:
  assumes "create h a b c = Some (f, h')" "faceRefs h"
  shows "faceRefs h' \<and> heap_v h' = heap_v h"
proof -
  let ?h1 = "h\<lparr> heap_e := heap_e h @ [
       newHalfEdge a (length (heap_f h))\<lparr> e_next := Some (length (heap_e h) + 1), e_prev := Some (length (heap_e h) + 2) \<rparr>,
       newHalfEdge b (length (heap_f h))\<lparr> e_next := Some (length (heap_e h) + 2), e_prev := Some (length (heap_e h)) \<rparr>,
       newHalfEdge c (length (heap_f h))\<lparr> e_prev := Some (length (heap_e h) + 1), e_next := Some (length (heap_e h)) \<rparr>],
     heap_f := heap_f h @ [newFace\<lparr> f_edge := Some (length (heap_e h)) \<rparr>] \<rparr>"
  from assms(1) have c: "compute ?h1 (length (heap_f h)) = Some h'"
    by (auto simp: create_def Let_def split: bind_splits)
  have "faceRefs ?h1" using assms(2)
    by (auto simp: faceRefs_def outsideOK_def nth_append newFace_def)
  from compute_J[OF c this] show ?thesis by simp
qed

lemma twins_J:
  "twinsOutward fs h i = Some h' \<Longrightarrow> faceRefs h \<Longrightarrow> faceRefs h'"
  "twinsInward fs h i = Some h' \<Longrightarrow> faceRefs h \<Longrightarrow> faceRefs h'"
  by (auto simp: twinsOutward_def twinsInward_def Let_def split: bind_splits)

lemma forEach_inv:
  assumes "forEach body s xs = Some s'" "P s" "\<And>s x s'. x \<in> set xs \<Longrightarrow> P s \<Longrightarrow> body s x = Some s' \<Longrightarrow> P s'"
  shows "P s'"
  using assms
proof (induction xs arbitrary: s)
  case Nil then show ?case by simp
next
  case (Cons x xs)
  from Cons.prems(1) obtain s1 where 1: "body s x = Some s1" and 2: "forEach body s1 xs = Some s'"
    by (auto split: bind_splits)
  have "P s1" using Cons.prems(2,3) 1 by auto
  then show ?case using Cons.IH[OF 2] Cons.prems(3) by auto
qed

lemma assignInitial_J:
  "assignInitial v0 v1 v2 v3 h vertex = Some h' \<Longrightarrow> faceRefs h \<Longrightarrow> faceRefs h'"
  by (auto simp: assignInitial_def split: if_splits bind_splits option.splits dest: addVertexToFace_J)

lemma computeExtremes_J:
  "computeExtremes h = Some (ex, h') \<Longrightarrow> faceRefs h \<Longrightarrow> faceRefs h'"
  by (auto simp: computeExtremes_def Let_def split: list.splits bind_splits)

lemma initialFaces_J:
  assumes "initialFaces h v0 v1 v2 v3 below = Some (fs, h')" "faceRefs h"
  shows "faceRefs h' \<and> heap_v h' = heap_v h"
proof -
  have tw: "faceRefs h' \<and> heap_v h' = heap_v h" 
    if "forEach (twinsOutward fs) h [0, 1, 2] = Some h'" "faceRefs h" for fs h h'
    by (rule forEach_inv[OF that(1), where P="\<lambda>s. faceRefs s \<and> heap_v s = heap_v h"])
       (auto simp: that(2) twinsOutward_def Let_def split: bind_splits)
  have tw': "faceRefs h' \<and> heap_v h' = heap_v h" 
    if "forEach (twinsInward fs) h [0, 1, 2] = Some h'" "faceRefs h" for fs h h'
    by (rule forEach_inv[OF that(1), where P="\<lambda>s. faceRefs s \<and> heap_v s = heap_v h"])
       (auto simp: that(2) twinsInward_def Let_def split: bind_splits)
  show ?thesis
  proof (cases below)
    case True
    with assms(1) obtain f0 h0 f1 h1 f2 h2 f3 h3 where
      c: "create h (Some v0) (Some v1) (Some v2) = Some (f0, h0)"
         "create h0 (Some v3) (Some v1) (Some v0) = Some (f1, h1)"
         "create h1 (Some v3) (Some v2) (Some v1) = Some (f2, h2)"
         "create h2 (Some v3) (Some v0) (Some v2) = Some (f3, h3)" and
      t: "forEach (twinsOutward [f0, f1, f2, f3]) h3 [0, 1, 2] = Some h'"
      by (auto simp: initialFaces_def Let_def split: bind_splits)
    from create_J[OF c(1) assms(2)] have 0: "faceRefs h0" "heap_v h0 = heap_v h" by simp_all
    from create_J[OF c(2) 0(1)] 0 have 1: "faceRefs h1" "heap_v h1 = heap_v h" by simp_all
    from create_J[OF c(3) 1(1)] 1 have 2: "faceRefs h2" "heap_v h2 = heap_v h" by simp_all
    from create_J[OF c(4) 2(1)] 2 have 3: "faceRefs h3" "heap_v h3 = heap_v h" by simp_all
    from tw[OF t 3(1)] 3 show ?thesis by simp
  next
    case False
    with assms(1) obtain f0 h0 f1 h1 f2 h2 f3 h3 where
      c: "create h (Some v0) (Some v2) (Some v1) = Some (f0, h0)"
         "create h0 (Some v3) (Some v0) (Some v1) = Some (f1, h1)"
         "create h1 (Some v3) (Some v1) (Some v2) = Some (f2, h2)"
         "create h2 (Some v3) (Some v2) (Some v0) = Some (f3, h3)" and
      t: "forEach (twinsInward [f0, f1, f2, f3]) h3 [0, 1, 2] = Some h'"
      by (auto simp: initialFaces_def Let_def split: bind_splits)
    from create_J[OF c(1) assms(2)] have 0: "faceRefs h0" "heap_v h0 = heap_v h" by simp_all
    from create_J[OF c(2) 0(1)] 0 have 1: "faceRefs h1" "heap_v h1 = heap_v h" by simp_all
    from create_J[OF c(3) 1(1)] 1 have 2: "faceRefs h2" "heap_v h2 = heap_v h" by simp_all
    from create_J[OF c(4) 2(1)] 2 have 3: "faceRefs h3" "heap_v h3 = heap_v h" by simp_all
    from tw'[OF t 3(1)] 3 show ?thesis by simp
  qed
qed

lemma computeInitialHull_J:
  assumes "computeInitialHull h = Some h'" "faceRefs h"
  shows "faceRefs h'"
proof -
  from assms(1) obtain ex h1 v0 v1 v2 v3 below fs h2 where
    e: "computeExtremes h = Some (ex, h1)" and
    f: "initialFaces h1 v0 v1 v2 v3 below = Some (fs, h2)" and
    a: "forEach (assignInitial v0 v1 v2 v3) (h2\<lparr> faces := faces h2 @ fs \<rparr>) (vertices h2) = Some h'"
    by (auto simp: computeInitialHull_def Let_def split: bind_splits)
  from computeExtremes_J[OF e assms(2)] have 1: "faceRefs h1" .
  from initialFaces_J[OF f 1] have 2: "faceRefs (h2\<lparr> faces := faces h2 @ fs \<rparr>)" by simp
  show ?thesis
    using 2 by (intro forEach_inv[OF a, where P=faceRefs]) (auto dest: assignInitial_J)
qed

lemma computeHorizon_J:
  "(computeHorizon n h eye ce face hz = Some (h', hz') \<longrightarrow> faceRefs h \<longrightarrow> faceRefs h') \<and>
   (horizonLoop n h eye c edge hz = Some (h', hz') \<longrightarrow> faceRefs h \<longrightarrow> faceRefs h')"
proof (induction n arbitrary: h eye ce face hz c edge h' hz')
  case 0 then show ?case by simp
next
  case (Suc n)
  have A: "faceRefs h'" if r: "computeHorizon (Suc n) h eye ce face hz = Some (h', hz')" and J: "faceRefs h"
  proof -
    from r obtain h1 hf ed cr where
      d: "deleteFaceVertices (Suc n) h face None = Some h1" and
      m: "set_mark (heap_f h1) face Deleted = Some hf" and
      l: "horizonLoop n (h1\<lparr> heap_f := hf \<rparr>) eye cr ed hz = Some (h', hz')"
      by (auto simp: Let_def split: bind_splits)
    from deleteFaceVertices_J[OF d J] have 1: "faceRefs h1" by simp
    have "faceRefs (h1\<lparr> heap_f := hf \<rparr>)" using 1 m by (auto simp: faceRefs_def dest: set_mark_J)
    with Suc.IH l show ?thesis by blast
  qed
  have B: "faceRefs h'" if r: "horizonLoop (Suc n) h eye c edge hz = Some (h', hz')" and J: "faceRefs h"
  proof -
    from r obtain h1 hz1 where
      s1: "h1 = h \<or> (\<exists>te opf. computeHorizon n h eye (Some te) opf hz = Some (h1, hz1))" and
      s2: "(h', hz') = (h1, hz1) \<or> (\<exists>nx hzz. horizonLoop n h1 eye c nx hzz = Some (h', hz'))"
      by (auto simp: Let_def split: bind_splits if_splits; blast)
    from s1 Suc.IH J have "faceRefs h1" by blast
    with s2 Suc.IH show ?thesis by blast
  qed
  from A B show ?case by blast
qed

lemma addAdjoiningFace_J:
  assumes "addAdjoiningFace h eyeVertex horizonEdge = Some (e, h')" "faceRefs h"
  shows "faceRefs h' \<and> heap_v h' = heap_v h"
proof -
  from assms(1) obtain a b c f h1 hes where
    c: "create h a b c = Some (f, h1)" and
    h': "h' = h1\<lparr> faces := faces h1 @ [f], heap_e := hes \<rparr>"
    by (auto simp: addAdjoiningFace_def Let_def split: bind_splits)
  from create_J[OF c assms(2)] h' show ?thesis by simp
qed

lemma joinSideEdge_J:
  "joinSideEdge h fse pse se = Some (r, h') \<Longrightarrow> faceRefs h \<Longrightarrow> faceRefs h' \<and> heap_v h' = heap_v h"
  by (auto simp: joinSideEdge_def split: option.splits bind_splits)

lemma addNewFacesLoop_J:
  "addNewFacesLoop h eyeVertex hs acc = Some (h', acc') \<Longrightarrow> faceRefs h
   \<Longrightarrow> faceRefs h' \<and> heap_v h' = heap_v h"
proof (induction hs arbitrary: h acc)
  case Nil then show ?case by simp
next
  case (Cons x hs)
  obtain fse pse where acc: "acc = (fse, pse)" by (cases acc)
  from Cons.prems(1) acc obtain se h1 fse' h2 and e :: HalfEdge where
    a: "addAdjoiningFace h eyeVertex x = Some (se, h1)" and
    j: "joinSideEdge h1 fse pse se = Some (fse', h2)" and
    l: "addNewFacesLoop (h2\<lparr> newFaces := newFaces h2 @ [e_face e] \<rparr>) eyeVertex hs (fse', Some se) = Some (h', acc')"
    by (auto simp: Let_def split: bind_splits intro: that)
  from addAdjoiningFace_J[OF a Cons.prems(2)] have 1: "faceRefs h1" "heap_v h1 = heap_v h" by simp_all
  from joinSideEdge_J[OF j 1(1)] 1 have 2: "faceRefs h2" "heap_v h2 = heap_v h" by simp_all
  from Cons.IH[OF l] 2 show ?case by simp
qed

lemma addNewFaces_J:
  assumes "addNewFaces h eyeVertex horizon = Some h'" "faceRefs h"
  shows "faceRefs h' \<and> heap_v h' = heap_v h"
proof -
  from assms(1) obtain h1 acc hes where
    l: "addNewFacesLoop (h\<lparr> newFaces := [] \<rparr>) eyeVertex horizon (None, None) = Some (h1, acc)" and
    h': "h' = h1\<lparr> heap_e := hes \<rparr>"
    by (auto simp: addNewFaces_def split: bind_splits)
  from addNewFacesLoop_J[OF l] assms(2) h' show ?thesis by simp
qed

lemma faceRefs_clear_unassigned: "faceRefs h \<Longrightarrow> faceRefs (h\<lparr> unassigned := clear (unassigned h) \<rparr>)"
  by (simp add: faceRefs_def listOK_def clear_def)

lemma addVertexToHull_J:
  assumes "addVertexToHull fuel h eyeVertex = Some h'" "faceRefs h"
  shows "faceRefs h'"
proof -
  from assms(1) obtain face h1 face' h2 horizon h3 and ev :: VertexNode where
    r: "removeVertexFromFace (h\<lparr> unassigned := clear (unassigned h) \<rparr>) eyeVertex face = Some h1" and
    c: "computeHorizon fuel h1 (v_point ev) None face' [] = Some (h2, horizon)" and
    a: "addNewFaces h2 eyeVertex horizon = Some h3" and
    u: "resolveUnassignedPoints fuel h3 (newFaces h3) = Some h'"
    by (auto simp: addVertexToHull_def Let_def split: bind_splits intro: that)
  from removeVertexFromFace_J[OF r faceRefs_clear_unassigned[OF assms(2)]] have 1: "faceRefs h1" by simp
  from computeHorizon_J c 1 have 2: "faceRefs h2" by blast
  from addNewFaces_J[OF a 2] have 3: "faceRefs h3" by simp
  from resolveUnassignedPoints_J[OF u 3] show ?thesis by simp
qed

lemma reindexFaces_J: "reindexFaces h = Some h' \<Longrightarrow> faceRefs h \<Longrightarrow> faceRefs h'"
  by (auto simp: reindexFaces_def split: bind_splits)

lemma cleanup_J: "faceRefs h \<Longrightarrow> faceRefs (cleanup h)"
  by (simp add: cleanup_def faceRefs_def listOK_def clear_def)

lemma hasFace_append: "hasFace hv r \<Longrightarrow> hasFace (hv @ xs) r"
  by (cases r) (simp_all add: hasFace_def nth_append)

lemma linksOK_push: "linksOK hv \<Longrightarrow> linksOK (hv @ [newVertexNode p])"
  unfolding linksOK_def
proof (intro allI impI)
  fix v assume a: "\<forall>v<length hv. hasFace hv (v_prev (hv ! v)) \<and> hasFace hv (v_next (hv ! v))"
    and v: "v < length (hv @ [newVertexNode p])"
  show "hasFace (hv @ [newVertexNode p]) (v_prev ((hv @ [newVertexNode p]) ! v)) \<and>
        hasFace (hv @ [newVertexNode p]) (v_next ((hv @ [newVertexNode p]) ! v))"
  proof (cases "v < length hv")
    case True
    with a show ?thesis by (simp add: nth_append hasFace_append)
  next
    case False
    with v have "v = length hv" by simp
    then show ?thesis by (simp add: newVertexNode_def)
  qed
qed

lemma pushVertex_J: "faceRefs h \<Longrightarrow> faceRefs (pushVertex h p)"
  by (simp add: pushVertex_def faceRefs_def listOK_def outsideOK_def linksOK_push hasFace_append)

lemma pushVertices_J: "faceRefs h \<Longrightarrow> faceRefs (foldl pushVertex h ps)"
  by (induction ps arbitrary: h) (simp_all add: pushVertex_J)

lemma makeEmpty_J: "faceRefs h \<Longrightarrow> faceRefs (makeEmpty h)"
  by (simp add: makeEmpty_def)

lemma newConvexHull_J: "faceRefs newConvexHull"
  by (simp add: newConvexHull_def faceRefs_def linksOK_def listOK_def outsideOK_def emptyList_def)

lemma reachable_J: "reachable h \<Longrightarrow> faceRefs h"
proof (induction rule: reachable.induct)
  case new show ?case by (rule newConvexHull_J)
next
  case (initialHull h0 points h)
  then show ?case by (blast intro: computeInitialHull_J pushVertices_J makeEmpty_J)
next
  case (addVertex h fuel v h')
  then show ?case by (blast intro: addVertexToHull_J)
next
  case (reindex h h')
  then show ?case by (blast intro: reindexFaces_J)
next
  case (cleanup h)
  then show ?case by (blast intro: cleanup_J)
qed

lemma resides_hasFace:
  "resides hv r v \<Longrightarrow> linksOK hv \<Longrightarrow> hasFace hv r \<Longrightarrow> hasFace hv (Some v)"
  by (induction rule: resides.induct) (auto simp: linksOK_def)

subsection \<open>What the steps of the construction leave alone\<close>

lemma nodesKept_refl [simp]: "nodesKept a a" by (simp add: nodesKept_def)

lemma nodesKept_trans: "nodesKept a b \<Longrightarrow> nodesKept b c \<Longrightarrow> nodesKept a c" by (simp add: nodesKept_def)

lemma pointsKept_refl [simp]: "pointsKept a a" by (simp add: pointsKept_def)

lemma pointsKept_trans: "pointsKept a b \<Longrightarrow> pointsKept b c \<Longrightarrow> pointsKept a c" by (simp add: pointsKept_def)

lemma nodesKept_points: "nodesKept a b \<Longrightarrow> pointsKept a b" by (simp add: nodesKept_def pointsKept_def)

lemma edgesKept_refl [simp]: "edgesKept a a" by (simp add: edgesKept_def)

lemma edgesKept_trans: "edgesKept a b \<Longrightarrow> edgesKept b c \<Longrightarrow> edgesKept a c" by (auto simp: edgesKept_def)

lemma planesKept_refl [simp]: "planesKept a a" by (simp add: planesKept_def)

lemma planesKept_trans: "planesKept a b \<Longrightarrow> planesKept b c \<Longrightarrow> planesKept a c" by (auto simp: planesKept_def)

lemma frame_refl [simp]: "frame a a" by (simp add: frame_def)

lemma frame_trans: "frame a b \<Longrightarrow> frame b c \<Longrightarrow> frame a c"
  by (auto simp: frame_def intro: pointsKept_trans edgesKept_trans planesKept_trans)

lemma set_next_kept: "set_next hv v r = Some hv' \<Longrightarrow> nodesKept hv hv'"
  by (auto simp: set_next_def nodesKept_def nth_list_update split: if_splits)

lemma set_prev_kept: "set_prev hv v r = Some hv' \<Longrightarrow> nodesKept hv hv'"
  by (auto simp: set_prev_def nodesKept_def nth_list_update split: if_splits)

lemma remove_kept: "remove (l, hv) vertex = Some (l', hv') \<Longrightarrow> nodesKept hv hv'"
  by (auto simp: remove_def split: bind_splits option.splits
           dest!: set_next_kept set_prev_kept; simp add: nodesKept_def)

lemma removeSubList_kept: "removeSubList (l, hv) a b = Some (l', hv') \<Longrightarrow> nodesKept hv hv'"
  by (auto simp: removeSubList_def split: bind_splits option.splits
           dest!: set_next_kept set_prev_kept; simp add: nodesKept_def)

lemma append_kept: "append (l, hv) vertex = Some (l', hv') \<Longrightarrow> nodesKept hv hv'"
  by (auto simp: append_def split: bind_splits option.splits
           dest!: set_next_kept set_prev_kept; simp add: nodesKept_def)

lemma insertBefore_kept: "insertBefore (l, hv) t vertex = Some (l', hv') \<Longrightarrow> nodesKept hv hv'"
  by (auto simp: insertBefore_def split: bind_splits option.splits
           dest!: set_next_kept set_prev_kept; simp add: nodesKept_def)

lemma appendChain_kept: "appendChain fuel (l, hv) vertex = Some (l', hv') \<Longrightarrow> nodesKept hv hv'"
  by (auto simp: appendChain_def split: bind_splits option.splits
           dest!: set_next_kept set_prev_kept; simp add: nodesKept_def)

lemma set_outside_planes: "set_outside hf f r = Some hf' \<Longrightarrow> planesKept hf hf'"
  by (auto simp: set_outside_def planesKept_def nth_list_update split: if_splits)

lemma set_mark_planes: "set_mark hf f r = Some hf' \<Longrightarrow> planesKept hf hf'"
  by (auto simp: set_mark_def planesKept_def nth_list_update split: if_splits)

lemma setTwin_edges: "setTwin he a b = Some he' \<Longrightarrow> edgesKept he he'"
  by (auto simp: setTwin_def edgesKept_def Let_def nth_list_update split: option.splits if_splits)

lemma edgesKeptD:
  assumes "edgesKept he he'" "e < length he"
  shows "e_next (he' ! e) = e_next (he ! e)" "e_prev (he' ! e) = e_prev (he ! e)"
        "e_face (he' ! e) = e_face (he ! e)" "e_vertex (he' ! e) = e_vertex (he ! e)"
        "e < length he'"
proof -
  from assms have eq: "(he' ! e)\<lparr> e_twin := None \<rparr> = (he ! e)\<lparr> e_twin := None \<rparr>"
    and l: "e < length he'" by (auto simp: edgesKept_def)
  from arg_cong[OF eq, of e_next] show "e_next (he' ! e) = e_next (he ! e)" by simp
  from arg_cong[OF eq, of e_prev] show "e_prev (he' ! e) = e_prev (he ! e)" by simp
  from arg_cong[OF eq, of e_face] show "e_face (he' ! e) = e_face (he ! e)" by simp
  from arg_cong[OF eq, of e_vertex] show "e_vertex (he' ! e) = e_vertex (he ! e)" by simp
  from l show "e < length he'" .
qed

lemma planesKeptD:
  assumes "planesKept hf hf'" "f < length hf"
  shows "f_normal (hf' ! f) = f_normal (hf ! f)" "f_constant (hf' ! f) = f_constant (hf ! f)"
        "f_edge (hf' ! f) = f_edge (hf ! f)" "f < length hf'"
        "distanceToPoint (hf' ! f) p = distanceToPoint (hf ! f) p"
proof -
  from assms have eq: "(hf' ! f)\<lparr> f_outside := None, f_mark := Visible \<rparr>
                     = (hf ! f)\<lparr> f_outside := None, f_mark := Visible \<rparr>"
    and l: "f < length hf'" by (auto simp: planesKept_def)
  from arg_cong[OF eq, of f_normal] show n: "f_normal (hf' ! f) = f_normal (hf ! f)" by simp
  from arg_cong[OF eq, of f_constant] show c: "f_constant (hf' ! f) = f_constant (hf ! f)" by simp
  from arg_cong[OF eq, of f_edge] show "f_edge (hf' ! f) = f_edge (hf ! f)" by simp
  from l show "f < length hf'" .
  from n c show "distanceToPoint (hf' ! f) p = distanceToPoint (hf ! f) p" by (simp add: distanceToPoint_def)
qed

lemma steady_refl [simp]: "steady h h" by (simp add: steady_def)

lemma steady_trans: "steady a b \<Longrightarrow> steady b c \<Longrightarrow> steady a c"
  by (auto simp: steady_def intro: frame_trans)

lemma triangleOK_kept: "edgesKept he he' \<Longrightarrow> triangleOK he f e0 \<Longrightarrow> triangleOK he' f e0"
  unfolding triangleOK_def
  apply (elim exE conjE)
  subgoal for e1 e2
    apply (rule exI[of _ e1], rule exI[of _ e2])
    apply (simp add: edgesKeptD)
    done
  done

lemma cyclesOK_kept:
  assumes "edgesKept (heap_e h) (heap_e h')" "planesKept (heap_f h) (heap_f h')"
    "length (heap_f h') = length (heap_f h)" "cyclesOK h"
  shows "cyclesOK h'"
  unfolding cyclesOK_def
proof (intro allI impI)
  fix f assume "f < length (heap_f h')"
  then have f: "f < length (heap_f h)" using assms(3) by simp
  with assms(4) obtain e0 where e0: "f_edge (heap_f h ! f) = Some e0" "triangleOK (heap_e h) f e0"
    by (auto simp: cyclesOK_def)
  then show "\<exists>e0. f_edge (heap_f h' ! f) = Some e0 \<and> triangleOK (heap_e h') f e0"
    using planesKeptD(3)[OF assms(2) f] triangleOK_kept[OF assms(1)] by auto
qed

lemma outsideInv_kept:
  assumes "frame h h'" "nodesKept (heap_v h) (heap_v h')" "outsideInv h"
  shows "outsideInv h'"
  unfolding outsideInv_def
proof (intro ballI allI impI)
  fix v f assume v: "v \<in> set (vertices h')" "v < length (heap_v h')" "v_face (heap_v h' ! v) = Some f"
  from assms(1) have fr: "tolerance h' = tolerance h" "vertices h' = vertices h"
    "planesKept (heap_f h) (heap_f h')" by (simp_all add: frame_def)
  from assms(2) v have v': "v < length (heap_v h)" "v_face (heap_v h ! v) = Some f"
    "v_point (heap_v h' ! v) = v_point (heap_v h ! v)" by (auto simp: nodesKept_def)
  with assms(3) v(1) fr(2) have o: "f < length (heap_f h)"
    "distanceToPoint (heap_f h ! f) (v_point (heap_v h ! v)) > tolerance h"
    by (auto simp: outsideInv_def)
  show "f < length (heap_f h') \<and> tolerance h' < distanceToPoint (heap_f h' ! f) (v_point (heap_v h' ! v))"
    using o v'(3) fr(1) planesKeptD(4,5)[OF fr(3) o(1)] by simp
qed

lemma quiet_refl [simp]: "quiet h h" by (simp add: quiet_def)

lemma quiet_trans: "quiet a b \<Longrightarrow> quiet b c \<Longrightarrow> quiet a c"
  by (auto simp: quiet_def intro: frame_trans nodesKept_trans)

lemma quiet_nodes: "quiet h h' \<Longrightarrow> nodesKept (heap_v h) (heap_v h')"
  by (simp add: quiet_def)

lemma quiet_steady: "quiet h h' \<Longrightarrow> steady h h'"
  by (auto simp: quiet_def steady_def frame_def intro: outsideInv_kept[unfolded frame_def] cyclesOK_kept)

lemma quietI:
  "tolerance h' = tolerance h \<Longrightarrow> vertices h' = vertices h \<Longrightarrow>
   nodesKept (heap_v h) (heap_v h') \<Longrightarrow> edgesKept (heap_e h) (heap_e h') \<Longrightarrow>
   planesKept (heap_f h) (heap_f h') \<Longrightarrow> length (heap_f h') = length (heap_f h) \<Longrightarrow> quiet h h'"
  by (simp add: quiet_def frame_def nodesKept_points)

lemma set_outside_len: "set_outside hf f r = Some hf' \<Longrightarrow> length hf' = length hf"
  by (auto simp: set_outside_def split: if_splits)

lemma set_mark_len: "set_mark hf f r = Some hf' \<Longrightarrow> length hf' = length hf"
  by (auto simp: set_mark_def split: if_splits)

lemma set_face_effect:
  "set_face hv v r = Some hv' \<Longrightarrow> pointsKept hv hv' \<and> v < length hv \<and> v_face (hv' ! v) = r \<and>
     (\<forall>u < length hv. u \<noteq> v \<longrightarrow> v_face (hv' ! u) = v_face (hv ! u))"
  by (auto simp: set_face_def pointsKept_def nth_list_update split: if_splits)

lemma addVertexToFace_effect:
  assumes "addVertexToFace h vertex face = Some h'"
  shows "tolerance h' = tolerance h \<and> vertices h' = vertices h \<and> heap_e h' = heap_e h \<and>
         faces h' = faces h \<and>
         pointsKept (heap_v h) (heap_v h') \<and> planesKept (heap_f h) (heap_f h') \<and>
         length (heap_f h') = length (heap_f h) \<and> vertex < length (heap_v h) \<and>
         face < length (heap_f h) \<and> v_face (heap_v h' ! vertex) = Some face \<and>
         (\<forall>u < length (heap_v h). u \<noteq> vertex \<longrightarrow> v_face (heap_v h' ! u) = v_face (heap_v h ! u))"
proof -
  from assms obtain hv1 l hv2 hf and f :: Face where
    s1: "set_face (heap_v h) vertex (Some face) = Some hv1" and
    f: "lookup (heap_f h) face = Some f" and
    s2: "(case f_outside f of None \<Rightarrow> append (assigned h, hv1) vertex
          | Some out \<Rightarrow> insertBefore (assigned h, hv1) out vertex) = Some (l, hv2)" and
    s3: "set_outside (heap_f h) face (Some vertex) = Some hf" and
    h': "h' = h\<lparr> assigned := l, heap_v := hv2, heap_f := hf \<rparr>"
    by (auto simp: addVertexToFace_def split: bind_splits)
  note 1 = set_face_effect[OF s1]
  have 2: "nodesKept hv1 hv2" using s2 by (auto split: option.splits dest: append_kept insertBefore_kept)
  have "face < length (heap_f h)" using f by (auto simp: lookup_def split: if_splits)
  then show ?thesis using 1 2 h' set_outside_planes[OF s3] set_outside_len[OF s3]
    by (auto simp: pointsKept_def nodesKept_def)
qed

lemma addVertexToFace_steady:
  assumes "addVertexToFace h vertex face = Some h'"
    and "distanceToPoint (heap_f h ! face) (v_point (heap_v h ! vertex)) > tolerance h"
  shows "steady h h'"
proof -
  note e = addVertexToFace_effect[OF assms(1)]
  from e have fr: "frame h h'" by (simp add: frame_def)
  from e have pk: "planesKept (heap_f h) (heap_f h')" and pt: "pointsKept (heap_v h) (heap_v h')" by simp_all
  have o: "outsideInv h'" if oi: "outsideInv h"
    unfolding outsideInv_def
  proof (intro ballI allI impI)
    fix v f assume v: "v \<in> set (vertices h')" "v < length (heap_v h')" "v_face (heap_v h' ! v) = Some f"
    from pt v(2) have vl: "v < length (heap_v h)" and vp: "v_point (heap_v h' ! v) = v_point (heap_v h ! v)"
      by (auto simp: pointsKept_def)
    have "f < length (heap_f h) \<and> distanceToPoint (heap_f h ! f) (v_point (heap_v h ! v)) > tolerance h"
    proof (cases "v = vertex")
      case True
      with e v(3) have "f = face" by simp
      with True e assms(2) show ?thesis by simp
    next
      case False
      with e vl v(3) have "v_face (heap_v h ! v) = Some f" by simp
      with oi v(1) vl e show ?thesis by (auto simp: outsideInv_def)
    qed
    then show "f < length (heap_f h') \<and> tolerance h' < distanceToPoint (heap_f h' ! f) (v_point (heap_v h' ! v))"
      using planesKeptD(4,5)[OF pk] vp e by simp
  qed
  have c: "cyclesOK h'" if "cyclesOK h"
    using e that by (intro cyclesOK_kept[of h h']) simp_all
  from fr o c show ?thesis by (simp add: steady_def)
qed

lemma fixOutsideLink_planes:
  "fixOutsideLink h vertex face = Some hf \<Longrightarrow> planesKept (heap_f h) hf \<and> length hf = length (heap_f h)"
  by (auto simp: fixOutsideLink_def split: bind_splits if_splits option.splits
           dest: set_outside_planes set_outside_len)

lemma removeVertexFromFace_quiet:
  "removeVertexFromFace h vertex face = Some h' \<Longrightarrow> quiet h h'"
  by (auto simp: removeVertexFromFace_def split: bind_splits
           dest!: fixOutsideLink_planes remove_kept intro!: quietI)

lemma removeAllVerticesFromFace_quiet:
  assumes "removeAllVerticesFromFace fuel h face = Some (r, h')"
  shows "quiet h h'"
proof -
  from assms obtain f :: Face where f: "lookup (heap_f h) face = Some f"
    by (auto simp: removeAllVerticesFromFace_def split: bind_splits)
  show ?thesis
  proof (cases "f_outside f")
    case None
    then show ?thesis using assms f by (auto simp: removeAllVerticesFromFace_def)
  next
    case (Some start)
    with assms f obtain en l hv1 hv2 hv3 hf where
      s1: "removeSubList (assigned h, heap_v h) start en = Some (l, hv1)" and
      s2: "set_next hv1 en None = Some hv2" and
      s3: "set_prev hv2 start None = Some hv3" and
      s4: "set_outside (heap_f h) face None = Some hf" and
      h': "h' = h\<lparr> assigned := l, heap_v := hv3, heap_f := hf \<rparr>"
      by (auto simp: removeAllVerticesFromFace_def split: bind_splits)
    have "nodesKept (heap_v h) hv3"
      using removeSubList_kept[OF s1] set_next_kept[OF s2] set_prev_kept[OF s3]
      by (blast intro: nodesKept_trans)
    then show ?thesis using h' set_outside_planes[OF s4] set_outside_len[OF s4]
      by (auto intro!: quietI)
  qed
qed

lemma absorbLoop_steady:
  "absorbLoop n h af vertex = Some h' \<Longrightarrow> steady h h'"
proof (induction n arbitrary: h vertex)
  case 0 then show ?case by simp
next
  case (Suc n)
  from Suc.prems obtain h1 and v :: VertexNode and a :: Face where
    v: "lookup (heap_v h) vertex = Some v" and a: "lookup (heap_f h) af = Some a" and
    s1: "(if distanceToPoint a (v_point v) > tolerance h then addVertexToFace h vertex af
          else do { (l, hv) \<leftarrow> append (unassigned h, heap_v h) vertex;
                    Some (h\<lparr> unassigned := l, heap_v := hv \<rparr>) }) = Some h1" and
    s2: "(case v_next v of None \<Rightarrow> Some h1 | Some nv \<Rightarrow> absorbLoop n h1 af nv) = Some h'"
    by (auto simp: Let_def split: bind_splits)
  from v a have va: "v = heap_v h ! vertex" "a = heap_f h ! af" by (auto simp: lookup_def split: if_splits)
  have 1: "steady h h1"
  proof (cases "distanceToPoint a (v_point v) > tolerance h")
    case True
    with s1 va show ?thesis by (auto intro: addVertexToFace_steady)
  next
    case False
    with s1 show ?thesis 
      by (auto split: bind_splits dest!: append_kept intro!: quiet_steady quietI)
  qed
  show ?case using s2 1 Suc.IH by (auto split: option.splits intro: steady_trans)
qed

lemma deleteFaceVertices_steady:
  assumes "deleteFaceVertices fuel h face af = Some h'"
  shows "steady h h'"
proof -
  from assms obtain fv h1 where
    s1: "removeAllVerticesFromFace fuel h face = Some (fv, h1)" and
    s2: "(case fv of None \<Rightarrow> Some h1
          | Some v \<Rightarrow> (case af of
               None \<Rightarrow> do { (l, hv) \<leftarrow> appendChain fuel (unassigned h1, heap_v h1) v;
                            Some (h1\<lparr> unassigned := l, heap_v := hv \<rparr>) }
             | Some a \<Rightarrow> absorbLoop fuel h1 a v)) = Some h'"
    by (auto simp: deleteFaceVertices_def split: bind_splits)
  have 1: "steady h h1" using removeAllVerticesFromFace_quiet[OF s1] by (rule quiet_steady)
  have "steady h1 h'"
  proof (cases fv)
    case None then show ?thesis using s2 by simp
  next
    case (Some v)
    show ?thesis
    proof (cases af)
      case None
      with Some s2 show ?thesis
        by (auto split: bind_splits dest!: appendChain_kept intro!: quiet_steady quietI)
    next
      case (Some a)
      with \<open>fv = Some v\<close> s2 show ?thesis by (auto intro: absorbLoop_steady)
    qed
  qed
  with 1 show ?thesis by (rule steady_trans)
qed

lemma findMaxFace_above:
  "findMaxFace hf tol p is (md0, mf0) = Some (md, mf) \<Longrightarrow> t0 \<le> md0 \<Longrightarrow>
   (\<forall>j. mf0 = Some j \<longrightarrow> j < length hf \<and> distanceToPoint (hf ! j) p > t0) \<Longrightarrow>
   (\<forall>j. mf = Some j \<longrightarrow> j < length hf \<and> distanceToPoint (hf ! j) p > t0)"
proof (induction "is" arbitrary: md0 mf0)
  case Nil then show ?case by simp
next
  case (Cons i "is")
  from Cons.prems(1) obtain face :: Face where i: "lookup hf i = Some face"
    by (auto split: bind_splits)
  then have il: "i < length hf" "face = hf ! i" by (auto simp: lookup_def split: if_splits)
  show ?case
  proof (cases "f_mark face = Visible \<and> distanceToPoint face p > md0")
    case True
    with Cons.prems i have
      "Some (md, mf) = Some (distanceToPoint face p, Some i) \<or>
       findMaxFace hf tol p is (distanceToPoint face p, Some i) = Some (md, mf)"
      by (auto simp: Let_def split: if_splits)
    then show ?thesis using Cons.IH[of "distanceToPoint face p" "Some i"] True Cons.prems(2) il
      by auto
  next
    case False
    with Cons.prems i have
      "Some (md, mf) = Some (md0, mf0) \<or> findMaxFace hf tol p is (md0, mf0) = Some (md, mf)"
      by (auto simp: Let_def split: if_splits)
    then show ?thesis using Cons.IH[of md0 mf0] Cons.prems(2,3) by auto
  qed
qed

lemma maxOfFour_above:
  "maxOfFour hf p js (md0, mf0) = Some (md, mf) \<Longrightarrow> t0 \<le> md0 \<Longrightarrow>
   (\<forall>j. mf0 = Some j \<longrightarrow> j < length hf \<and> distanceToPoint (hf ! j) p > t0) \<Longrightarrow>
   (\<forall>j. mf = Some j \<longrightarrow> j < length hf \<and> distanceToPoint (hf ! j) p > t0)"
proof (induction js arbitrary: md0 mf0)
  case Nil then show ?case by simp
next
  case (Cons i js)
  from Cons.prems(1) obtain face :: Face where i: "lookup hf i = Some face"
    by (auto split: bind_splits)
  then have il: "i < length hf" "face = hf ! i" by (auto simp: lookup_def split: if_splits)
  show ?case
  proof (cases "distanceToPoint face p > md0")
    case True
    with Cons.prems i have "maxOfFour hf p js (distanceToPoint face p, Some i) = Some (md, mf)"
      by (auto simp: Let_def)
    then show ?thesis using Cons.IH[of "distanceToPoint face p" "Some i"] True Cons.prems(2) il
      by auto
  next
    case False
    with Cons.prems i have "maxOfFour hf p js (md0, mf0) = Some (md, mf)"
      by (auto simp: Let_def)
    then show ?thesis using Cons.IH[of md0 mf0] Cons.prems(2,3) by auto
  qed
qed

lemma resolveLoop_steady:
  "resolveLoop n h nfs vertex = Some h' \<Longrightarrow> steady h h'"
proof (induction n arbitrary: h vertex)
  case 0 then show ?case by simp
next
  case (Suc n)
  from Suc.prems obtain md mf h1 and v :: VertexNode where
    v: "lookup (heap_v h) vertex = Some v" and
    m: "findMaxFace (heap_f h) (tolerance h) (v_point v) nfs (tolerance h, None) = Some (md, mf)" and
    s1: "(case mf of None \<Rightarrow> Some h | Some m \<Rightarrow> addVertexToFace h vertex m) = Some h1" and
    s2: "(case v_next v of None \<Rightarrow> Some h1 | Some nv \<Rightarrow> resolveLoop n h1 nfs nv) = Some h'"
    by (auto simp: Let_def split: bind_splits)
  from v have va: "v = heap_v h ! vertex" by (auto simp: lookup_def split: if_splits)
  from findMaxFace_above[OF m, of "tolerance h"]
  have ab: "\<forall>j. mf = Some j \<longrightarrow> distanceToPoint (heap_f h ! j) (v_point v) > tolerance h" by simp
  have 1: "steady h h1" using s1 ab va by (auto split: option.splits intro: addVertexToFace_steady)
  show ?case using s2 1 Suc.IH by (auto split: option.splits intro: steady_trans)
qed

lemma resolveUnassignedPoints_steady:
  "resolveUnassignedPoints fuel h nfs = Some h' \<Longrightarrow> steady h h'"
  by (auto simp: resolveUnassignedPoints_def split: if_splits bind_splits dest: resolveLoop_steady)

lemma assignInitial_steady:
  assumes "assignInitial v0 v1 v2 v3 h vertex = Some h'"
  shows "steady h h'"
proof (cases "vertex \<noteq> v0 \<and> vertex \<noteq> v1 \<and> vertex \<noteq> v2 \<and> vertex \<noteq> v3")
  case False
  with assms show ?thesis by (auto simp: assignInitial_def)
next
  case True
  with assms obtain md mf and v :: VertexNode where
    v: "lookup (heap_v h) vertex = Some v" and
    m: "maxOfFour (heap_f h) (v_point v) (take 4 (faces h)) (tolerance h, None) = Some (md, mf)" and
    s1: "(case mf of None \<Rightarrow> Some h | Some m \<Rightarrow> addVertexToFace h vertex m) = Some h'"
    by (auto simp: assignInitial_def split: bind_splits if_splits)
  from v have va: "v = heap_v h ! vertex" by (auto simp: lookup_def split: if_splits)
  from maxOfFour_above[OF m, of "tolerance h"]
  have ab: "\<forall>j. mf = Some j \<longrightarrow> distanceToPoint (heap_f h ! j) (v_point v) > tolerance h" by simp
  show ?thesis using s1 ab va by (auto split: option.splits intro: addVertexToFace_steady)
qed

lemma compute_effect:
  "compute h f = Some h' \<Longrightarrow> 
     (\<exists>face. h' = h\<lparr> heap_f := (heap_f h)[f := face] \<rparr> \<and> f < length (heap_f h) \<and>
        f_edge face = f_edge (heap_f h ! f) \<and> f_outside face = f_outside (heap_f h ! f) \<and>
        f_mark face = f_mark (heap_f h ! f))"
  by (auto simp: compute_def lookup_def Let_def split: bind_splits if_splits)

lemma create_effect:
  assumes "create h a b c = Some (f, h')"
  shows "f = length (heap_f h) \<and> tolerance h' = tolerance h \<and> vertices h' = vertices h \<and>
     faces h' = faces h \<and> newFaces h' = newFaces h \<and>
     assigned h' = assigned h \<and> unassigned h' = unassigned h \<and> heap_v h' = heap_v h \<and>
     heap_e h' = heap_e h @ [
       \<lparr> e_vertex = a, e_prev = Some (length (heap_e h) + 2), e_next = Some (length (heap_e h) + 1),
          e_twin = None, e_face = f \<rparr>,
       \<lparr> e_vertex = b, e_prev = Some (length (heap_e h)), e_next = Some (length (heap_e h) + 2),
          e_twin = None, e_face = f \<rparr>,
       \<lparr> e_vertex = c, e_prev = Some (length (heap_e h) + 1), e_next = Some (length (heap_e h)),
          e_twin = None, e_face = f \<rparr>] \<and>
     (\<exists>face. heap_f h' = heap_f h @ [face] \<and> f_edge face = Some (length (heap_e h)) \<and>
             f_outside face = None \<and> f_mark face = Visible)"
proof -
  let ?h1 = "h\<lparr> heap_e := heap_e h @ [
       newHalfEdge a (length (heap_f h))\<lparr> e_next := Some (length (heap_e h) + 1), e_prev := Some (length (heap_e h) + 2) \<rparr>,
       newHalfEdge b (length (heap_f h))\<lparr> e_next := Some (length (heap_e h) + 2), e_prev := Some (length (heap_e h)) \<rparr>,
       newHalfEdge c (length (heap_f h))\<lparr> e_prev := Some (length (heap_e h) + 1), e_next := Some (length (heap_e h)) \<rparr>],
     heap_f := heap_f h @ [newFace\<lparr> f_edge := Some (length (heap_e h)) \<rparr>] \<rparr>"
  from assms have c: "compute ?h1 (length (heap_f h)) = Some h'" and f: "f = length (heap_f h)"
    by (auto simp: create_def Let_def split: bind_splits)
  from compute_effect[OF c] obtain face where
    h': "h' = ?h1\<lparr> heap_f := (heap_f ?h1)[length (heap_f h) := face] \<rparr>" and
    fe: "f_edge face = f_edge (heap_f ?h1 ! length (heap_f h))"
        "f_outside face = f_outside (heap_f ?h1 ! length (heap_f h))"
        "f_mark face = f_mark (heap_f ?h1 ! length (heap_f h))" by blast
  show ?thesis using f h' fe by (simp add: newHalfEdge_def newFace_def)
qed

lemma create_steady:
  assumes "create h a b c = Some (f, h')"
  shows "steady h h' \<and> nodesKept (heap_v h) (heap_v h')"
proof -
  note e = create_effect[OF assms]
  from e obtain face where hf: "heap_f h' = heap_f h @ [face]" "f_edge face = Some (length (heap_e h))" by blast
  have ek: "edgesKept (heap_e h) (heap_e h')" using e by (simp add: edgesKept_def nth_append)
  have pk: "planesKept (heap_f h) (heap_f h')" using hf by (simp add: planesKept_def nth_append)
  have fr: "frame h h'" using e ek pk by (simp add: frame_def)
  have nk: "nodesKept (heap_v h) (heap_v h')" using e by simp
  have c: "cyclesOK h'" if c0: "cyclesOK h"
    unfolding cyclesOK_def
  proof (intro allI impI)
    fix g assume g: "g < length (heap_f h')"
    show "\<exists>e0. f_edge (heap_f h' ! g) = Some e0 \<and> triangleOK (heap_e h') g e0"
    proof (cases "g < length (heap_f h)")
      case True
      with c0 obtain e0 where "f_edge (heap_f h ! g) = Some e0" "triangleOK (heap_e h) g e0"
        by (auto simp: cyclesOK_def)
      then show ?thesis using planesKeptD(3)[OF pk True] triangleOK_kept[OF ek] by auto
    next
      case False
      with g hf have gf: "g = length (heap_f h)" by simp
      have "triangleOK (heap_e h') g (length (heap_e h))"
        unfolding triangleOK_def
        apply (rule exI[of _ "length (heap_e h) + 1"], rule exI[of _ "length (heap_e h) + 2"])
        using e gf by (simp add: nth_append)
      then show ?thesis using hf gf by simp
    qed
  qed
  from fr nk c show ?thesis by (auto simp: steady_def intro: outsideInv_kept)
qed

lemma edges_quiet: "edgesKept (heap_e h) he \<Longrightarrow> quiet h (h\<lparr> heap_e := he \<rparr>)"
  by (auto intro!: quietI)

lemma twins_quiet:
  "twinsOutward fs h i = Some h' \<Longrightarrow> quiet h h'"
  "twinsInward fs h i = Some h' \<Longrightarrow> quiet h h'"
  by (auto simp: twinsOutward_def twinsInward_def Let_def split: bind_splits
           dest!: setTwin_edges intro!: quietI intro: edgesKept_trans)

lemma forEach_steady:
  assumes "forEach body s xs = Some s'" "\<And>s x s'. body s x = Some s' \<Longrightarrow> steady s s'"
  shows "steady s s'"
  by (rule forEach_inv[OF assms(1), where P="steady s"]) (auto dest: assms(2) intro: steady_trans)

lemma forEach_quiet:
  assumes "forEach body s xs = Some s'" "\<And>s x s'. body s x = Some s' \<Longrightarrow> quiet s s'"
  shows "quiet s s'"
  by (rule forEach_inv[OF assms(1), where P="quiet s"]) (auto dest: assms(2) intro: quiet_trans)

lemma initialFaces_steady:
  assumes "initialFaces h v0 v1 v2 v3 below = Some (fs, h')"
  shows "steady h h' \<and> nodesKept (heap_v h) (heap_v h')"
proof -
  from assms obtain f0 h0 f1 h1 f2 h2 f3 h3 a0 b0 c0 a1 b1 c1 a2 b2 c2 a3 b3 c3 where
    c: "create h a0 b0 c0 = Some (f0, h0)" "create h0 a1 b1 c1 = Some (f1, h1)"
       "create h1 a2 b2 c2 = Some (f2, h2)" "create h2 a3 b3 c3 = Some (f3, h3)" and
    t: "forEach (twinsOutward [f0, f1, f2, f3]) h3 [0, 1, 2] = Some h' \<or>
        forEach (twinsInward [f0, f1, f2, f3]) h3 [0, 1, 2] = Some h'"
    by (cases below) (auto simp: initialFaces_def Let_def split: bind_splits intro: that)
  have q: "quiet h3 h'" using t
  proof
    assume "forEach (twinsOutward [f0, f1, f2, f3]) h3 [0, 1, 2] = Some h'"
    then show ?thesis by (rule forEach_quiet) (rule twins_quiet)
  next
    assume "forEach (twinsInward [f0, f1, f2, f3]) h3 [0, 1, 2] = Some h'"
    then show ?thesis by (rule forEach_quiet) (rule twins_quiet)
  qed
  note s = create_steady[OF c(1)] create_steady[OF c(2)] create_steady[OF c(3)] create_steady[OF c(4)]
  have "steady h h3" using s by (blast intro: steady_trans)
  moreover have "nodesKept (heap_v h) (heap_v h3)" using s by (blast intro: nodesKept_trans)
  ultimately show ?thesis using q by (blast intro: steady_trans quiet_steady nodesKept_trans quiet_nodes)
qed

lemma computeHorizon_steady:
  "(computeHorizon n h eye ce face hz = Some (h', hz') \<longrightarrow> steady h h') \<and>
   (horizonLoop n h eye c edge hz = Some (h', hz') \<longrightarrow> steady h h')"
proof (induction n arbitrary: h eye ce face hz c edge h' hz')
  case 0 then show ?case by simp
next
  case (Suc n)
  from Suc.IH have IH1: "\<And>h eye ce face hz h' hz'.
      computeHorizon n h eye ce face hz = Some (h', hz') \<Longrightarrow> steady h h'" by blast
  from Suc.IH have IH2: "\<And>h eye c edge hz h' hz'.
      horizonLoop n h eye c edge hz = Some (h', hz') \<Longrightarrow> steady h h'" by blast
  have A: "steady h h'" if r: "computeHorizon (Suc n) h eye ce face hz = Some (h', hz')"
  proof -
    from r obtain h1 hf ed cr where
      d: "deleteFaceVertices (Suc n) h face None = Some h1" and
      m: "set_mark (heap_f h1) face Deleted = Some hf" and
      l: "horizonLoop n (h1\<lparr> heap_f := hf \<rparr>) eye cr ed hz = Some (h', hz')"
      by (auto simp: Let_def split: bind_splits)
    have "quiet h1 (h1\<lparr> heap_f := hf \<rparr>)"
      using set_mark_planes[OF m] set_mark_len[OF m] by (auto intro!: quietI)
    then have "steady h1 (h1\<lparr> heap_f := hf \<rparr>)" by (rule quiet_steady)
    from steady_trans[OF steady_trans[OF deleteFaceVertices_steady[OF d] this] IH2[OF l]]
    show ?thesis .
  qed
  have B: "steady h h'" if r: "horizonLoop (Suc n) h eye c edge hz = Some (h', hz')"
  proof -
    from r obtain h1 hz1 where
      s1: "h1 = h \<or> (\<exists>te opf. computeHorizon n h eye (Some te) opf hz = Some (h1, hz1))" and
      s2: "(h', hz') = (h1, hz1) \<or> (\<exists>nx hzz. horizonLoop n h1 eye c nx hzz = Some (h', hz'))"
      by (auto simp: Let_def split: bind_splits if_splits; blast)
    from s1 IH1 have "steady h h1" by auto
    with s2 IH2 show ?thesis by (auto intro: steady_trans)
  qed
  from A B show ?case by blast
qed

lemma addAdjoiningFace_steady:
  assumes "addAdjoiningFace h eyeVertex horizonEdge = Some (e, h')"
  shows "steady h h' \<and> nodesKept (heap_v h) (heap_v h')"
proof -
  from assms obtain a b c f h1 hes tw ex where
    c: "create h a b c = Some (f, h1)" and
    t: "setTwin (heap_e h1) ex tw = Some hes" and
    h': "h' = h1\<lparr> faces := faces h1 @ [f], heap_e := hes \<rparr>"
    by (auto simp: addAdjoiningFace_def Let_def split: bind_splits intro: that)
  have "quiet h1 h'" unfolding h' using setTwin_edges[OF t] by (auto intro!: quietI)
  with create_steady[OF c] show ?thesis
    by (blast intro: steady_trans quiet_steady nodesKept_trans quiet_nodes)
qed

lemma joinSideEdge_quiet:
  "joinSideEdge h fse pse se = Some (r, h') \<Longrightarrow> quiet h h'"
  by (auto simp: joinSideEdge_def split: option.splits bind_splits dest!: setTwin_edges intro!: quietI)

lemma addNewFacesLoop_steady:
  "addNewFacesLoop h eyeVertex hs acc = Some (h', acc') \<Longrightarrow>
   steady h h' \<and> nodesKept (heap_v h) (heap_v h')"
proof (induction hs arbitrary: h acc)
  case Nil then show ?case by simp
next
  case (Cons x hs)
  obtain fse pse where acc: "acc = (fse, pse)" by (cases acc)
  from Cons.prems(1) acc obtain se h1 fse' h2 and e :: HalfEdge where
    a: "addAdjoiningFace h eyeVertex x = Some (se, h1)" and
    j: "joinSideEdge h1 fse pse se = Some (fse', h2)" and
    l: "addNewFacesLoop (h2\<lparr> newFaces := newFaces h2 @ [e_face e] \<rparr>) eyeVertex hs (fse', Some se) = Some (h', acc')"
    by (auto simp: Let_def split: bind_splits intro: that)
  have "quiet h2 (h2\<lparr> newFaces := newFaces h2 @ [e_face e] \<rparr>)" by (auto intro!: quietI)
  with joinSideEdge_quiet[OF j]
  have q: "quiet h1 (h2\<lparr> newFaces := newFaces h2 @ [e_face e] \<rparr>)" by (rule quiet_trans)
  from addAdjoiningFace_steady[OF a] q Cons.IH[OF l] show ?case
    by (blast intro: steady_trans quiet_steady nodesKept_trans quiet_nodes)
qed

lemma addNewFaces_steady:
  assumes "addNewFaces h eyeVertex horizon = Some h'"
  shows "steady h h' \<and> nodesKept (heap_v h) (heap_v h')"
proof -
  from assms obtain h1 acc hes nx pse where
    l: "addNewFacesLoop (h\<lparr> newFaces := [] \<rparr>) eyeVertex horizon (None, None) = Some (h1, acc)" and
    t: "setTwin (heap_e h1) nx pse = Some hes" and
    h': "h' = h1\<lparr> heap_e := hes \<rparr>"
    by (auto simp: addNewFaces_def split: bind_splits intro: that)
  have q0: "quiet h (h\<lparr> newFaces := [] \<rparr>)" by (auto intro!: quietI)
  have q1: "quiet h1 h'" unfolding h' using setTwin_edges[OF t] by (auto intro!: quietI)
  from q0 addNewFacesLoop_steady[OF l] q1 show ?thesis
    by (blast intro: steady_trans quiet_steady nodesKept_trans quiet_nodes)
qed

lemma addVertexToHull_steady:
  assumes "addVertexToHull fuel h eyeVertex = Some h'"
  shows "steady h h'"
proof -
  from assms obtain face h1 face' h2 horizon h3 and ev :: VertexNode where
    r: "removeVertexFromFace (h\<lparr> unassigned := clear (unassigned h) \<rparr>) eyeVertex face = Some h1" and
    c: "computeHorizon fuel h1 (v_point ev) None face' [] = Some (h2, horizon)" and
    a: "addNewFaces h2 eyeVertex horizon = Some h3" and
    u: "resolveUnassignedPoints fuel h3 (newFaces h3) = Some h'"
    by (auto simp: addVertexToHull_def Let_def split: bind_splits intro: that)
  have q0: "steady h (h\<lparr> unassigned := clear (unassigned h) \<rparr>)"
    by (auto intro!: quiet_steady quietI)
  note s1 = quiet_steady[OF removeVertexFromFace_quiet[OF r]]
  from computeHorizon_steady c have s2: "steady h1 h2" by blast
  from addNewFaces_steady[OF a] have s3: "steady h2 h3" by simp
  note s4 = resolveUnassignedPoints_steady[OF u]
  from q0 s1 s2 s3 s4 show ?thesis by (blast intro: steady_trans)
qed

lemma reindexFaces_quiet: "reindexFaces h = Some h' \<Longrightarrow> quiet h h'"
  by (auto simp: reindexFaces_def split: bind_splits intro!: quietI)

lemma cleanup_quiet: "quiet h (cleanup h)"
  by (auto simp: cleanup_def intro!: quietI)

subsection \<open>The tolerance\<close>

lemma fold_updateMin:
  "getComponent (fst (foldl (updateMin p v) (mn, a) [AxisX, AxisY, AxisZ])) j
     = min (getComponent mn j) (getComponent p j)"
  by (cases mn; cases p; cases j) (simp_all add: updateMin_def min_def)

lemma fold_updateMax:
  "getComponent (fst (foldl (updateMax p v) (mx, a) [AxisX, AxisY, AxisZ])) j
     = max (getComponent mx j) (getComponent p j)"
  by (cases mx; cases p; cases j) (simp_all add: updateMax_def max_def)

lemma extremesLoop_minmax:
  "extremesLoop hv vs ((mn, a), (mx, b)) = Some ((mn', a'), (mx', b')) \<Longrightarrow>
   getComponent mn' j = Min (insert (getComponent mn j) ((\<lambda>v. getComponent (v_point (hv ! v)) j) ` set vs)) \<and>
   getComponent mx' j = Max (insert (getComponent mx j) ((\<lambda>v. getComponent (v_point (hv ! v)) j) ` set vs))"
proof (induction vs arbitrary: mn a mx b)
  case Nil then show ?case by simp
next
  case (Cons v vs)
  from Cons.prems obtain n :: VertexNode where n: "lookup hv v = Some n" by (auto split: bind_splits)
  then have nv: "n = hv ! v" by (auto simp: lookup_def split: if_splits)
  obtain mn1 a1 where m1: "foldl (updateMin (v_point n) v) (mn, a) [AxisX, AxisY, AxisZ] = (mn1, a1)"
    by (cases "foldl (updateMin (v_point n) v) (mn, a) [AxisX, AxisY, AxisZ]")
  obtain mx1 b1 where m2: "foldl (updateMax (v_point n) v) (mx, b) [AxisX, AxisY, AxisZ] = (mx1, b1)"
    by (cases "foldl (updateMax (v_point n) v) (mx, b) [AxisX, AxisY, AxisZ]")
  from Cons.prems n m1 m2 have r: "extremesLoop hv vs ((mn1, a1), (mx1, b1)) = Some ((mn', a'), (mx', b'))"
    by (simp add: Let_def del: foldl_Cons)
  have c1: "getComponent mn1 j = min (getComponent mn j) (getComponent (v_point n) j)"
    using fold_updateMin[of "v_point n" v mn a j] m1 by simp
  have c2: "getComponent mx1 j = max (getComponent mx j) (getComponent (v_point n) j)"
    using fold_updateMax[of "v_point n" v mx b j] m2 by simp
  let ?S = "(\<lambda>v. getComponent (v_point (hv ! v)) j) ` set vs"
  have f: "finite ?S" by simp
  from Cons.IH[OF r] have
    "getComponent mn' j = Min (insert (getComponent mn1 j) ?S)"
    "getComponent mx' j = Max (insert (getComponent mx1 j) ?S)" by simp_all
  then show ?case using c1 c2 nv f
    by (cases "?S = {}") (simp_all add: min.assoc max.assoc min.commute max.commute insert_commute)
qed

lemma computeExtremes_tolerance:
  assumes "computeExtremes h = Some (ex, h')"
  shows "h' = h\<lparr> tolerance := specTolerance h \<rparr>"
proof -
  from assms obtain v0 rest where vs: "vertices h = v0 # rest"
    by (cases "vertices h") (auto simp: computeExtremes_def)
  with assms obtain mn a mx b and v :: VertexNode where
    v: "lookup (heap_v h) v0 = Some v" and
    l: "extremesLoop (heap_v h) (vertices h) ((v_point v, \<lambda>_. v0), (v_point v, \<lambda>_. v0)) = Some ((mn, a), (mx, b))" and
    h': "h' = h\<lparr> tolerance := 3 * EPSILON *
                     (max \<bar>getComponent mn AxisX\<bar> \<bar>getComponent mx AxisX\<bar> +
                      max \<bar>getComponent mn AxisY\<bar> \<bar>getComponent mx AxisY\<bar> +
                      max \<bar>getComponent mn AxisZ\<bar> \<bar>getComponent mx AxisZ\<bar>) \<rparr>"
    by (auto simp: computeExtremes_def Let_def split: bind_splits)
  from v have v': "v = heap_v h ! v0" by (auto simp: lookup_def split: if_splits)
  have m: "getComponent mn j = Min (coordinates h j) \<and> getComponent mx j = Max (coordinates h j)" for j
  proof -
    have "insert (getComponent (v_point v) j) (coordinates h j) = coordinates h j"
      using vs v' by (auto simp: coordinates_def)
    with extremesLoop_minmax[OF l, of j] show ?thesis by (simp add: coordinates_def)
  qed
  show ?thesis unfolding h' by (simp add: specTolerance_def m)
qed

subsection \<open>The invariant of the reachable states\<close>

lemma pushVertices_effect:
  "heap_v (foldl pushVertex h ps) = heap_v h @ map newVertexNode ps \<and>
   vertices (foldl pushVertex h ps) = vertices h @ [length (heap_v h) ..< length (heap_v h) + length ps] \<and>
   heap_e (foldl pushVertex h ps) = heap_e h \<and> heap_f (foldl pushVertex h ps) = heap_f h"
proof (induction ps arbitrary: h)
  case Nil then show ?case by simp
next
  case (Cons p ps)
  have "[length (heap_v h) ..< length (heap_v h) + Suc (length ps)]
        = length (heap_v h) # [Suc (length (heap_v h)) ..< Suc (length (heap_v h)) + length ps]"
    by (subst upt_rec) simp
  with Cons[of "pushVertex h p"] show ?case by (simp add: pushVertex_def)
qed

lemma coordinates_frame:
  assumes "frame h h'" "\<forall>v \<in> set (vertices h). v < length (heap_v h)"
  shows "coordinates h' j = coordinates h j"
proof -
  from assms(1) have v: "vertices h' = vertices h" and p: "pointsKept (heap_v h) (heap_v h')"
    by (simp_all add: frame_def)
  have "getComponent (v_point (heap_v h' ! v)) j = getComponent (v_point (heap_v h ! v)) j"
    if "v \<in> set (vertices h)" for v
    using p assms(2) that by (simp add: pointsKept_def)
  then show ?thesis unfolding coordinates_def v by (intro image_cong) simp_all
qed

lemma specTolerance_frame:
  assumes "frame h h'" "\<forall>v \<in> set (vertices h). v < length (heap_v h)"
  shows "specTolerance h' = specTolerance h"
  by (simp add: specTolerance_def coordinates_frame[OF assms])

lemma steady_hullInv:
  assumes "steady h h'" "hullInv h"
  shows "hullInv h'"
proof -
  from assms(1) have f: "frame h h'" by (simp add: steady_def)
  then have v: "vertices h' = vertices h" "tolerance h' = tolerance h"
    "length (heap_v h') = length (heap_v h)" by (simp_all add: frame_def pointsKept_def)
  from assms(2) have b: "\<forall>v \<in> set (vertices h). v < length (heap_v h)" by (simp add: hullInv_def)
  show ?thesis using assms v specTolerance_frame[OF f b] by (simp add: hullInv_def steady_def)
qed

lemma computeInitialHull_hullInv:
  assumes c: "computeInitialHull h = Some h'" and cy: "cyclesOK h"
    and vs: "\<forall>v \<in> set (vertices h). v < length (heap_v h) \<and> v_face (heap_v h ! v) = None"
  shows "hullInv h'"
proof -
  from c obtain ex h1 v0 v1 v2 v3 below fs h2 where
    e: "computeExtremes h = Some (ex, h1)" and
    f: "initialFaces h1 v0 v1 v2 v3 below = Some (fs, h2)" and
    a: "forEach (assignInitial v0 v1 v2 v3) (h2\<lparr> faces := faces h2 @ fs \<rparr>)
          (vertices (h2\<lparr> faces := faces h2 @ fs \<rparr>)) = Some h'"
    by (auto simp: computeInitialHull_def Let_def split: bind_splits)
  note h1 = computeExtremes_tolerance[OF e]
  have ne: "vertices h \<noteq> []" using e by (auto simp: computeExtremes_def)
  have "hullInv h1" unfolding h1 using cy vs
    by (auto simp: hullInv_def outsideInv_def cyclesOK_def specTolerance_def coordinates_def)
  moreover have "steady h1 h2" using initialFaces_steady[OF f] by simp
  moreover have "steady h2 (h2\<lparr> faces := faces h2 @ fs \<rparr>)" by (auto intro!: quiet_steady quietI)
  moreover have "steady (h2\<lparr> faces := faces h2 @ fs \<rparr>) h'"
    by (rule forEach_steady[OF a]) (rule assignInitial_steady)
  ultimately show ?thesis by (blast intro: steady_hullInv)
qed



subsection \<open>The run on six points\<close>

lemma sqrt9: "sqrt 9 = 3" by (rule real_sqrt_unique) auto

lemma sqrt25: "sqrt 25 = 5" by (rule real_sqrt_unique) auto

lemma sqrt49: "sqrt 49 = 7" by (rule real_sqrt_unique) auto

lemma sqrt9_25: "sqrt (9/25) = 3/5" by (simp add: real_sqrt_divide sqrt9 sqrt25)

lemma sqrt49_25: "sqrt (49/25) = 7/5" by (simp add: real_sqrt_divide sqrt49 sqrt25)

lemmas sq = sqrt9 sqrt25 sqrt49 real_sqrt_four real_sqrt_divide

lemmas geo = getNormal_def getMidpoint_def getArea_def lengthSq_def setFromCoplanarPoints_def
  planeDistanceToPoint_def closestPointToPoint_def distanceToSquared_def distanceToPoint_def sq

lemmas hp = lookup_def deref_def tail_def head_def newHalfEdge_def newFace_def

lemmas run_defs = S0_def ex1_def S1_def C0_def C1_def C2_def C3_def T0_def T1_def T2_def S3_def
  R1_def R2_def R3_def R4_def R5_def

lemma st_push: "foldl pushVertex (makeEmpty newConvexHull) sixPoints = S0"
  by (simp add: sixPoints_def run_defs pushVertex_def makeEmpty_def newConvexHull_def
      newVertexNode_def emptyList_def)

lemma st_extremes: "computeExtremes S0 = Some (ex1, S1)"
  by (simp add: run_defs computeExtremes_def hp updateMin_def updateMax_def EPSILON_def)

lemma st_vertices: "initialVertices S1 ex1 = Some (0, 1, 2, 3, False)"
  by (simp add: run_defs initialVertices_def hp geo)

lemma st_create0: "create S1 (Some 0) (Some 2) (Some 1) = Some (0, C0)"
  by (simp add: run_defs create_def compute_def hp geo Let_def)

lemma st_create1: "create C0 (Some 3) (Some 0) (Some 1) = Some (1, C1)"
  by (simp add: run_defs create_def compute_def hp geo Let_def)

lemma st_create2: "create C1 (Some 3) (Some 1) (Some 2) = Some (2, C2)"
  by (simp add: run_defs create_def compute_def hp geo Let_def)

lemma st_create3: "create C2 (Some 3) (Some 2) (Some 0) = Some (3, C3)"
  by (simp add: run_defs create_def compute_def hp geo Let_def)

lemma st_twins0: "twinsInward [0, 1, 2, 3] C3 0 = Some T0"
  by (simp add: run_defs twinsInward_def getEdge_def setTwin_def hp Let_def numeral_2_eq_2)

lemma st_twins1: "twinsInward [0, 1, 2, 3] T0 1 = Some T1"
  by (simp add: run_defs twinsInward_def getEdge_def setTwin_def hp Let_def numeral_2_eq_2)

lemma st_twins2: "twinsInward [0, 1, 2, 3] T1 2 = Some T2"
  by (simp add: run_defs twinsInward_def getEdge_def setTwin_def hp Let_def numeral_2_eq_2)

lemma st_assign:
  "forEach (assignInitial 0 1 2 3) (T2\<lparr> faces := faces T2 @ [0, 1, 2, 3] \<rparr>) [0, 1, 2, 3, 4, 5] = Some S3"
  by (simp add: run_defs assignInitial_def addVertexToFace_def set_face_def set_outside_def
      append_def insertBefore_def set_prev_def set_next_def hp geo Let_def)

lemma st_next: "nextVertexToAdd 10 S3 = Some (Some 4)"
  by (simp add: run_defs nextVertexToAdd_def isEmpty_def first_def hp geo Let_def
      eval_nat_numeral)

lemma st_remove:
  "removeVertexFromFace (S3\<lparr> unassigned := clear (unassigned S3) \<rparr>) 4 2 = Some R1"
  by (simp add: run_defs removeVertexFromFace_def fixOutsideLink_def remove_def clear_def
      set_outside_def set_prev_def set_next_def hp Let_def)

lemma st_horizon:
  "computeHorizon 10 R1 (Vector3 (2/5) (3/5) (3/5)) None 2 [] = Some (R2, [6, 7, 8])"
  by (simp add: run_defs deleteFaceVertices_def removeAllVerticesFromFace_def removeSubList_def
      appendChain_def set_mark_def set_outside_def set_prev_def set_next_def getEdge_def hp geo
      Let_def eval_nat_numeral)

lemma st_newfaces: "addNewFaces R2 4 [6, 7, 8] = Some R3"
  by (simp add: run_defs addNewFaces_def addAdjoiningFace_def joinSideEdge_def create_def
      compute_def getEdge_def setTwin_def hp geo Let_def numeral_2_eq_2 sqrt9_25 sqrt49_25)

lemma st_newFaces: "newFaces R3 = [4, 5, 6]"
  by (simp add: run_defs )

lemma st_resolve: "resolveUnassignedPoints 10 R3 [4, 5, 6] = Some R3"
  by (simp add: run_defs resolveUnassignedPoints_def isEmpty_def first_def findMaxFace.simps hp
      geo Let_def eval_nat_numeral)

lemma st_next2: "nextVertexToAdd 10 R3 = Some None"
  by (simp add: run_defs nextVertexToAdd_def isEmpty_def first_def hp geo Let_def
      eval_nat_numeral)

lemma st_reindex: "reindexFaces R3 = Some R4"
  by (simp add: run_defs reindexFaces_def hp)

lemma st_cleanup: "cleanup R4 = R5"
  by (simp add: run_defs cleanup_def clear_def)

lemma run_initialFaces: "initialFaces S1 0 1 2 3 False = Some ([0, 1, 2, 3], T2)"
  by (simp add: initialFaces_def st_create0 st_create1 st_create2 st_create3
      st_twins0 st_twins1 st_twins2 del: One_nat_def)

lemma T2_vertices: "vertices T2 = [0, 1, 2, 3, 4, 5]"
  by (simp add: run_defs)

lemma run_initialHull: "computeInitialHull S0 = Some S3"
  by (simp add: computeInitialHull_def st_extremes st_vertices run_initialFaces T2_vertices
      st_assign del: One_nat_def forEach.simps)

lemma reachable_S3: "reachable S3"
proof -
  have l: "4 \<le> length sixPoints" by (simp add: sixPoints_def)
  have c: "computeInitialHull (foldl pushVertex (makeEmpty newConvexHull) sixPoints) = Some S3"
    by (simp only: st_push run_initialHull)
  show ?thesis by (rule reachable.initialHull[OF reachable.new l c])
qed

lemma S3_vertex4: "lookup (heap_v S3) 4 = Some (heap_v S3 ! 4)"
  "v_face (heap_v S3 ! 4) = Some 2"
  by (simp_all add: run_defs lookup_def)

lemma R1_vertex4: "lookup (heap_v R1) 4 = Some (heap_v R1 ! 4)"
  "v_face (heap_v R1 ! 4) = Some 2" "v_point (heap_v R1 ! 4) = Vector3 (2/5) (3/5) (3/5)"
  by (simp_all add: run_defs lookup_def)

lemma run_addVertex: "addVertexToHull 10 S3 4 = Some R3"
  by (simp add: addVertexToHull_def S3_vertex4 st_remove R1_vertex4 st_horizon st_newfaces
      st_newFaces st_resolve del: One_nat_def)

lemma reachable_R3: "reachable R3"
  by (rule reachable.addVertex[OF reachable_S3 st_next run_addVertex])

lemma run_loop: "n = Suc (Suc m) \<Longrightarrow> computeLoop n 10 S3 = Some R3"
  by (simp add: st_next run_addVertex st_next2 del: One_nat_def)

lemma run_setFromPoints: "setFromPoints 10 newConvexHull sixPoints = Some R5"
proof -
  have l: "4 \<le> length sixPoints" by (simp add: sixPoints_def)
  have "computeHull 10 S0 = Some R5"
    by (simp add: computeHull_def run_initialHull run_loop[of 10 8] st_reindex st_cleanup
        del: One_nat_def)
  then show ?thesis using l by (simp add: setFromPoints_def st_push)
qed

subsection \<open>The next vertex\<close>

lemma nextVertexLoop_fold:
  "outsideRun fuel hv f v = Some run \<Longrightarrow>
   nextVertexLoop fuel hv f ef v acc
     = Some (fst (foldl (farther (\<lambda>u. distanceToPoint ef (v_point (hv ! u)))) acc run))"
proof (induction fuel arbitrary: v acc run)
  case 0 then show ?case by simp
next
  case (Suc n)
  obtain ev md where acc: "acc = (ev, md)" by (cases acc)
  from Suc.prems obtain node :: VertexNode where node: "lookup hv v = Some node"
    by (auto split: bind_splits)
  then have nv: "node = hv ! v" by (auto simp: lookup_def split: if_splits)
  show ?case
  proof (cases "v_next node")
    case None
    with Suc.prems node nv show ?thesis by (auto simp: acc farther_def Let_def)
  next
    case (Some nx)
    with Suc.prems node obtain nn :: VertexNode where nn: "lookup hv nx = Some nn"
      by (auto split: bind_splits)
    show ?thesis
    proof (cases "v_face nn = Some f")
      case False
      with Suc.prems node nv Some nn show ?thesis by (auto simp: acc farther_def Let_def)
    next
      case True
      with Suc.prems node Some nn obtain vs where vs: "outsideRun n hv f nx = Some vs" "run = v # vs"
        by (auto split: bind_splits)
      show ?thesis using Suc.IH[OF vs(1)] node nv Some nn True vs(2)
        by (simp add: acc farther_def Let_def)
    qed
  qed
qed

lemma farthest_fold:
  "foldl (farther d) (ev, md) run = (r, m) \<Longrightarrow>
   md \<le> m \<and> (\<forall>u \<in> set run. d u \<le> m) \<and>
   (r = ev \<and> m = md \<or>
    (\<exists>e. r = Some e \<and> e \<in> set run \<and> d e = m \<and> md < m \<and>
         (\<forall>u \<in> set (takeWhile (\<lambda>u. u \<noteq> e) run). d u < m)))"
proof (induction run arbitrary: ev md)
  case Nil then show ?case by simp
next
  case (Cons u run)
  show ?case
  proof (cases "d u > md")
    case True
    then have f: "farther d (ev, md) u = (Some u, d u)" by (simp add: farther_def)
    from Cons.prems have "foldl (farther d) (Some u, d u) run = (r, m)" by (simp add: f)
    from Cons.IH[OF this] True show ?thesis by (auto 4 4)
  next
    case False
    then have f: "farther d (ev, md) u = (ev, md)" by (simp add: farther_def)
    from Cons.prems have "foldl (farther d) (ev, md) run = (r, m)" by (simp add: f)
    from Cons.IH[OF this] False show ?thesis by (auto 4 4)
  qed
qed

subsection \<open>Face references and the assigned list\<close>

lemma deleteFaceVertices_None_kept:
  assumes "deleteFaceVertices fuel h face None = Some h'"
  shows "nodesKept (heap_v h) (heap_v h')"
proof -
  from assms obtain fv h1 where
    s1: "removeAllVerticesFromFace fuel h face = Some (fv, h1)" and
    s2: "(case fv of None \<Rightarrow> Some h1
          | Some v \<Rightarrow> (case (None :: fref option) of
               None \<Rightarrow> do { (l, hv) \<leftarrow> appendChain fuel (unassigned h1, heap_v h1) v;
                            Some (h1\<lparr> unassigned := l, heap_v := hv \<rparr>) }
             | Some a \<Rightarrow> absorbLoop fuel h1 a v)) = Some h'"
    by (auto simp: deleteFaceVertices_def split: bind_splits)
  note 1 = quiet_nodes[OF removeAllVerticesFromFace_quiet[OF s1]]
  have "nodesKept (heap_v h1) (heap_v h')"
  proof (cases fv)
    case None then show ?thesis using s2 by simp
  next
    case (Some v)
    with s2 show ?thesis by (auto split: bind_splits dest!: appendChain_kept)
  qed
  with 1 show ?thesis by (rule nodesKept_trans)
qed

lemma not_resides_None: "\<not> resides hv None v"
  by (auto elim: resides.cases)

text \<open>
  C3, as the code has it. After \<open>_addVertexToHull\<close> for vertex 4 of the six points, the
  assigned list is empty, and yet vertex 4 (the eye vertex, removed by
  \<open>_removeVertexFromFace\<close>) and vertex 5 (moved to the unassigned list by
  \<open>_deleteFaceVertices\<close> and given no new face) still refer to face 2: neither method
  writes \<open>vertex.face\<close>, and \<open>_addVertexToHull\<close> reads \<open>eyeVertex.face\<close> after the
  removal.
\<close>

theorem face_reference_outlives_assigned_list:
  "reachable R3 \<and> l_head (assigned R3) = None \<and>
   4 < length (heap_v R3) \<and> v_face (heap_v R3 ! 4) = Some 2 \<and>
   \<not> resides (heap_v R3) (l_head (assigned R3)) 4 \<and>
   5 < length (heap_v R3) \<and> v_face (heap_v R3 ! 5) = Some 2 \<and>
   \<not> resides (heap_v R3) (l_head (assigned R3)) 5"
proof -
  have a: "l_head (assigned R3) = None" "4 < length (heap_v R3)" "5 < length (heap_v R3)"
    "v_face (heap_v R3 ! 4) = Some 2" "v_face (heap_v R3 ! 5) = Some 2"
    by (simp_all add: run_defs)
  have "\<not> resides (heap_v R3) (l_head (assigned R3)) v" for v
    unfolding a(1) by (rule not_resides_None)
  with a reachable_R3 show ?thesis by blast
qed

text \<open>
  C3, amended: in every reachable state a vertex that resides in the assigned list has a
  face (one direction only). The removal of the eye vertex and the move of the outside
  set of a deleted face to the unassigned list leave the face reference of every vertex
  as it was.
\<close>

theorem assigned_vertices_have_face:
  "(reachable h \<longrightarrow> resides (heap_v h) (l_head (assigned h)) v \<longrightarrow>
      v < length (heap_v h) \<and> v_face (heap_v h ! v) \<noteq> None) \<and>
   (removeVertexFromFace g u f = Some g' \<longrightarrow> u < length (heap_v g) \<longrightarrow>
      v_face (heap_v g' ! u) = v_face (heap_v g ! u)) \<and>
   (deleteFaceVertices fuel k f' None = Some k' \<longrightarrow>
      (\<forall>w < length (heap_v k). v_face (heap_v k' ! w) = v_face (heap_v k ! w)))"
proof (intro conjI impI)
  assume r: "reachable h" and s: "resides (heap_v h) (l_head (assigned h)) v"
  from reachable_J[OF r] have "linksOK (heap_v h)" "hasFace (heap_v h) (l_head (assigned h))"
    by (simp_all add: faceRefs_def listOK_def)
  from resides_hasFace[OF s this] have "v < length (heap_v h) \<and> v_face (heap_v h ! v) \<noteq> None"
    by (simp add: hasFace_def)
  then show "v < length (heap_v h)" "v_face (heap_v h ! v) \<noteq> None" by simp_all
next
  assume "removeVertexFromFace g u f = Some g'" "u < length (heap_v g)"
  with quiet_nodes[OF removeVertexFromFace_quiet] show "v_face (heap_v g' ! u) = v_face (heap_v g ! u)"
    by (simp add: nodesKept_def)
next
  assume "deleteFaceVertices fuel k f' None = Some k'"
  from deleteFaceVertices_None_kept[OF this]
  show "\<forall>w < length (heap_v k). v_face (heap_v k' ! w) = v_face (heap_v k ! w)"
    by (simp add: nodesKept_def)
qed

theorem assigned_vertices_have_face_witness:
  "reachable S3 \<and> resides (heap_v S3) (l_head (assigned S3)) 4 \<and>
   v_face (heap_v S3 ! 4) = Some 2 \<and>
   removeVertexFromFace (S3\<lparr> unassigned := clear (unassigned S3) \<rparr>) 4 2 = Some R1 \<and>
   v_face (heap_v R1 ! 4) = Some 2 \<and>
   (\<exists>k'. deleteFaceVertices 10 R1 2 None = Some k' \<and> v_face (heap_v k' ! 5) = Some 2)"
proof -
  have a: "l_head (assigned S3) = Some 5" "5 < length (heap_v S3)"
    "v_next (heap_v S3 ! 5) = Some 4" by (simp_all add: run_defs)
  have "resides (heap_v S3) (v_next (heap_v S3 ! 5)) 4" unfolding a(3) by (rule resides.here)
  then have "resides (heap_v S3) (Some 5) 4" by (rule resides.further[OF a(2)])
  then have r: "resides (heap_v S3) (l_head (assigned S3)) 4" by (simp only: a(1))
  have "\<exists>k'. deleteFaceVertices 10 R1 2 None = Some k'"
    by (simp add: run_defs deleteFaceVertices_def removeAllVerticesFromFace_def
        removeSubList_def appendChain_def set_outside_def set_prev_def set_next_def hp Let_def
        eval_nat_numeral)
  then obtain k' where d: "deleteFaceVertices 10 R1 2 None = Some k'" by blast
  have l: "4 < length (heap_v (S3\<lparr> unassigned := clear (unassigned S3) \<rparr>))"
    "5 < length (heap_v R1)" "v_face (heap_v R1 ! 5) = Some 2"
    by (simp_all add: run_defs)
  note t = assigned_vertices_have_face[of S3 4 "S3\<lparr> unassigned := clear (unassigned S3) \<rparr>" 4 2 R1
      10 R1 2 k']
  from t reachable_S3 r have 1: "v_face (heap_v S3 ! 4) \<noteq> None" by blast
  from t st_remove l(1) have 2: "v_face (heap_v R1 ! 4) = v_face (heap_v S3 ! 4)" by simp
  from t d l(2) have 3: "v_face (heap_v k' ! 5) = v_face (heap_v R1 ! 5)" by blast
  show ?thesis using reachable_S3 r st_remove 2 3 d l(3) S3_vertex4(2) by simp
qed

subsection \<open>The tolerance as the threshold of the outside sets\<close>

text \<open>
  What \<open>_computeHorizon\<close> does to the marks of the faces: planes, half-edges and the
  tolerance stay, and a face that is visible afterwards was visible before.
\<close>

lemma marksFall_refl [simp]: "marksFall h h" by (simp add: marksFall_def)



lemma marksFall_mark:
  "marksFall h h' \<Longrightarrow> g < length (heap_f h) \<Longrightarrow> f_mark (heap_f h' ! g) = Visible \<Longrightarrow>
   f_mark (heap_f h ! g) = Visible"
  by (simp add: marksFall_def)








lemma maxOfFour_max:
  "maxOfFour hf p js (md0, mf0) = Some (md, mf) \<Longrightarrow>
   md0 \<le> md \<and> (\<forall>j \<in> set js. j < length hf \<and> distanceToPoint (hf ! j) p \<le> md) \<and>
   ((md, mf) = (md0, mf0) \<or>
    (\<exists>j \<in> set js. mf = Some j \<and> md = distanceToPoint (hf ! j) p \<and> md0 < md))"
proof (induction js arbitrary: md0 mf0)
  case Nil then show ?case by simp
next
  case (Cons i js)
  from Cons.prems(1) obtain face :: Face where i: "lookup hf i = Some face"
    by (auto split: bind_splits)
  then have il: "i < length hf" "face = hf ! i" by (auto simp: lookup_def split: if_splits)
  show ?case
  proof (cases "distanceToPoint face p > md0")
    case True
    with Cons.prems i have "maxOfFour hf p js (distanceToPoint face p, Some i) = Some (md, mf)"
      by (auto simp: Let_def)
    from Cons.IH[OF this] True il show ?thesis by auto
  next
    case False
    with Cons.prems i have "maxOfFour hf p js (md0, mf0) = Some (md, mf)"
      by (auto simp: Let_def)
    from Cons.IH[OF this] False il show ?thesis by auto
  qed
qed





lemma specTolerance_nonneg: "0 \<le> specTolerance h"
  by (simp add: specTolerance_def EPSILON_def)





subsection \<open>Half-edges: cycles and twins\<close>




subsection \<open>The next vertex to add\<close>

lemma hdo_append [simp]: "hdo (as @ bs) n = hdo as (hdo bs n)"
  by (cases as) simp_all

lemma lasto_append [simp]: "lasto (as @ bs) p = lasto bs (lasto as p)"
  by (induction as arbitrary: p) simp_all

lemma lasto_snoc: "lasto (as @ [x]) p = Some x" by simp

lemma lasto_last: "xs \<noteq> [] \<Longrightarrow> lasto xs p = Some (last xs)"
  by (induction xs arbitrary: p) auto

lemma hdo_hd: "xs \<noteq> [] \<Longrightarrow> hdo xs p = Some (hd xs)"
  by (cases xs) auto

lemma seg_append [simp]:
  "seg hv p (as @ bs) n = (seg hv p as (hdo bs n) \<and> seg hv (lasto as p) bs n)"
  by (induction as arbitrary: p) auto

lemma seg_valid: "seg hv p xs n \<Longrightarrow> x \<in> set xs \<Longrightarrow> x < length hv"
  by (induction xs arbitrary: p) auto

lemma seg_upd_other [simp]: "x \<notin> set xs \<Longrightarrow> seg (hv[x := w]) p xs n = seg hv p xs n"
  by (induction xs arbitrary: p) auto

lemma seg_cong:
  "length hv' = length hv \<Longrightarrow> \<forall>x \<in> set xs. hv' ! x = hv ! x \<Longrightarrow> seg hv' p xs n = seg hv p xs n"
  by (induction xs arbitrary: p) auto

lemma relinked_refl [simp]: "relinked S hv hv" by (simp add: relinked_def)

lemma relinked_trans: "relinked S a b \<Longrightarrow> relinked T b c \<Longrightarrow> relinked (S \<union> T) a c"
  by (simp add: relinked_def)

lemma relinked_mono: "relinked S a b \<Longrightarrow> S \<subseteq> T \<Longrightarrow> relinked T a b"
  by (auto simp: relinked_def)

lemma relinked_seg:
  "relinked S hv hv' \<Longrightarrow> set xs \<inter> S = {} \<Longrightarrow> seg hv p xs n \<Longrightarrow> seg hv' p xs n"
proof -
  assume r: "relinked S hv hv'" and d: "set xs \<inter> S = {}" and s: "seg hv p xs n"
  have "\<forall>x \<in> set xs. hv' ! x = hv ! x"
    using r d seg_valid[OF s] by (auto simp: relinked_def)
  with seg_cong[of hv' hv xs p n] r s show ?thesis by (simp add: relinked_def)
qed

lemma relinked_dl:
  "relinked S hv hv' \<Longrightarrow> set xs \<inter> S = {} \<Longrightarrow> dl hv l xs \<Longrightarrow> dl hv' l xs"
  by (auto simp: dl_def intro: relinked_seg)

lemma append_dl:
  assumes "dl hv l xs" "v \<notin> set xs" "v < length hv"
  shows "\<exists>l' hv'. append (l, hv) v = Some (l', hv') \<and> dl hv' l' (xs @ [v]) \<and>
           relinked (insert v (set xs)) hv hv'"
proof (cases xs rule: rev_cases)
  case Nil
  with assms show ?thesis
    by (auto simp: dl_def append_def set_prev_def set_next_def relinked_def nth_list_update)
next
  case (snoc ys t)
  with assms have t: "t < length hv" "t \<noteq> v" "t \<notin> set ys" "v \<notin> set ys"
    by (auto simp: dl_def)
  from snoc assms have h: "l_head l \<noteq> None" by (cases ys) (auto simp: dl_def)
  from snoc assms t h show ?thesis
    by (auto simp: dl_def append_def set_prev_def set_next_def relinked_def nth_list_update)
qed

lemma insertBefore_dl:
  assumes "dl hv l (as @ t # cs)" "v \<notin> set (as @ t # cs)" "v < length hv"
  shows "\<exists>l' hv'. insertBefore (l, hv) t v = Some (l', hv') \<and> dl hv' l' (as @ v # t # cs) \<and>
           relinked (insert v (set (as @ t # cs))) hv hv'"
proof (cases as rule: rev_cases)
  case Nil
  with assms show ?thesis
    by (auto simp: dl_def insertBefore_def set_prev_def set_next_def relinked_def nth_list_update
        lookup_def)
next
  case (snoc ys p)
  with assms have t: "p < length hv" "p \<noteq> v" "p \<notin> set ys" "v \<notin> set ys" "t < length hv" "t \<noteq> v"
      "t \<noteq> p" "t \<notin> set ys" "t \<notin> set cs" "v \<notin> set cs" "p \<notin> set cs"
    by (auto simp: dl_def)
  from snoc assms t show ?thesis
    by (auto simp: dl_def insertBefore_def set_prev_def set_next_def relinked_def nth_list_update
        lookup_def)
qed

lemma remove_dl:
  assumes "dl hv l (as @ v # cs)"
  shows "\<exists>l' hv'. remove (l, hv) v = Some (l', hv') \<and> dl hv' l' (as @ cs) \<and>
           relinked (set (as @ cs)) hv hv' \<and> hv' ! v = hv ! v"
proof (cases as rule: rev_cases)
  case Nil
  note a = Nil
  show ?thesis
  proof (cases cs)
    case Nil
    with a assms show ?thesis
      by (auto simp: dl_def remove_def set_prev_def set_next_def relinked_def nth_list_update
          lookup_def)
  next
    case (Cons c cs')
    with a assms show ?thesis
      by (auto simp: dl_def remove_def set_prev_def set_next_def relinked_def nth_list_update
          lookup_def)
  qed
next
  case (snoc ys p)
  note a = snoc
  show ?thesis
  proof (cases cs)
    case Nil
    with a assms show ?thesis
      by (auto simp: dl_def remove_def set_prev_def set_next_def relinked_def nth_list_update
          lookup_def)
  next
    case (Cons c cs')
    with a assms show ?thesis
      by (auto simp: dl_def remove_def set_prev_def set_next_def relinked_def nth_list_update
          lookup_def)
  qed
qed

lemma removeSubList_dl:
  assumes "dl hv l (as @ b @ cs)" "b \<noteq> []"
  shows "\<exists>l' hv1 hv2 hv'. removeSubList (l, hv) (hd b) (last b) = Some (l', hv1) \<and>
           set_next hv1 (last b) None = Some hv2 \<and> set_prev hv2 (hd b) None = Some hv' \<and>
           dl hv' l' (as @ cs) \<and> seg hv' None b None \<and> relinked (set (as @ b @ cs)) hv hv'"
proof -
  from assms(2) obtain s m where b: "b = s # m" by (cases b) auto
  show ?thesis
  proof (cases m rule: rev_cases)
    case Nil
    note m = Nil
    show ?thesis
    proof (cases as rule: rev_cases)
      case Nil
      note a = Nil
      show ?thesis
      proof (cases cs)
        case Nil
        with a b m assms show ?thesis
          by (auto simp: dl_def removeSubList_def set_prev_def set_next_def relinked_def
              nth_list_update lookup_def)
      next
        case (Cons c cs')
        with a b m assms show ?thesis
          by (auto simp: dl_def removeSubList_def set_prev_def set_next_def relinked_def
              nth_list_update lookup_def)
      qed
    next
      case (snoc ys p)
      note a = snoc
      show ?thesis
      proof (cases cs)
        case Nil
        with a b m assms show ?thesis
          by (auto simp: dl_def removeSubList_def set_prev_def set_next_def relinked_def
              nth_list_update lookup_def)
      next
        case (Cons c cs')
        with a b m assms show ?thesis
          by (auto simp: dl_def removeSubList_def set_prev_def set_next_def relinked_def
              nth_list_update lookup_def)
      qed
    qed
  next
    case (snoc m' e)
    note m = snoc
    show ?thesis
    proof (cases as rule: rev_cases)
      case Nil
      note a = Nil
      show ?thesis
      proof (cases cs)
        case Nil
        with a b m assms show ?thesis
          by (auto simp: dl_def removeSubList_def set_prev_def set_next_def relinked_def
              nth_list_update lookup_def)
      next
        case (Cons c cs')
        with a b m assms show ?thesis
          by (auto simp: dl_def removeSubList_def set_prev_def set_next_def relinked_def
              nth_list_update lookup_def)
      qed
    next
      case (snoc ys p)
      note a = snoc
      show ?thesis
      proof (cases cs)
        case Nil
        with a b m assms show ?thesis
          by (auto simp: dl_def removeSubList_def set_prev_def set_next_def relinked_def
              nth_list_update lookup_def)
      next
        case (Cons c cs')
        with a b m assms show ?thesis
          by (auto simp: dl_def removeSubList_def set_prev_def set_next_def relinked_def
              nth_list_update lookup_def)
      qed
    qed
  qed
qed

lemma chainEnd_seg:
  "seg hv p b None \<Longrightarrow> b \<noteq> [] \<Longrightarrow> chainEnd n hv (hd b) = Some z \<Longrightarrow> z = last b"
proof (induction n arbitrary: b p)
  case 0
  then show ?case by simp
next
  case (Suc n)
  from Suc.prems(2) obtain s m where b: "b = s # m" by (cases b) auto
  show ?case
  proof (cases m)
    case Nil
    with b Suc.prems show ?thesis by (auto simp: lookup_def)
  next
    case (Cons c m')
    with b Suc.prems have "seg hv (Some s) m None" "m \<noteq> []" "chainEnd n hv (hd m) = Some z"
      by (auto simp: lookup_def)
    from Suc.IH[OF this] b Cons show ?thesis by simp
  qed
qed

lemma chainEnd_seg_total:
  "seg hv p b None \<Longrightarrow> b \<noteq> [] \<Longrightarrow> length b \<le> n \<Longrightarrow> chainEnd n hv (hd b) = Some (last b)"
proof (induction n arbitrary: b p)
  case 0
  then show ?case by simp
next
  case (Suc n)
  from Suc.prems(2) obtain s m where b: "b = s # m" by (cases b) auto
  show ?case
  proof (cases m)
    case Nil
    with b Suc.prems show ?thesis by (auto simp: lookup_def)
  next
    case (Cons c m')
    with b Suc.prems have "seg hv (Some s) m None" "m \<noteq> []" "length m \<le> n"
      by (auto simp: lookup_def)
    from Suc.IH[OF this] b Cons Suc.prems(1) show ?thesis by (simp add: lookup_def)
  qed
qed

lemma lasto_Some: "lasto xs (Some p) \<noteq> None"
  by (induction xs arbitrary: p) auto

lemma dl_snoc_head: "dl hv l (ys @ [t]) \<Longrightarrow> l_head l \<noteq> None \<and> l_tail l = Some t"
  by (cases ys) (auto simp: dl_def)

lemma appendChain_dl:
  assumes "dl hv l ys" "seg hv None b None" "distinct b" "b \<noteq> []" "set b \<inter> set ys = {}"
    and "appendChain n (l, hv) (hd b) = Some (l', hv')"
  shows "dl hv' l' (ys @ b) \<and> relinked (set ys \<union> set b) hv hv'"
proof -
  from assms(4) obtain s m where b: "b = s # m" by (cases b) auto
  from assms(2) b have sv: "s < length hv" by simp
  show ?thesis
  proof (cases ys rule: rev_cases)
    case Nil
    let ?hv1 = "hv[s := (hv ! s)\<lparr> v_prev := None \<rparr>]"
    from Nil assms(1) have l: "l_head l = None" "l_tail l = None" by (simp_all add: dl_def)
    from assms(6) l b sv obtain z where z: "chainEnd n ?hv1 (hd b) = Some z"
      and r: "l' = l\<lparr> l_head := Some s, l_tail := Some z \<rparr>" "hv' = ?hv1"
      by (auto simp: appendChain_def set_prev_def split: bind_splits)
    from assms(2,3) b have s1: "seg ?hv1 None b None" by (simp add: nth_list_update)
    from chainEnd_seg[OF s1 assms(4) z] have zl: "z = last b" .
    from b have hb: "hdo b None = Some s" by simp
    have 1: "dl hv' l' (ys @ b)" using Nil assms(3) r s1 zl hb lasto_last[OF assms(4), of None]
      by (simp add: dl_def)
    have 2: "relinked (set ys \<union> set b) hv hv'" using r b sv assms(2)
      by (simp add: relinked_def nth_list_update)
    from 1 2 show ?thesis by simp
  next
    case (snoc ys' t)
    with assms(1) have sg: "seg hv None ys' (Some t)" "seg hv (lasto ys' None) [t] None"
      and di: "distinct ys'" "t \<notin> set ys'"
      by (simp_all add: dl_def)
    from sg(2) have t: "t < length hv" "v_next (hv ! t) = None" "v_prev (hv ! t) = lasto ys' None" by simp_all
    from snoc assms(5) have tb: "t \<notin> set b" "set b \<inter> set ys' = {}" by auto
    from dl_snoc_head[of hv l ys' t] snoc assms(1) have hd: "l_head l \<noteq> None" "l_tail l = Some t" by simp_all
    let ?hv1 = "hv[t := (hv ! t)\<lparr> v_next := Some s \<rparr>]"
    let ?hv2 = "?hv1[s := (?hv1 ! s)\<lparr> v_prev := Some t \<rparr>]"
    from assms(6) hd b t sv obtain z where z: "chainEnd n ?hv2 (hd b) = Some z"
      and r: "l' = l\<lparr> l_tail := Some z \<rparr>" "hv' = ?hv2"
      by (auto simp: appendChain_def set_prev_def set_next_def split: bind_splits)
    from tb b have ts: "t \<noteq> s" "t \<notin> set m" "s \<notin> set ys'" by auto
    from assms(2,3) b ts have s2: "seg ?hv2 (Some t) b None"
      by (simp add: nth_list_update)
    from chainEnd_seg[OF s2 assms(4) z] have zl: "z = last b" .
    from di assms(3) tb have d: "distinct (ys' @ [t] @ b)" by auto
    from sg(1) ts di have s1: "seg ?hv2 None ys' (Some t)" by simp
    from t ts sv have s3: "seg ?hv2 (lasto ys' None) [t] (Some s)"
      by (simp add: nth_list_update)
    from b have hb: "hdo b None = Some s" "hdo b (Some s) = Some s" by simp_all
    have lb: "lasto b (Some t) = Some (last b)" by (rule lasto_last[OF assms(4)])
    have hy: "l_head l = hdo ys' (Some t)" using assms(1) snoc by (simp add: dl_def)
    from d s1 s2 s3 snoc r zl hd hb lb hy have "dl hv' l' (ys @ b)"
      by (simp add: dl_def)
    moreover have "relinked (set ys \<union> set b) hv hv'" using r snoc b t sv
      by (simp add: relinked_def nth_list_update)
    ultimately show ?thesis by simp
  qed
qed

lemma outsideRun_block:
  assumes "seg hv p b nx" "b \<noteq> []" "\<forall>x \<in> set b. v_face (hv ! x) = Some f" "blockEnd hv f nx"
  shows "(outsideRun n hv f (hd b) = Some r \<longrightarrow> r = b) \<and>
         (length b \<le> n \<longrightarrow> outsideRun n hv f (hd b) = Some b)"
  using assms
proof (induction n arbitrary: b p r)
  case 0
  then show ?case by simp
next
  case (Suc n)
  from Suc.prems(2) obtain s m where b: "b = s # m" by (cases b) auto
  show ?case
  proof (cases m)
    case Nil
    with b Suc.prems show ?thesis
      by (cases nx) (auto simp: lookup_def blockEnd_def)
  next
    case (Cons c m')
    with b Suc.prems have 1: "seg hv (Some s) m nx" "m \<noteq> []" "\<forall>x \<in> set m. v_face (hv ! x) = Some f"
      by auto
    from b Cons Suc.prems have 2: "s < length hv" "v_next (hv ! s) = Some c" "c < length hv"
      "v_face (hv ! c) = Some f" "hd m = c" by auto
    note ih = Suc.IH[OF 1 Suc.prems(4)]
    show ?thesis
    proof (intro conjI impI)
      assume "outsideRun (Suc n) hv f (hd b) = Some r"
      with b 2 obtain vs where "outsideRun n hv f c = Some vs" "r = s # vs"
        by (auto simp: lookup_def split: bind_splits)
      with ih[of vs] 2 b show "r = b" by simp
    next
      assume "length b \<le> Suc n"
      with b have "length m \<le> n" by simp
      with ih[of b] 2 b show "outsideRun (Suc n) hv f (hd b) = Some b"
        by (simp add: lookup_def)
    qed
  qed
qed

lemma runEnd_block:
  assumes "seg hv p b nx" "b \<noteq> []" "\<forall>x \<in> set b. v_face (hv ! x) = Some f" "blockEnd hv f nx"
    and "runEnd n hv f (hd b) = Some z"
  shows "z = last b"
  using assms
proof (induction n arbitrary: b p)
  case 0
  then show ?case by simp
next
  case (Suc n)
  from Suc.prems(2) obtain s m where b: "b = s # m" by (cases b) auto
  show ?case
  proof (cases m)
    case Nil
    with b Suc.prems show ?thesis
      by (cases nx) (auto simp: lookup_def blockEnd_def split: if_splits)
  next
    case (Cons c m')
    with b Suc.prems have 1: "seg hv (Some s) m nx" "m \<noteq> []" "\<forall>x \<in> set m. v_face (hv ! x) = Some f"
      by auto
    from b Cons Suc.prems have 2: "s < length hv" "v_next (hv ! s) = Some c" "c < length hv"
      "v_face (hv ! c) = Some f" "hd m = c" by auto
    from Suc.prems(5) b 2 have "runEnd n hv f (hd m) = Some z" by (simp add: lookup_def)
    from Suc.IH[OF 1 Suc.prems(4) this] b Cons show ?thesis by simp
  qed
qed

lemma nextVertexLoop_run:
  "nextVertexLoop n hv f ef v acc = Some r \<Longrightarrow> \<exists>run. outsideRun n hv f v = Some run"
proof (induction n arbitrary: v acc)
  case 0
  then show ?case by simp
next
  case (Suc n)
  obtain ev md where acc: "acc = (ev, md)" by (cases acc)
  from Suc.prems acc obtain node :: VertexNode where node: "lookup hv v = Some node"
    by (auto split: bind_splits)
  show ?case
  proof (cases "v_next node")
    case None
    with node show ?thesis by simp
  next
    case (Some nx)
    with Suc.prems acc node obtain nn :: VertexNode where nn: "lookup hv nx = Some nn"
      by (auto simp: Let_def split: bind_splits prod.splits)
    show ?thesis
    proof (cases "v_face nn = Some f")
      case False
      with node Some nn show ?thesis by simp
    next
      case True
      with Suc.prems acc node Some nn obtain a where
        "nextVertexLoop n hv f ef nx a = Some r"
        by (auto simp: Let_def split: prod.splits if_splits)
      from Suc.IH[OF this] node Some nn True show ?thesis by auto
    qed
  qed
qed

lemma blocks_hdo:
  assumes "blocksOK h bs"
  shows "hdo (concat (map snd bs)) None = (case bs of [] \<Rightarrow> None | fb # _ \<Rightarrow> Some (hd (snd fb)))"
proof (cases bs)
  case Nil
  then show ?thesis by simp
next
  case (Cons fb rest)
  with assms have "snd fb \<noteq> []" by (simp add: blocksOK_def)
  then obtain s m where "snd fb = s # m" by (cases "snd fb") auto
  with Cons show ?thesis by simp
qed

lemma blocks_tail:
  assumes "blocksOK h (fb # rest)"
  shows "distinct (map fst rest) \<and> (\<forall>gc \<in> set rest. snd gc \<noteq> [] \<and> fst gc \<noteq> fst fb \<and>
     (\<forall>x \<in> set (snd gc). v_face (heap_v h ! x) = Some (fst gc)))"
proof -
  from assms have d: "fst fb \<notin> fst ` set rest" "distinct (map fst rest)"
    by (simp_all add: blocksOK_def)
  from assms have a: "\<forall>gc \<in> set rest. snd gc \<noteq> [] \<and>
     (\<forall>x \<in> set (snd gc). v_face (heap_v h ! x) = Some (fst gc))"
    by (simp add: blocksOK_def)
  have "fst gc \<noteq> fst fb" if "gc \<in> set rest" for gc
  proof
    assume "fst gc = fst fb"
    with that have "fst fb \<in> fst ` set rest" by (metis imageI)
    with d(1) show False by simp
  qed
  with d a show ?thesis by blast
qed

lemma blocks_blockEnd:
  assumes "distinct (map fst rest)" "\<forall>gc \<in> set rest. snd gc \<noteq> [] \<and> fst gc \<noteq> f \<and>
     (\<forall>x \<in> set (snd gc). v_face (hv ! x) = Some (fst gc))"
    and "seg hv p (concat (map snd rest)) n"
  shows "blockEnd hv f (hdo (concat (map snd rest)) None)"
proof (cases rest)
  case Nil
  then show ?thesis by (simp add: blockEnd_def)
next
  case (Cons gc rest')
  with assms(2) have ne: "snd gc \<noteq> []" by simp
  then obtain s m where sm: "snd gc = s # m" by (cases "snd gc") auto
  with Cons assms(2) have "v_face (hv ! s) = Some (fst gc)" "fst gc \<noteq> f" by auto
  moreover from Cons sm assms(3) have "s < length hv" by simp
  ultimately show ?thesis using Cons sm by (simp add: blockEnd_def)
qed

lemma nextVertexToAdd_blocks:
  assumes ok: "assignedOK h bs" and ne: "isEmpty (assigned h) = False"
    and oi: "outsideInv h" and tol: "0 \<le> tolerance h"
  shows "\<exists>f b rest e. bs = (f, b) # rest \<and> b \<noteq> [] \<and> first (assigned h) = Some (hd b) \<and>
      f < length (heap_f h) \<and> f_outside (heap_f h ! f) = Some (hd b) \<and>
      (\<forall>n. length b \<le> n \<longrightarrow> outsideRun n (heap_v h) f (hd b) = Some b \<and>
                               nextVertexToAdd n h = Some (Some e)) \<and>
      (\<forall>n r. nextVertexToAdd n h = Some r \<longrightarrow> r = Some e) \<and>
      e \<in> set b \<and>
      tolerance h < distanceToPoint (heap_f h ! f) (v_point (heap_v h ! e)) \<and>
      (\<forall>u \<in> set b. distanceToPoint (heap_f h ! f) (v_point (heap_v h ! u))
           \<le> distanceToPoint (heap_f h ! f) (v_point (heap_v h ! e))) \<and>
      (\<forall>u \<in> set (takeWhile (\<lambda>u. u \<noteq> e) b).
           distanceToPoint (heap_f h ! f) (v_point (heap_v h ! u))
           < distanceToPoint (heap_f h ! f) (v_point (heap_v h ! e)))"
proof -
  let ?hv = "heap_v h"
  let ?xs = "concat (map snd bs)"
  from ok have d: "dl ?hv (assigned h) ?xs" and bl: "blocksOK h bs" by (simp_all add: assignedOK_def)
  from ne d have "hdo ?xs None \<noteq> None" by (simp add: isEmpty_def dl_def)
  with blocks_hdo[OF bl] obtain fb rest where bs: "bs = fb # rest" by (cases bs) auto
  obtain f b where fb: "fb = (f, b)" by (cases fb)
  from bl bs fb have b: "b \<noteq> []" "f < length (heap_f h)" "f_outside (heap_f h ! f) = Some (hd b)"
    "\<forall>x \<in> set b. v_face (?hv ! x) = Some f \<and> x \<in> set (vertices h)"
    by (auto simp: blocksOK_def)
  from d bs fb blocks_hdo[OF bl] have hd: "first (assigned h) = Some (hd b)"
    by (simp add: dl_def first_def)
  let ?X = "concat (map snd rest)"
  from d bs fb have sg: "seg ?hv None b (hdo ?X None)" "seg ?hv (lasto b None) ?X None"
    by (simp_all add: dl_def)
  note t = blocks_tail[OF bl[unfolded bs]]
  have be: "blockEnd ?hv f (hdo ?X None)"
    by (rule blocks_blockEnd[OF _ _ sg(2)]) (use t fb in auto)
  from b(4) have bf: "\<forall>x \<in> set b. v_face (?hv ! x) = Some f" by simp
  note run = outsideRun_block[OF sg(1) b(1) bf be]
  let ?d = "\<lambda>u. distanceToPoint (heap_f h ! f) (v_point (?hv ! u))"
  obtain r0 m where rm: "foldl (farther ?d) (None, 0) b = (r0, m)"
    by (cases "foldl (farther ?d) (None, 0) b")
  note ff = farthest_fold[OF rm]
  have pos: "tolerance h < ?d u" if "u \<in> set b" for u
  proof -
    from that b(4) have "u \<in> set (vertices h)" "v_face (?hv ! u) = Some f" by auto
    moreover from that seg_valid[OF sg(1)] have "u < length ?hv" by simp
    ultimately show ?thesis using oi by (auto simp: outsideInv_def)
  qed
  from b(1) have "hd b \<in> set b" by simp
  with pos[of "hd b"] ff tol have "0 < m" by force
  with ff obtain e where e: "r0 = Some e" "e \<in> set b" "?d e = m"
    "\<forall>u \<in> set (takeWhile (\<lambda>u. u \<noteq> e) b). ?d u < m" by auto
  from seg_valid[OF sg(1)] \<open>hd b \<in> set b\<close> have hv: "hd b < length ?hv" by simp
  have nv: "nextVertexToAdd n h = nextVertexLoop n ?hv f (heap_f h ! f) (hd b) (None, 0)" for n
    using ne hd hv b bf \<open>hd b \<in> set b\<close>
    by (simp add: nextVertexToAdd_def lookup_def deref_def)
  have tot: "outsideRun n ?hv f (hd b) = Some b \<and> nextVertexToAdd n h = Some (Some e)"
    if "length b \<le> n" for n
  proof -
    from run[of n] that have o: "outsideRun n ?hv f (hd b) = Some b" by simp
    from nextVertexLoop_fold[OF o, of "heap_f h ! f" "(None, 0)"] rm e(1) nv o show ?thesis by simp
  qed
  have par: "r = Some e" if "nextVertexToAdd n h = Some r" for n r
  proof -
    from that nv have l: "nextVertexLoop n ?hv f (heap_f h ! f) (hd b) (None, 0) = Some r" by simp
    from nextVertexLoop_run[OF l] obtain rn where o: "outsideRun n ?hv f (hd b) = Some rn" by blast
    with run[of n rn] have "rn = b" by simp
    with nextVertexLoop_fold[OF o, of "heap_f h ! f" "(None, 0)"] l rm e(1) show ?thesis by simp
  qed
  from ff e have mx: "\<forall>u \<in> set b. ?d u \<le> ?d e" by simp
  from e have st: "\<forall>u \<in> set (takeWhile (\<lambda>u. u \<noteq> e) b). ?d u < ?d e" by simp
  from bs fb b hd tot par e(2) pos[OF e(2)] mx st show ?thesis by blast
qed

lemma blocks_find:
  assumes "blocksOK h bs" "f < length (heap_f h)" "f_outside (heap_f h ! f) = Some out"
  shows "\<exists>B1 b B2. bs = B1 @ (f, b) # B2 \<and> hd b = out"
proof -
  from assms have "f \<in> fst ` set bs" by (simp add: blocksOK_def)
  then obtain b where b: "(f, b) \<in> set bs" by force
  with assms(1) have "f_outside (heap_f h ! f) = Some (hd b)" by (force simp: blocksOK_def)
  with assms(3) have "hd b = out" by simp
  with split_list[OF b] show ?thesis by blast
qed

lemma blocks_vertex:
  "x \<in> set (concat (map snd bs)) \<Longrightarrow> \<exists>B1 f b B2. bs = B1 @ (f, b) # B2 \<and> x \<in> set b"
proof -
  assume "x \<in> set (concat (map snd bs))"
  then obtain fb where fb: "fb \<in> set bs" "x \<in> set (snd fb)" by auto
  from split_list[OF fb(1)] obtain B1 B2 where "bs = B1 @ fb # B2" by blast
  with fb(2) show ?thesis by (cases fb) auto
qed

lemma blocksOK_step:
  assumes b: "blocksOK h bs"
    and l: "length (heap_f h') = length (heap_f h)" "vertices h' = vertices h"
    and m: "\<forall>g < length (heap_f h). f_mark (heap_f h' ! g) = f_mark (heap_f h ! g)"
    and o: "\<forall>g < length (heap_f h). g \<noteq> f \<longrightarrow> f_outside (heap_f h' ! g) = f_outside (heap_f h ! g)"
    and vf: "\<forall>x \<in> set (concat (map snd bs)). x \<notin> S \<longrightarrow> v_face (heap_v h' ! x) = v_face (heap_v h ! x)"
    and sub: "set bs' \<subseteq> insert (f, c) (set bs)" "distinct (map fst bs')"
    and ff: "\<forall>fb \<in> set bs'. fst fb = f \<longrightarrow> fb = (f, c)"
    and S: "\<forall>fb \<in> set bs'. fst fb \<noteq> f \<longrightarrow> set (snd fb) \<inter> S = {}"
    and c: "(f, c) \<in> set bs' \<longrightarrow> c \<noteq> [] \<and> f < length (heap_f h) \<and> f_mark (heap_f h ! f) = Visible \<and>
          f_outside (heap_f h' ! f) = Some (hd c) \<and>
          (\<forall>x \<in> set c. v_face (heap_v h' ! x) = Some f \<and> x \<in> set (vertices h))"
    and n: "f < length (heap_f h) \<longrightarrow> f_outside (heap_f h' ! f) \<noteq> None \<longrightarrow> (f, c) \<in> set bs'"
    and keep: "\<forall>fb \<in> set bs. fst fb \<noteq> f \<longrightarrow> fb \<in> set bs'"
  shows "blocksOK h' bs'"
  unfolding blocksOK_def
proof (intro conjI ballI allI impI)
  show "distinct (map fst bs')" by (rule sub(2))
next
  fix fb assume fb: "fb \<in> set bs'"
  show "snd fb \<noteq> []" "fst fb < length (heap_f h')" "f_mark (heap_f h' ! fst fb) = Visible"
    "f_outside (heap_f h' ! fst fb) = Some (hd (snd fb))"
  proof -
    have "snd fb \<noteq> [] \<and> fst fb < length (heap_f h') \<and> f_mark (heap_f h' ! fst fb) = Visible \<and>
      f_outside (heap_f h' ! fst fb) = Some (hd (snd fb))"
    proof (cases "fst fb = f")
      case True
      with ff fb have "fb = (f, c)" by simp
      with fb c l m show ?thesis by simp
    next
      case False
      with sub(1) fb have "fb \<in> set bs" by (cases fb) auto
      with b have "snd fb \<noteq> [] \<and> fst fb < length (heap_f h) \<and> f_mark (heap_f h ! fst fb) = Visible \<and>
        f_outside (heap_f h ! fst fb) = Some (hd (snd fb))" by (simp add: blocksOK_def)
      with False l m o show ?thesis by simp
    qed
    then show "snd fb \<noteq> []" "fst fb < length (heap_f h')" "f_mark (heap_f h' ! fst fb) = Visible"
      "f_outside (heap_f h' ! fst fb) = Some (hd (snd fb))" by simp_all
  qed
  fix x assume x: "x \<in> set (snd fb)"
  have "v_face (heap_v h' ! x) = Some (fst fb) \<and> x \<in> set (vertices h')"
  proof (cases "fst fb = f")
    case True
    with ff fb have "fb = (f, c)" by simp
    with fb c l x show ?thesis by simp
  next
    case False
    with sub(1) fb have in_bs: "fb \<in> set bs" by (cases fb) auto
    with b x have 1: "v_face (heap_v h ! x) = Some (fst fb)" "x \<in> set (vertices h)"
      by (simp_all add: blocksOK_def)
    from in_bs x have "x \<in> set (concat (map snd bs))" by auto
    moreover from S fb False x have "x \<notin> S" by auto
    ultimately have "v_face (heap_v h' ! x) = v_face (heap_v h ! x)" using vf by blast
    with 1 l show ?thesis by simp
  qed
  then show "v_face (heap_v h' ! x) = Some (fst fb)" "x \<in> set (vertices h')" by simp_all
next
  fix g assume g: "g < length (heap_f h')" "f_outside (heap_f h' ! g) \<noteq> None"
  show "g \<in> fst ` set bs'"
  proof (cases "g = f")
    case True
    with g n l have "(f, c) \<in> set bs'" by simp
    with True show ?thesis by force
  next
    case False
    with g o l have "f_outside (heap_f h ! g) \<noteq> None" by simp
    with b g l have "g \<in> fst ` set bs" by (simp add: blocksOK_def)
    then obtain fb where "fb \<in> set bs" "fst fb = g" by auto
    with keep False show ?thesis by force
  qed
qed

lemma dl_upd_other:
  "dl hv l xs \<Longrightarrow> x \<notin> set xs \<Longrightarrow> dl (hv[x := w]) l xs"
  by (simp add: dl_def)

lemma blocks_fst_unique:
  assumes "distinct (map fst (B1 @ (f, b) # B2))" "fb \<in> set (B1 @ (f, c) # B2)" "fst fb = f"
  shows "fb = (f, c)"
proof -
  from assms(1) have "f \<notin> fst ` set B1" "f \<notin> fst ` set B2" by auto
  with assms(2,3) show ?thesis by (force simp: image_iff)
qed

lemma blocks_fst_other:
  assumes "distinct (map fst (B1 @ (f, b) # B2))" "fb \<in> set (B1 @ B2)"
  shows "fst fb \<noteq> f"
proof -
  from assms(1) have "f \<notin> fst ` set B1" "f \<notin> fst ` set B2" by auto
  with assms(2) show ?thesis by (force simp: image_iff)
qed

lemma addVertexToFace_blocks:
  assumes ok: "assignedOK h bs" and v: "v \<notin> set (concat (map snd bs))" "v \<in> set (vertices h)"
    and m: "f_mark (heap_f h ! f) = Visible"
    and a: "addVertexToFace h v f = Some h'"
  shows "\<exists>bs'. assignedOK h' bs' \<and>
      set (concat (map snd bs')) = insert v (set (concat (map snd bs))) \<and>
      listStep (insert v (set (concat (map snd bs)))) h h'"
proof -
  let ?hv = "heap_v h"
  let ?xs = "concat (map snd bs)"
  from ok have d: "dl ?hv (assigned h) ?xs" and bl: "blocksOK h bs" by (simp_all add: assignedOK_def)
  from a obtain hv1 l hv2 hf and fr :: Face where
    s1: "set_face ?hv v (Some f) = Some hv1" and
    fl: "lookup (heap_f h) f = Some fr" and
    s2: "(case f_outside fr of None \<Rightarrow> append (assigned h, hv1) v
          | Some out \<Rightarrow> insertBefore (assigned h, hv1) out v) = Some (l, hv2)" and
    s3: "set_outside (heap_f h) f (Some v) = Some hf" and
    h': "h' = h\<lparr> assigned := l, heap_v := hv2, heap_f := hf \<rparr>"
    by (auto simp: addVertexToFace_def split: bind_splits)
  from s1 have vl: "v < length ?hv" and hv1: "hv1 = ?hv[v := (?hv ! v)\<lparr> v_face := Some f \<rparr>]"
    by (auto simp: set_face_def split: if_splits)
  from fl have f: "f < length (heap_f h)" "fr = heap_f h ! f"
    by (auto simp: lookup_def split: if_splits)
  from s3 have hf: "hf = (heap_f h)[f := (heap_f h ! f)\<lparr> f_outside := Some v \<rparr>]"
    by (auto simp: set_outside_def split: if_splits)
  from d v(1) have d1: "dl hv1 (assigned h) ?xs" unfolding hv1 by (rule dl_upd_other)
  have len1: "length hv1 = length ?hv" by (simp add: hv1)
  have face1: "v_face (hv1 ! x) = (if x = v then Some f else v_face (?hv ! x))" if "x < length ?hv" for x
    using that by (simp add: hv1 nth_list_update)
  have hfm: "\<forall>g < length (heap_f h). f_mark (hf ! g) = f_mark (heap_f h ! g)"
    using f by (simp add: hf nth_list_update)
  have hfo: "\<forall>g < length (heap_f h). g \<noteq> f \<longrightarrow> f_outside (hf ! g) = f_outside (heap_f h ! g)"
    by (simp add: hf)
  have hff: "f_outside (hf ! f) = Some v" using f by (simp add: hf)
  have xsv: "\<forall>x \<in> set ?xs. x < length ?hv" using d seg_valid[of ?hv None ?xs None]
    by (auto simp: dl_def)
  show ?thesis
  proof (cases "f_outside fr")
    case None
    with s2 have ap: "append (assigned h, hv1) v = Some (l, hv2)" by simp
    from append_dl[OF d1 v(1)] vl len1 ap have d2: "dl hv2 l (?xs @ [v])"
      and r: "relinked (insert v (set ?xs)) hv1 hv2" by auto
    have fn: "f \<notin> fst ` set bs"
    proof
      assume "f \<in> fst ` set bs"
      then obtain b where "(f, b) \<in> set bs" by force
      with bl have "f_outside (heap_f h ! f) = Some (hd b)" by (force simp: blocksOK_def)
      with None f show False by simp
    qed
    let ?bs' = "bs @ [(f, [v])]"
    have vf: "\<forall>x \<in> set ?xs. x \<notin> {v} \<longrightarrow> v_face (heap_v h' ! x) = v_face (?hv ! x)"
      using r xsv face1 by (auto simp: h' relinked_def len1)
    have vv: "v_face (heap_v h' ! v) = Some f" using r vl face1[of v] by (simp add: h' relinked_def len1)
    have b': "blocksOK h' ?bs'"
    proof (rule blocksOK_step[OF bl, where f = f and c = "[v]" and S = "{v}"])
      show "length (heap_f h') = length (heap_f h)" by (simp add: h' hf)
      show "vertices h' = vertices h" by (simp add: h')
      show "\<forall>g < length (heap_f h). f_mark (heap_f h' ! g) = f_mark (heap_f h ! g)"
        using hfm by (simp add: h')
      show "\<forall>g < length (heap_f h). g \<noteq> f \<longrightarrow> f_outside (heap_f h' ! g) = f_outside (heap_f h ! g)"
        using hfo by (simp add: h')
      show "\<forall>x \<in> set ?xs. x \<notin> {v} \<longrightarrow> v_face (heap_v h' ! x) = v_face (?hv ! x)" by (rule vf)
      show "set ?bs' \<subseteq> insert (f, [v]) (set bs)" by auto
      show "distinct (map fst ?bs')" using bl fn by (simp add: blocksOK_def)
      show "\<forall>fb \<in> set ?bs'. fst fb = f \<longrightarrow> fb = (f, [v])" using fn by force
      show "\<forall>fb \<in> set ?bs'. fst fb \<noteq> f \<longrightarrow> set (snd fb) \<inter> {v} = {}" using v(1) by auto
      show "(f, [v]) \<in> set ?bs' \<longrightarrow> [v] \<noteq> [] \<and> f < length (heap_f h) \<and>
          f_mark (heap_f h ! f) = Visible \<and> f_outside (heap_f h' ! f) = Some (hd [v]) \<and>
          (\<forall>x \<in> set [v]. v_face (heap_v h' ! x) = Some f \<and> x \<in> set (vertices h))"
        using f m hff vv v(2) by (simp add: h')
      show "f < length (heap_f h) \<longrightarrow> f_outside (heap_f h' ! f) \<noteq> None \<longrightarrow> (f, [v]) \<in> set ?bs'"
        by simp
      show "\<forall>fb \<in> set bs. fst fb \<noteq> f \<longrightarrow> fb \<in> set ?bs'" by simp
    qed
    have ls: "listStep (insert v (set ?xs)) h h'"
      using r hfm by (simp add: listStep_def h' relinked_def len1 hv1 hf)
    from d2 b' have "assignedOK h' ?bs'" by (simp add: assignedOK_def h')
    with ls show ?thesis by (intro exI[of _ ?bs']) simp
  next
    case (Some out)
    with s2 have ib: "insertBefore (assigned h, hv1) out v = Some (l, hv2)" by simp
    from blocks_find[OF bl f(1)] Some f obtain B1 b B2 where
      bs: "bs = B1 @ (f, b) # B2" and hb: "hd b = out" by auto
    from bl bs have bne: "b \<noteq> []" by (simp add: blocksOK_def)
    with hb obtain rest where b: "b = out # rest" by (cases b) auto
    let ?X1 = "concat (map snd B1)"
    let ?X2 = "concat (map snd B2)"
    have xs: "?xs = ?X1 @ out # (rest @ ?X2)" by (simp add: bs b)
    from d1 have d1': "dl hv1 (assigned h) (?X1 @ out # (rest @ ?X2))" by (simp add: bs b)
    from v(1) have v': "v \<notin> set (?X1 @ out # (rest @ ?X2))" by (simp add: bs b)
    from insertBefore_dl[OF d1' v'] vl len1 ib
    have d2: "dl hv2 l (?X1 @ v # out # (rest @ ?X2))"
      and r: "relinked (insert v (set ?xs)) hv1 hv2" by (auto simp only: xs)
    let ?bs' = "B1 @ (f, v # b) # B2"
    have dis: "distinct (map fst bs)" using bl by (simp add: blocksOK_def)
    have vf: "\<forall>x \<in> set ?xs. x \<notin> {v} \<longrightarrow> v_face (heap_v h' ! x) = v_face (?hv ! x)"
      using r xsv face1 by (auto simp: h' relinked_def len1)
    have vv: "v_face (heap_v h' ! v) = Some f" using r vl face1[of v] by (simp add: h' relinked_def len1)
    have bfaces: "\<forall>x \<in> set b. v_face (?hv ! x) = Some f \<and> x \<in> set (vertices h)"
      using bl bs by (simp add: blocksOK_def)
    have bx: "\<forall>x \<in> set b. x \<in> set ?xs \<and> x \<noteq> v" using v(1) by (auto simp: bs)
    have bf': "\<forall>x \<in> set b. v_face (heap_v h' ! x) = Some f"
    proof
      fix x assume x: "x \<in> set b"
      with bx have "x \<in> set ?xs" "x \<notin> {v}" by auto
      with vf have "v_face (heap_v h' ! x) = v_face (?hv ! x)" by blast
      with bfaces x show "v_face (heap_v h' ! x) = Some f" by simp
    qed
    have b': "blocksOK h' ?bs'"
    proof (rule blocksOK_step[OF bl, where f = f and c = "v # b" and S = "{v}"])
      show "length (heap_f h') = length (heap_f h)" by (simp add: h' hf)
      show "vertices h' = vertices h" by (simp add: h')
      show "\<forall>g < length (heap_f h). f_mark (heap_f h' ! g) = f_mark (heap_f h ! g)"
        using hfm by (simp add: h')
      show "\<forall>g < length (heap_f h). g \<noteq> f \<longrightarrow> f_outside (heap_f h' ! g) = f_outside (heap_f h ! g)"
        using hfo by (simp add: h')
      show "\<forall>x \<in> set ?xs. x \<notin> {v} \<longrightarrow> v_face (heap_v h' ! x) = v_face (?hv ! x)" by (rule vf)
      show "set ?bs' \<subseteq> insert (f, v # b) (set bs)" by (auto simp: bs)
      show "distinct (map fst ?bs')" using dis by (simp add: bs)
      show "\<forall>fb \<in> set ?bs'. fst fb = f \<longrightarrow> fb = (f, v # b)"
        using blocks_fst_unique[OF dis[unfolded bs]] by blast
      show "\<forall>fb \<in> set ?bs'. fst fb \<noteq> f \<longrightarrow> set (snd fb) \<inter> {v} = {}" using v(1) by (auto simp: bs)
      show "(f, v # b) \<in> set ?bs' \<longrightarrow> v # b \<noteq> [] \<and> f < length (heap_f h) \<and>
          f_mark (heap_f h ! f) = Visible \<and> f_outside (heap_f h' ! f) = Some (hd (v # b)) \<and>
          (\<forall>x \<in> set (v # b). v_face (heap_v h' ! x) = Some f \<and> x \<in> set (vertices h))"
        using f m hff vv v(2) bfaces bf' by (simp add: h')
      show "f < length (heap_f h) \<longrightarrow> f_outside (heap_f h' ! f) \<noteq> None \<longrightarrow> (f, v # b) \<in> set ?bs'"
        by simp
      show "\<forall>fb \<in> set bs. fst fb \<noteq> f \<longrightarrow> fb \<in> set ?bs'" by (auto simp: bs)
    qed
    have ls: "listStep (insert v (set ?xs)) h h'"
      using r hfm by (simp add: listStep_def h' relinked_def len1 hv1 hf)
    have c': "concat (map snd ?bs') = ?X1 @ v # out # (rest @ ?X2)" by (simp add: b)
    from d2 b' have "assignedOK h' ?bs'" by (simp only: assignedOK_def c') (simp add: h')
    moreover have "set (concat (map snd ?bs')) = insert v (set ?xs)" by (auto simp: bs)
    ultimately show ?thesis using ls by (intro exI[of _ ?bs']) simp
  qed
qed

lemma fixOutsideLink_effect:
  assumes "fixOutsideLink h v f = Some hf" "v < length (heap_v h)"
    "\<forall>n. v_next (heap_v h ! v) = Some n \<longrightarrow> n < length (heap_v h)"
  shows "f < length (heap_f h) \<and>
     hf = (heap_f h)[f := (heap_f h ! f)\<lparr> f_outside :=
        (if Some v = f_outside (heap_f h ! f)
         then (case v_next (heap_v h ! v) of None \<Rightarrow> None
               | Some n \<Rightarrow> if v_face (heap_v h ! n) = Some f then Some n else None)
         else f_outside (heap_f h ! f)) \<rparr>]"
  using assms
  by (auto simp: fixOutsideLink_def lookup_def set_outside_def split: bind_splits if_splits option.splits)

lemma blocks_part:
  assumes "blocksOK h (B1 @ (f, b) # B2)"
  shows "b \<noteq> []" "f < length (heap_f h)" "f_mark (heap_f h ! f) = Visible"
    "f_outside (heap_f h ! f) = Some (hd b)"
    "\<forall>x \<in> set b. v_face (heap_v h ! x) = Some f \<and> x \<in> set (vertices h)"
    "distinct (map fst (B1 @ (f, b) # B2))"
  using assms by (simp_all add: blocksOK_def)

lemma blocks_rest_end:
  assumes bl: "blocksOK h (B1 @ (f, b) # B2)" and sg: "seg (heap_v h) p (concat (map snd B2)) n"
  shows "blockEnd (heap_v h) f (hdo (concat (map snd B2)) None)"
proof (rule blocks_blockEnd[OF _ _ sg])
  from bl show "distinct (map fst B2)" by (simp add: blocksOK_def)
  have "fst gc \<noteq> f" if "gc \<in> set B2" for gc
    using blocks_fst_other[OF blocks_part(6)[OF bl], of gc] that by simp
  moreover from bl have "\<forall>gc \<in> set B2. snd gc \<noteq> [] \<and>
      (\<forall>x \<in> set (snd gc). v_face (heap_v h ! x) = Some (fst gc))" by (simp add: blocksOK_def)
  ultimately show "\<forall>gc \<in> set B2. snd gc \<noteq> [] \<and> fst gc \<noteq> f \<and>
      (\<forall>x \<in> set (snd gc). v_face (heap_v h ! x) = Some (fst gc))" by blast
qed

lemma removeVertexFromFace_blocks:
  assumes ok: "assignedOK h bs" and e: "eye \<in> set (concat (map snd bs))"
    and r: "removeVertexFromFace h eye face = Some h'"
    and ef: "v_face (heap_v h ! eye) = Some face"
  shows "\<exists>bs'. assignedOK h' bs' \<and>
      set (concat (map snd bs')) = set (concat (map snd bs)) - {eye} \<and>
      listStep (set (concat (map snd bs))) h h' \<and> heap_v h' ! eye = heap_v h ! eye"
proof -
  let ?hv = "heap_v h"
  let ?xs = "concat (map snd bs)"
  from ok have d: "dl ?hv (assigned h) ?xs" and bl: "blocksOK h bs" by (simp_all add: assignedOK_def)
  from blocks_vertex[OF e] obtain B1 f b B2 where bs: "bs = B1 @ (f, b) # B2" and eb: "eye \<in> set b"
    by blast
  note bp = blocks_part[OF bl[unfolded bs]]
  from bp(5) eb ef have ff: "f = face" by auto
  from split_list[OF eb] obtain b1 b2 where b: "b = b1 @ eye # b2" by blast
  let ?X1 = "concat (map snd B1)"
  let ?X2 = "concat (map snd B2)"
  have xs: "?xs = (?X1 @ b1) @ eye # (b2 @ ?X2)" by (simp add: bs b)
  from d have d': "dl ?hv (assigned h) ((?X1 @ b1) @ eye # (b2 @ ?X2))" by (simp add: bs b)
  from r obtain hf l hv' where
    fo: "fixOutsideLink h eye face = Some hf" and
    rm: "remove (assigned h, ?hv) eye = Some (l, hv')" and
    h': "h' = h\<lparr> assigned := l, heap_v := hv', heap_f := hf \<rparr>"
    by (auto simp: removeVertexFromFace_def split: bind_splits)
  from remove_dl[OF d'] rm have d2: "dl hv' l ((?X1 @ b1) @ (b2 @ ?X2))"
    and rl: "relinked (set ((?X1 @ b1) @ (b2 @ ?X2))) ?hv hv'" and same: "hv' ! eye = ?hv ! eye"
    by auto
  from d have dist: "distinct ?xs" and sg: "seg ?hv None ?xs None" by (simp_all add: dl_def)
  from sg have sge: "seg ?hv (lasto (?X1 @ b1) None) [eye] (hdo (b2 @ ?X2) None)"
    and sg2: "seg ?hv (lasto (?X1 @ b1 @ [eye] @ b2) None) ?X2 None"
    and sgb2: "seg ?hv (Some eye) b2 (hdo ?X2 None)"
    by (simp_all add: bs b)
  from sge have ev: "eye < length ?hv" and nx: "v_next (?hv ! eye) = hdo (b2 @ ?X2) None" by simp_all
  have nv: "\<forall>n. v_next (?hv ! eye) = Some n \<longrightarrow> n < length ?hv"
  proof (intro allI impI)
    fix n assume "v_next (?hv ! eye) = Some n"
    with nx have "hdo (b2 @ ?X2) None = Some n" by simp
    then have "n \<in> set (b2 @ ?X2)" by (cases "b2 @ ?X2") auto
    then have "n \<in> set ?xs" by (auto simp: bs b)
    with seg_valid[OF sg] show "n < length ?hv" by blast
  qed
  note fe = fixOutsideLink_effect[OF fo ev nv]
  note be = blocks_rest_end[OF bl[unfolded bs] sg2]
  have lenf: "length hf = length (heap_f h)" using fe by simp
  have hfm: "\<forall>g < length (heap_f h). f_mark (hf ! g) = f_mark (heap_f h ! g)"
    using fe by (simp add: nth_list_update)
  have hfo: "\<forall>g < length (heap_f h). g \<noteq> f \<longrightarrow> f_outside (hf ! g) = f_outside (heap_f h ! g)"
    using fe ff by simp
  have vf: "\<forall>x \<in> set ?xs. x \<notin> {} \<longrightarrow> v_face (heap_v h' ! x) = v_face (?hv ! x)"
    using rl seg_valid[OF sg] by (auto simp: h' relinked_def)
  have ls: "listStep (set ?xs) h h'"
    using rl hfm lenf by (auto simp: listStep_def h' relinked_def bs b)
  have dis: "distinct (map fst bs)" using bl by (simp add: blocksOK_def)
  have eb1: "eye \<notin> set b1" "eye \<notin> set b2" "eye \<notin> set ?X1" "eye \<notin> set ?X2"
    using dist by (auto simp: bs b)
  have out: "f_outside (hf ! f) =
      (if b1 = [] then (if b2 = [] then None else Some (hd b2)) else Some (hd (b1 @ b2)))"
  proof (cases b1)
    case Nil
    with bp(4) b have o: "f_outside (heap_f h ! f) = Some eye" by simp
    show ?thesis
    proof (cases b2)
      case Nil
      note b2 = Nil
      show ?thesis
      proof (cases "hdo ?X2 None")
        case None
        with fe o ff bp(2) nx b2 \<open>b1 = []\<close> show ?thesis by simp
      next
        case (Some n)
        with be have "v_face (?hv ! n) \<noteq> Some f" by (simp add: blockEnd_def)
        with fe o ff bp(2) nx b2 \<open>b1 = []\<close> Some show ?thesis by simp
      qed
    next
      case (Cons c b2')
      with bp(5) b have "v_face (?hv ! c) = Some f" by simp
      with fe o ff bp(2) nx Cons \<open>b1 = []\<close> show ?thesis by simp
    qed
  next
    case (Cons c b1')
    with eb1 have "c \<noteq> eye" by auto
    with bp(4) b Cons have o: "f_outside (heap_f h ! f) = Some c" "Some eye \<noteq> f_outside (heap_f h ! f)"
      by simp_all
    with fe ff bp(2) Cons show ?thesis by simp
  qed
  let ?c = "b1 @ b2"
  let ?bs' = "if ?c = [] then B1 @ B2 else B1 @ (f, ?c) # B2"
  have cc: "concat (map snd ?bs') = (?X1 @ b1) @ (b2 @ ?X2)" by simp
  have b': "blocksOK h' ?bs'"
  proof (rule blocksOK_step[OF bl, where f = f and c = ?c and S = "{}"])
    show "length (heap_f h') = length (heap_f h)" by (simp add: h' lenf)
    show "vertices h' = vertices h" by (simp add: h')
    show "\<forall>g < length (heap_f h). f_mark (heap_f h' ! g) = f_mark (heap_f h ! g)"
      using hfm by (simp add: h')
    show "\<forall>g < length (heap_f h). g \<noteq> f \<longrightarrow> f_outside (heap_f h' ! g) = f_outside (heap_f h ! g)"
      using hfo by (simp add: h')
    show "\<forall>x \<in> set ?xs. x \<notin> {} \<longrightarrow> v_face (heap_v h' ! x) = v_face (?hv ! x)" by (rule vf)
    show "set ?bs' \<subseteq> insert (f, ?c) (set bs)" by (auto simp: bs)
    show "distinct (map fst ?bs')" using dis by (simp add: bs)
    show "\<forall>fb \<in> set ?bs'. fst fb = f \<longrightarrow> fb = (f, ?c)"
      using blocks_fst_unique[OF dis[unfolded bs], of _ ?c] blocks_fst_other[OF dis[unfolded bs]]
      by (cases "?c = []") auto
    show "\<forall>fb \<in> set ?bs'. fst fb \<noteq> f \<longrightarrow> set (snd fb) \<inter> {} = {}" by simp
    show "(f, ?c) \<in> set ?bs' \<longrightarrow> ?c \<noteq> [] \<and> f < length (heap_f h) \<and>
          f_mark (heap_f h ! f) = Visible \<and> f_outside (heap_f h' ! f) = Some (hd ?c) \<and>
          (\<forall>x \<in> set ?c. v_face (heap_v h' ! x) = Some f \<and> x \<in> set (vertices h))"
    proof
      assume in': "(f, ?c) \<in> set ?bs'"
      have ne: "?c \<noteq> []"
      proof
        assume "?c = []"
        with in' have "(f, ?c) \<in> set (B1 @ B2)" by simp
        with blocks_fst_other[OF dis[unfolded bs], of "(f, ?c)"] show False by simp
      qed
      have 1: "f_outside (heap_f h' ! f) = Some (hd ?c)" using out ne by (cases b1) (auto simp: h')
      have 2: "\<forall>x \<in> set ?c. v_face (heap_v h' ! x) = Some f \<and> x \<in> set (vertices h)"
      proof
        fix x assume x: "x \<in> set ?c"
        then have "x \<in> set b" "x \<in> set ?xs" by (auto simp: bs b)
        with bp(5) vf show "v_face (heap_v h' ! x) = Some f \<and> x \<in> set (vertices h)" by auto
      qed
      from ne bp(2,3) 1 2 show "?c \<noteq> [] \<and> f < length (heap_f h) \<and>
          f_mark (heap_f h ! f) = Visible \<and> f_outside (heap_f h' ! f) = Some (hd ?c) \<and>
          (\<forall>x \<in> set ?c. v_face (heap_v h' ! x) = Some f \<and> x \<in> set (vertices h))" by simp
    qed
    show "f < length (heap_f h) \<longrightarrow> f_outside (heap_f h' ! f) \<noteq> None \<longrightarrow> (f, ?c) \<in> set ?bs'"
      using out by (cases b1; cases b2) (auto simp: h')
    show "\<forall>fb \<in> set bs. fst fb \<noteq> f \<longrightarrow> fb \<in> set ?bs'" by (auto simp: bs)
  qed
  from d2 b' have a': "assignedOK h' ?bs'" by (simp only: assignedOK_def cc) (simp add: h')
  have st: "set (concat (map snd ?bs')) = set ?xs - {eye}"
    using eb1 by (simp only: cc) (auto simp: bs b)
  from a' st ls same show ?thesis by (intro exI[of _ ?bs']) (simp add: h')
qed

lemma blocksOK_cong:
  assumes "blocksOK h bs" "heap_f h' = heap_f h" "vertices h' = vertices h"
    "\<forall>x \<in> set (concat (map snd bs)). v_face (heap_v h' ! x) = v_face (heap_v h ! x)"
  shows "blocksOK h' bs"
proof -
  have "v_face (heap_v h' ! x) = v_face (heap_v h ! x)" if "fb \<in> set bs" "x \<in> set (snd fb)" for fb x
    using assms(4) that by auto
  with assms(1-3) show ?thesis unfolding blocksOK_def by simp
qed

lemma blocksOK_mark:
  assumes "blocksOK h bs" "f_outside (heap_f h ! face) = None"
    "set_mark (heap_f h) face m = Some hf"
  shows "blocksOK (h\<lparr> heap_f := hf \<rparr>) bs"
proof -
  from assms(3) have hf: "hf = (heap_f h)[face := (heap_f h ! face)\<lparr> f_mark := m \<rparr>]"
    "face < length (heap_f h)" by (auto simp: set_mark_def split: if_splits)
  have nf: "fst fb \<noteq> face" if "fb \<in> set bs" for fb
    using assms(1,2) that by (auto simp: blocksOK_def)
  have o: "f_outside (hf ! g) = f_outside (heap_f h ! g)" if "g < length (heap_f h)" for g
    using that by (simp add: hf nth_list_update)
  show ?thesis unfolding blocksOK_def
  proof (intro conjI ballI allI impI)
    show "distinct (map fst bs)" using assms(1) by (simp add: blocksOK_def)
  next
    fix fb assume fb: "fb \<in> set bs"
    with assms(1) have 1: "snd fb \<noteq> []" "fst fb < length (heap_f h)"
      "f_mark (heap_f h ! fst fb) = Visible" "f_outside (heap_f h ! fst fb) = Some (hd (snd fb))"
      "\<forall>x \<in> set (snd fb). v_face (heap_v h ! x) = Some (fst fb) \<and> x \<in> set (vertices h)"
      by (simp_all add: blocksOK_def)
    from 1 show "snd fb \<noteq> []" by simp
    from 1 show "fst fb < length (heap_f (h\<lparr> heap_f := hf \<rparr>))" by (simp add: hf)
    from 1 nf[OF fb] show "f_mark (heap_f (h\<lparr> heap_f := hf \<rparr>) ! fst fb) = Visible" by (simp add: hf)
    from 1 nf[OF fb] show "f_outside (heap_f (h\<lparr> heap_f := hf \<rparr>) ! fst fb) = Some (hd (snd fb))"
      by (simp add: hf)
    fix x assume "x \<in> set (snd fb)"
    with 1 show "v_face (heap_v (h\<lparr> heap_f := hf \<rparr>) ! x) = Some (fst fb)"
      "x \<in> set (vertices (h\<lparr> heap_f := hf \<rparr>))" by simp_all
  next
    fix g assume "g < length (heap_f (h\<lparr> heap_f := hf \<rparr>))"
      "f_outside (heap_f (h\<lparr> heap_f := hf \<rparr>) ! g) \<noteq> None"
    with o[of g] have "g < length (heap_f h)" "f_outside (heap_f h ! g) \<noteq> None" by (simp_all add: hf)
    with assms(1) show "g \<in> fst ` set bs" by (simp add: blocksOK_def)
  qed
qed

lemma removeAllVerticesFromFace_blocks:
  assumes ok: "listsOK h bs ys" and r: "removeAllVerticesFromFace n h face = Some (res, h')"
  shows "face < length (heap_f h') \<and> f_outside (heap_f h' ! face) = None \<and>
     (case res of None \<Rightarrow> h' = h
      | Some start \<Rightarrow> \<exists>bs' b. listsOK h' bs' ys \<and> b \<noteq> [] \<and> hd b = start \<and>
           seg (heap_v h') None b None \<and> distinct b \<and> set b \<subseteq> set (vertices h') \<and>
           set b \<inter> (set (concat (map snd bs')) \<union> set ys) = {})"
proof -
  let ?hv = "heap_v h"
  let ?xs = "concat (map snd bs)"
  from ok have aok: "assignedOK h bs" and du: "dl ?hv (unassigned h) ys"
    and dj: "set ?xs \<inter> set ys = {}" and yv: "set ys \<subseteq> set (vertices h)"
    by (simp_all add: listsOK_def)
  from aok have d: "dl ?hv (assigned h) ?xs" and bl: "blocksOK h bs" by (simp_all add: assignedOK_def)
  from r obtain fr :: Face where fl: "lookup (heap_f h) face = Some fr"
    by (auto simp: removeAllVerticesFromFace_def split: bind_splits)
  then have f: "face < length (heap_f h)" "fr = heap_f h ! face"
    by (auto simp: lookup_def split: if_splits)
  show ?thesis
  proof (cases "f_outside fr")
    case None
    with r fl f show ?thesis by (auto simp: removeAllVerticesFromFace_def)
  next
    case (Some start)
    with r fl obtain en l hv1 hv2 hv3 hf where
      re: "runEnd n ?hv face start = Some en" and
      s1: "removeSubList (assigned h, ?hv) start en = Some (l, hv1)" and
      s2: "set_next hv1 en None = Some hv2" and
      s3: "set_prev hv2 start None = Some hv3" and
      s4: "set_outside (heap_f h) face None = Some hf" and
      h': "h' = h\<lparr> assigned := l, heap_v := hv3, heap_f := hf \<rparr>" and
      res: "res = Some start"
      by (auto simp: removeAllVerticesFromFace_def split: bind_splits)
    from blocks_find[OF bl f(1)] Some f obtain B1 b B2 where
      bs: "bs = B1 @ (face, b) # B2" and hb: "hd b = start" by auto
    note bp = blocks_part[OF bl[unfolded bs]]
    let ?X1 = "concat (map snd B1)"
    let ?X2 = "concat (map snd B2)"
    from d have dist: "distinct ?xs" and sg: "seg ?hv None ?xs None" by (simp_all add: dl_def)
    from sg have sgb: "seg ?hv (lasto ?X1 None) b (hdo ?X2 None)"
      and sg2: "seg ?hv (lasto (?X1 @ b) None) ?X2 None"
      by (simp_all add: bs)
    note be = blocks_rest_end[OF bl[unfolded bs] sg2]
    from bp(5) have bf: "\<forall>x \<in> set b. v_face (?hv ! x) = Some face" by simp
    from runEnd_block[OF sgb bp(1) bf be] re hb have en: "en = last b" by simp
    from d have d': "dl ?hv (assigned h) (?X1 @ b @ ?X2)" by (simp add: bs)
    from removeSubList_dl[OF d' bp(1)] s1 s2 s3 hb en
    have d3: "dl hv3 l (?X1 @ ?X2)" and sb: "seg hv3 None b None"
      and rl: "relinked (set (?X1 @ b @ ?X2)) ?hv hv3" by auto
    from s4 have hf: "hf = (heap_f h)[face := (heap_f h ! face)\<lparr> f_outside := None \<rparr>]"
      by (auto simp: set_outside_def split: if_splits)
    have dis: "distinct (map fst bs)" using bl by (simp add: blocksOK_def)
    let ?bs' = "B1 @ B2"
    have vf: "\<forall>x \<in> set ?xs. x \<notin> {} \<longrightarrow> v_face (heap_v h' ! x) = v_face (?hv ! x)"
      using rl seg_valid[OF sg] by (auto simp: h' relinked_def)
    have b': "blocksOK h' ?bs'"
    proof (rule blocksOK_step[OF bl, where f = face and c = "[]" and S = "{}"])
      show "length (heap_f h') = length (heap_f h)" by (simp add: h' hf)
      show "vertices h' = vertices h" by (simp add: h')
      show "\<forall>g < length (heap_f h). f_mark (heap_f h' ! g) = f_mark (heap_f h ! g)"
        using f by (simp add: h' hf nth_list_update)
      show "\<forall>g < length (heap_f h). g \<noteq> face \<longrightarrow> f_outside (heap_f h' ! g) = f_outside (heap_f h ! g)"
        by (simp add: h' hf)
      show "\<forall>x \<in> set ?xs. x \<notin> {} \<longrightarrow> v_face (heap_v h' ! x) = v_face (?hv ! x)" by (rule vf)
      show "set ?bs' \<subseteq> insert (face, []) (set bs)" by (auto simp: bs)
      show "distinct (map fst ?bs')" using dis by (simp add: bs)
      show "\<forall>fb \<in> set ?bs'. fst fb = face \<longrightarrow> fb = (face, [])"
        using blocks_fst_other[OF dis[unfolded bs]] by blast
      show "\<forall>fb \<in> set ?bs'. fst fb \<noteq> face \<longrightarrow> set (snd fb) \<inter> {} = {}" by simp
      show "(face, []) \<in> set ?bs' \<longrightarrow> [] \<noteq> [] \<and> face < length (heap_f h) \<and>
          f_mark (heap_f h ! face) = Visible \<and> f_outside (heap_f h' ! face) = Some (hd []) \<and>
          (\<forall>x \<in> set []. v_face (heap_v h' ! x) = Some face \<and> x \<in> set (vertices h))"
        using blocks_fst_other[OF dis[unfolded bs], of "(face, [])"] by auto
      show "face < length (heap_f h) \<longrightarrow> f_outside (heap_f h' ! face) \<noteq> None \<longrightarrow> (face, []) \<in> set ?bs'"
        by (simp add: h' hf)
      show "\<forall>fb \<in> set bs. fst fb \<noteq> face \<longrightarrow> fb \<in> set ?bs'" by (auto simp: bs)
    qed
    from d3 b' have a': "assignedOK h' ?bs'" by (simp add: assignedOK_def h')
    from dj have "set ys \<inter> set (?X1 @ b @ ?X2) = {}" by (auto simp: bs)
    with relinked_dl[OF rl _ du] have du': "dl (heap_v h') (unassigned h') ys" by (simp add: h')
    from dj yv have l': "listsOK h' ?bs' ys"
      using a' du' by (auto simp: listsOK_def h' bs)
    from dist have db: "distinct b" "set b \<inter> set (concat (map snd ?bs')) = {}"
      by (auto simp: bs)
    from dj have "set b \<inter> set ys = {}" by (auto simp: bs)
    with db have dj': "set b \<inter> (set (concat (map snd ?bs')) \<union> set ys) = {}" by blast
    from bp(5) have bv: "set b \<subseteq> set (vertices h')" by (auto simp: h')
    from f have "face < length (heap_f h')" "f_outside (heap_f h' ! face) = None"
      by (simp_all add: h' hf)
    moreover have "\<exists>bs' b. listsOK h' bs' ys \<and> b \<noteq> [] \<and> hd b = start \<and>
           seg (heap_v h') None b None \<and> distinct b \<and> set b \<subseteq> set (vertices h') \<and>
           set b \<inter> (set (concat (map snd bs')) \<union> set ys) = {}"
      using l' bp(1) hb sb db(1) bv dj' by (intro exI[of _ ?bs'] exI[of _ b]) (simp add: h')
    ultimately show ?thesis by (simp add: res)
  qed
qed

lemma deleteFaceVertices_lists:
  assumes ok: "listsOK h bs ys" and r: "deleteFaceVertices n h face None = Some h'"
  shows "face < length (heap_f h') \<and> f_outside (heap_f h' ! face) = None \<and>
     (\<exists>bs' ys'. listsOK h' bs' ys')"
proof -
  from r obtain res h1 where
    ra: "removeAllVerticesFromFace n h face = Some (res, h1)" and
    rest: "(case res of None \<Rightarrow> Some h1
            | Some fv \<Rightarrow>
                (case (None :: fref option) of
                   None \<Rightarrow> do { (l, hv) \<leftarrow> appendChain n (unassigned h1, heap_v h1) fv;
                                Some (h1\<lparr> unassigned := l, heap_v := hv \<rparr>) }
                 | Some af \<Rightarrow> absorbLoop n h1 af fv)) = Some h'"
    by (auto simp: deleteFaceVertices_def split: bind_splits)
  note e = removeAllVerticesFromFace_blocks[OF ok ra]
  show ?thesis
  proof (cases res)
    case None
    with e rest ok show ?thesis by auto
  next
    case (Some start)
    with e obtain bs' b where l1: "listsOK h1 bs' ys" and b: "b \<noteq> []" "hd b = start"
      "seg (heap_v h1) None b None" "distinct b" "set b \<subseteq> set (vertices h1)"
      "set b \<inter> (set (concat (map snd bs')) \<union> set ys) = {}" by auto
    from Some rest obtain l hv where
      ac: "appendChain n (unassigned h1, heap_v h1) start = Some (l, hv)" and
      h': "h' = h1\<lparr> unassigned := l, heap_v := hv \<rparr>"
      by (auto split: bind_splits)
    let ?xs = "concat (map snd bs')"
    from l1 have aok: "assignedOK h1 bs'" and du: "dl (heap_v h1) (unassigned h1) ys"
      and dj: "set ?xs \<inter> set ys = {}" and yv: "set ys \<subseteq> set (vertices h1)"
      by (simp_all add: listsOK_def)
    from b(6) have bd: "set b \<inter> set ys = {}" by blast
    from appendChain_dl[OF du b(3,4,1) bd] ac b(2)
    have d2: "dl hv l (ys @ b)" and rl: "relinked (set ys \<union> set b) (heap_v h1) hv" by auto
    from aok have d: "dl (heap_v h1) (assigned h1) ?xs" and bl: "blocksOK h1 bs'"
      by (simp_all add: assignedOK_def)
    from dj b(6) have "set ?xs \<inter> (set ys \<union> set b) = {}" by blast
    from relinked_dl[OF rl this d] have d': "dl (heap_v h') (assigned h') ?xs" by (simp add: h')
    have "\<forall>x \<in> set ?xs. v_face (heap_v h' ! x) = v_face (heap_v h1 ! x)"
      using rl d seg_valid[of "heap_v h1" None ?xs None] by (auto simp: h' relinked_def dl_def)
    with blocksOK_cong[OF bl, of h'] have bl': "blocksOK h' bs'" by (simp add: h')
    from dj b(6) have "set ?xs \<inter> set (ys @ b) = {}" by auto
    moreover from yv b(5) have "set (ys @ b) \<subseteq> set (vertices h')" by (simp add: h')
    ultimately have "listsOK h' bs' (ys @ b)" using d' bl' d2
      by (simp add: listsOK_def assignedOK_def h')
    with e show ?thesis by (auto simp: h')
  qed
qed

lemma listsOK_mark:
  assumes "listsOK h bs ys" "f_outside (heap_f h ! face) = None"
    "set_mark (heap_f h) face m = Some hf"
  shows "listsOK (h\<lparr> heap_f := hf \<rparr>) bs ys"
  using assms blocksOK_mark[OF _ assms(2,3), of bs]
  by (simp add: listsOK_def assignedOK_def)

lemma horizon_inv:
  assumes step: "\<And>n h face h1 hf. P h \<Longrightarrow> deleteFaceVertices n h face None = Some h1 \<Longrightarrow>
      set_mark (heap_f h1) face Deleted = Some hf \<Longrightarrow> P (h1\<lparr> heap_f := hf \<rparr>)"
  shows "(computeHorizon n h eye ce face hz = Some (h', hz') \<longrightarrow> P h \<longrightarrow> P h') \<and>
         (horizonLoop n h eye c edge hz = Some (h', hz') \<longrightarrow> P h \<longrightarrow> P h')"
proof (induction n arbitrary: h ce face hz c edge h' hz')
  case 0 then show ?case by simp
next
  case (Suc n)
  from Suc.IH have IH1: "\<And>h ce face hz h' hz'.
      computeHorizon n h eye ce face hz = Some (h', hz') \<Longrightarrow> P h \<Longrightarrow> P h'" by blast
  from Suc.IH have IH2: "\<And>h c edge hz h' hz'.
      horizonLoop n h eye c edge hz = Some (h', hz') \<Longrightarrow> P h \<Longrightarrow> P h'" by blast
  have A: "P h'" if r: "computeHorizon (Suc n) h eye ce face hz = Some (h', hz')" and p: "P h"
  proof -
    from r obtain h1 hf ed cr where
      d: "deleteFaceVertices (Suc n) h face None = Some h1" and
      m: "set_mark (heap_f h1) face Deleted = Some hf" and
      l: "horizonLoop n (h1\<lparr> heap_f := hf \<rparr>) eye cr ed hz = Some (h', hz')"
      by (auto simp: Let_def split: bind_splits)
    from IH2[OF l step[OF p d m]] show ?thesis .
  qed
  have B: "P h'" if r: "horizonLoop (Suc n) h eye c edge hz = Some (h', hz')" and p: "P h"
  proof -
    from r obtain twinEdge and e te :: HalfEdge and opp :: Face and h1 hz1 where
      s1: "(if f_mark opp = Visible then
              (if distanceToPoint opp eye > tolerance h
               then computeHorizon n h eye (Some twinEdge) (e_face te) hz
               else Some (h, hz @ [edge]))
            else Some (h, hz)) = Some (h1, hz1)" and
      s2': "do { e \<leftarrow> lookup (heap_e h1) edge;
                edge' \<leftarrow> e_next e;
                if edge' \<noteq> c then horizonLoop n h1 eye c edge' hz1 else Some (h1, hz1) }
            = Some (h', hz')"
      by (auto simp: Let_def split: bind_splits)
    from s2' have s2: "(h', hz') = (h1, hz1) \<or> (\<exists>nx. horizonLoop n h1 eye c nx hz1 = Some (h', hz'))"
      by (auto split: bind_splits if_splits)
    from s1 p IH1 have "P h1" by (auto split: if_splits)
    with s2 IH2 show ?thesis by auto
  qed
  from A B show ?case by blast
qed

lemma computeHorizon_lists:
  assumes "computeHorizon n h eye ce face hz = Some (h', hz')" "listsOK h bs ys"
  shows "\<exists>bs' ys'. listsOK h' bs' ys'"
proof -
  have "(computeHorizon n h eye ce face hz = Some (h', hz') \<longrightarrow>
          (\<exists>bs ys. listsOK h bs ys) \<longrightarrow> (\<exists>bs ys. listsOK h' bs ys)) \<and>
        (horizonLoop n h eye 0 0 hz = Some (h', hz') \<longrightarrow>
          (\<exists>bs ys. listsOK h bs ys) \<longrightarrow> (\<exists>bs ys. listsOK h' bs ys))"
  proof (rule horizon_inv)
    fix n h face h1 hf
    assume p: "\<exists>bs ys. listsOK h bs ys" and d: "deleteFaceVertices n h face None = Some h1"
      and m: "set_mark (heap_f h1) face Deleted = Some hf"
    from p obtain bs ys where "listsOK h bs ys" by blast
    from deleteFaceVertices_lists[OF this d] obtain bs' ys' where
      "f_outside (heap_f h1 ! face) = None" "listsOK h1 bs' ys'" by blast
    from listsOK_mark[OF this(2,1) m] show "\<exists>bs ys. listsOK (h1\<lparr> heap_f := hf \<rparr>) bs ys" by blast
  qed
  with assms show ?thesis by blast
qed

lemma listsKept_refl [simp]: "listsKept h h" by (simp add: listsKept_def)

lemma listsKept_trans: "listsKept a b \<Longrightarrow> listsKept b c \<Longrightarrow> listsKept a c"
  unfolding listsKept_def
  apply (intro conjI allI impI)
        apply simp_all
  subgoal for g by (cases "g < length (heap_f b)") auto
  subgoal for g by (cases "g < length (heap_f b)") auto
  done

lemma listsKept_fields:
  "assigned h' = assigned h \<Longrightarrow> unassigned h' = unassigned h \<Longrightarrow> heap_v h' = heap_v h \<Longrightarrow>
   vertices h' = vertices h \<Longrightarrow> heap_f h' = heap_f h \<Longrightarrow> listsKept h h'"
  by (simp add: listsKept_def)

lemma create_listsKept: "create h a b c = Some (f, h') \<Longrightarrow> listsKept h h'"
  by (drule create_effect) (auto simp: listsKept_def nth_append)

lemma twins_listsKept:
  "twinsOutward fs h i = Some h' \<Longrightarrow> listsKept h h'"
  "twinsInward fs h i = Some h' \<Longrightarrow> listsKept h h'"
  by (auto simp: twinsOutward_def twinsInward_def Let_def split: bind_splits
           intro!: listsKept_fields)

lemma forEach_listsKept:
  assumes "forEach body s xs = Some s'" "\<And>s x s'. body s x = Some s' \<Longrightarrow> listsKept s s'"
  shows "listsKept s s'"
  by (rule forEach_inv[OF assms(1), where P="listsKept s"])
     (auto dest: assms(2) intro: listsKept_trans)

lemma initialFaces_listsKept:
  assumes "initialFaces h v0 v1 v2 v3 below = Some (fs, h')"
  shows "listsKept h h' \<and> (\<forall>g \<in> set fs. length (heap_f h) \<le> g \<and> g < length (heap_f h'))"
proof -
  from assms obtain f0 h0 f1 h1 f2 h2 f3 h3 a0 b0 c0 a1 b1 c1 a2 b2 c2 a3 b3 c3 where
    c: "create h a0 b0 c0 = Some (f0, h0)" "create h0 a1 b1 c1 = Some (f1, h1)"
       "create h1 a2 b2 c2 = Some (f2, h2)" "create h2 a3 b3 c3 = Some (f3, h3)" and
    t: "forEach (twinsOutward [f0, f1, f2, f3]) h3 [0, 1, 2] = Some h' \<or>
        forEach (twinsInward [f0, f1, f2, f3]) h3 [0, 1, 2] = Some h'" and
    fs: "fs = [f0, f1, f2, f3]"
    by (cases below) (auto simp: initialFaces_def Let_def split: bind_splits intro: that)
  have q: "listsKept h3 h'" using t
  proof
    assume "forEach (twinsOutward [f0, f1, f2, f3]) h3 [0, 1, 2] = Some h'"
    then show ?thesis by (rule forEach_listsKept) (rule twins_listsKept)
  next
    assume "forEach (twinsInward [f0, f1, f2, f3]) h3 [0, 1, 2] = Some h'"
    then show ?thesis by (rule forEach_listsKept) (rule twins_listsKept)
  qed
  note k = create_listsKept[OF c(1)] create_listsKept[OF c(2)] create_listsKept[OF c(3)]
    create_listsKept[OF c(4)]
  from k q have 1: "listsKept h h'" by (blast intro: listsKept_trans)
  note e = create_effect[OF c(1)] create_effect[OF c(2)] create_effect[OF c(3)] create_effect[OF c(4)]
  from e have "f0 = length (heap_f h)" "f1 = length (heap_f h) + 1" "f2 = length (heap_f h) + 2"
    "f3 = length (heap_f h) + 3" "length (heap_f h3) = length (heap_f h) + 4" by auto
  moreover from q have "length (heap_f h3) \<le> length (heap_f h')" by (simp add: listsKept_def)
  ultimately have "\<forall>g \<in> set fs. length (heap_f h) \<le> g \<and> g < length (heap_f h')"
    by (simp add: fs)
  with 1 show ?thesis by simp
qed

lemma addAdjoiningFace_listsKept:
  assumes "addAdjoiningFace h eyeVertex horizonEdge = Some (e, h')"
  shows "listsKept h h'"
proof -
  from assms obtain a b c f h1 hes tw ex where
    c: "create h a b c = Some (f, h1)" and
    t: "setTwin (heap_e h1) ex tw = Some hes" and
    h': "h' = h1\<lparr> faces := faces h1 @ [f], heap_e := hes \<rparr>"
    by (auto simp: addAdjoiningFace_def Let_def split: bind_splits intro: that)
  have "listsKept h1 h'" unfolding h' by (simp add: listsKept_def)
  with create_listsKept[OF c] show ?thesis by (rule listsKept_trans)
qed

lemma joinSideEdge_listsKept:
  "joinSideEdge h fse pse se = Some (r, h') \<Longrightarrow> listsKept h h'"
  by (auto simp: joinSideEdge_def split: option.splits bind_splits intro!: listsKept_fields)

lemma addNewFacesLoop_listsKept:
  "addNewFacesLoop h eyeVertex hs acc = Some (h', acc') \<Longrightarrow> listsKept h h'"
proof (induction hs arbitrary: h acc)
  case Nil then show ?case by simp
next
  case (Cons x hs)
  obtain fse pse where acc: "acc = (fse, pse)" by (cases acc)
  from Cons.prems(1) acc obtain se h1 fse' h2 and e :: HalfEdge where
    a: "addAdjoiningFace h eyeVertex x = Some (se, h1)" and
    j: "joinSideEdge h1 fse pse se = Some (fse', h2)" and
    l: "addNewFacesLoop (h2\<lparr> newFaces := newFaces h2 @ [e_face e] \<rparr>) eyeVertex hs (fse', Some se) = Some (h', acc')"
    by (auto simp: Let_def split: bind_splits intro: that)
  have "listsKept h2 (h2\<lparr> newFaces := newFaces h2 @ [e_face e] \<rparr>)" by (simp add: listsKept_def)
  with addAdjoiningFace_listsKept[OF a] joinSideEdge_listsKept[OF j] Cons.IH[OF l] show ?case
    by (blast intro: listsKept_trans)
qed

lemma addNewFaces_listsKept:
  assumes "addNewFaces h eyeVertex horizon = Some h'"
  shows "listsKept h h'"
proof -
  from assms obtain h1 acc hes nx pse where
    l: "addNewFacesLoop (h\<lparr> newFaces := [] \<rparr>) eyeVertex horizon (None, None) = Some (h1, acc)" and
    t: "setTwin (heap_e h1) nx pse = Some hes" and
    h': "h' = h1\<lparr> heap_e := hes \<rparr>"
    by (auto simp: addNewFaces_def split: bind_splits intro: that)
  have q0: "listsKept h (h\<lparr> newFaces := [] \<rparr>)" by (simp add: listsKept_def)
  have q1: "listsKept h1 h'" unfolding h' by (simp add: listsKept_def)
  from q0 addNewFacesLoop_listsKept[OF l] q1 show ?thesis by (blast intro: listsKept_trans)
qed

lemma blocksOK_kept:
  assumes b: "blocksOK h bs" and k: "listsKept h h'"
  shows "blocksOK h' bs"
  unfolding blocksOK_def
proof (intro conjI ballI allI impI)
  show "distinct (map fst bs)" using b by (simp add: blocksOK_def)
next
  fix fb assume fb: "fb \<in> set bs"
  with b have 1: "snd fb \<noteq> []" "fst fb < length (heap_f h)"
    "f_mark (heap_f h ! fst fb) = Visible" "f_outside (heap_f h ! fst fb) = Some (hd (snd fb))"
    "\<forall>x \<in> set (snd fb). v_face (heap_v h ! x) = Some (fst fb) \<and> x \<in> set (vertices h)"
    by (simp_all add: blocksOK_def)
  from 1 show "snd fb \<noteq> []" by simp
  from 1 k show "fst fb < length (heap_f h')" "f_mark (heap_f h' ! fst fb) = Visible"
    "f_outside (heap_f h' ! fst fb) = Some (hd (snd fb))" by (simp_all add: listsKept_def)
  fix x assume "x \<in> set (snd fb)"
  with 1 k show "v_face (heap_v h' ! x) = Some (fst fb)" "x \<in> set (vertices h')"
    by (simp_all add: listsKept_def)
next
  fix g assume g: "g < length (heap_f h')" "f_outside (heap_f h' ! g) \<noteq> None"
  with k have "g < length (heap_f h)" by (cases "g < length (heap_f h)") (auto simp: listsKept_def)
  with g k b show "g \<in> fst ` set bs" by (simp add: listsKept_def blocksOK_def)
qed

lemma assignedOK_kept: "assignedOK h bs \<Longrightarrow> listsKept h h' \<Longrightarrow> assignedOK h' bs"
  using blocksOK_kept[of h bs h'] by (simp add: assignedOK_def listsKept_def)

lemma listsOK_kept: "listsOK h bs ys \<Longrightarrow> listsKept h h' \<Longrightarrow> listsOK h' bs ys"
  using assignedOK_kept[of h bs h'] by (simp add: listsOK_def listsKept_def)

lemma findMaxFace_visible:
  "findMaxFace hf tol p js (md0, mf0) = Some (md, Some j) \<Longrightarrow>
   mf0 = Some j \<or> (j < length hf \<and> f_mark (hf ! j) = Visible)"
proof (induction js arbitrary: md0 mf0)
  case Nil then show ?case by auto
next
  case (Cons i js)
  from Cons.prems(1) obtain face :: Face where i: "lookup hf i = Some face"
    by (auto split: bind_splits)
  then have il: "i < length hf" "face = hf ! i" by (auto simp: lookup_def split: if_splits)
  show ?case
  proof (cases "f_mark face = Visible")
    case False
    with Cons.prems i have "findMaxFace hf tol p js (md0, mf0) = Some (md, Some j)" by simp
    from Cons.IH[OF this] show ?thesis .
  next
    case True
    show ?thesis
    proof (cases "distanceToPoint face p > md0")
      case False
      with True Cons.prems i have
        "(md, Some j) = (md0, mf0) \<or> findMaxFace hf tol p js (md0, mf0) = Some (md, Some j)"
        by (auto simp: Let_def split: if_splits)
      with Cons.IH show ?thesis by auto
    next
      case above: True
      with True Cons.prems i have
        "(md, Some j) = (distanceToPoint face p, Some i) \<or>
         findMaxFace hf tol p js (distanceToPoint face p, Some i) = Some (md, Some j)"
        by (auto simp: Let_def split: if_splits)
      with Cons.IH[of "distanceToPoint face p" "Some i"] il True show ?thesis by auto
    qed
  qed
qed

lemma listStep_seg:
  assumes "listStep S h h'" "set us \<inter> S = {}" "seg (heap_v h) p us n"
  shows "seg (heap_v h') p us n"
proof -
  have "\<forall>x \<in> set us. heap_v h' ! x = heap_v h ! x"
    using assms(1,2) seg_valid[OF assms(3)] by (auto simp: listStep_def)
  with seg_cong[of "heap_v h'" "heap_v h" us p n] assms(1,3) show ?thesis
    by (simp add: listStep_def)
qed

lemma resolveLoop_blocks:
  assumes "resolveLoop n h nfs u = Some h'" "assignedOK h bs" "seg (heap_v h) p (u # us) None"
    "distinct (u # us)" "set (u # us) \<inter> set (concat (map snd bs)) = {}"
    "set (u # us) \<subseteq> set (vertices h)"
  shows "\<exists>bs'. assignedOK h' bs'"
  using assms
proof (induction n arbitrary: h bs u us p)
  case 0
  then show ?case by simp
next
  case (Suc n)
  from Suc.prems(1) obtain md mf h1 and v :: VertexNode where
    v: "lookup (heap_v h) u = Some v" and
    m: "findMaxFace (heap_f h) (tolerance h) (v_point v) nfs (tolerance h, None) = Some (md, mf)" and
    s1: "(case mf of None \<Rightarrow> Some h | Some m \<Rightarrow> addVertexToFace h u m) = Some h1" and
    s2: "(case v_next v of None \<Rightarrow> Some h1 | Some nv \<Rightarrow> resolveLoop n h1 nfs nv) = Some h'"
    by (auto simp: Let_def split: bind_splits)
  from v have vu: "v = heap_v h ! u" by (auto simp: lookup_def split: if_splits)
  let ?xs = "concat (map snd bs)"
  have 1: "\<exists>bs1. assignedOK h1 bs1 \<and> set (concat (map snd bs1)) \<subseteq> insert u (set ?xs) \<and>
      listStep (insert u (set ?xs)) h h1"
  proof (cases mf)
    case None
    with s1 Suc.prems(2) show ?thesis by (auto simp: listStep_def)
  next
    case (Some j)
    with s1 have a: "addVertexToFace h u j = Some h1" by simp
    from findMaxFace_visible[OF m[unfolded Some]] have vis: "f_mark (heap_f h ! j) = Visible" by simp
    from Suc.prems(5,6) have "u \<notin> set ?xs" "u \<in> set (vertices h)" by auto
    from addVertexToFace_blocks[OF Suc.prems(2) this vis a] obtain bs' where
      "assignedOK h1 bs'" "set (concat (map snd bs')) = insert u (set ?xs)"
      "listStep (insert u (set ?xs)) h h1" by blast
    then show ?thesis by (intro exI[of _ bs']) simp
  qed
  then obtain bs1 where b1: "assignedOK h1 bs1" "set (concat (map snd bs1)) \<subseteq> insert u (set ?xs)"
    "listStep (insert u (set ?xs)) h h1" by blast
  show ?case
  proof (cases us)
    case Nil
    with Suc.prems(3) vu have "v_next v = None" by simp
    with s2 b1 show ?thesis by auto
  next
    case (Cons w ws)
    with Suc.prems(3) vu have nx: "v_next v = Some w" and sg: "seg (heap_v h) (Some u) (w # ws) None"
      by simp_all
    from nx s2 have r: "resolveLoop n h1 nfs w = Some h'" by simp
    from Suc.prems(4,5) Cons have dj: "set (w # ws) \<inter> insert u (set ?xs) = {}" by auto
    from listStep_seg[OF b1(3) dj sg] have sg1: "seg (heap_v h1) (Some u) (w # ws) None" .
    from Suc.prems(4) Cons have d1: "distinct (w # ws)" by simp
    from dj b1(2) have dj1: "set (w # ws) \<inter> set (concat (map snd bs1)) = {}" by blast
    from Suc.prems(6) Cons b1(3) have v1: "set (w # ws) \<subseteq> set (vertices h1)"
      by (auto simp: listStep_def)
    from Suc.IH[OF r b1(1) sg1 d1 dj1 v1] show ?thesis .
  qed
qed

lemma resolveUnassignedPoints_blocks:
  assumes "resolveUnassignedPoints n h nfs = Some h'" "listsOK h bs ys"
  shows "\<exists>bs'. assignedOK h' bs'"
proof (cases ys)
  case Nil
  with assms show ?thesis
    by (auto simp: resolveUnassignedPoints_def listsOK_def dl_def isEmpty_def)
next
  case (Cons u us)
  with assms(2) have d: "dl (heap_v h) (unassigned h) (u # us)" by (simp add: listsOK_def)
  then have hd: "l_head (unassigned h) = Some u" by (simp add: dl_def)
  with assms(1) have r: "resolveLoop n h nfs u = Some h'"
    by (simp add: resolveUnassignedPoints_def isEmpty_def first_def)
  from d have sg: "seg (heap_v h) None (u # us) None" and di: "distinct (u # us)"
    by (simp_all add: dl_def)
  from assms(2) Cons have "assignedOK h bs" "set (u # us) \<inter> set (concat (map snd bs)) = {}"
    "set (u # us) \<subseteq> set (vertices h)" by (auto simp: listsOK_def)
  from resolveLoop_blocks[OF r this(1) sg di this(2,3)] show ?thesis .
qed

lemma addVertexToHull_blocks:
  assumes a: "addVertexToHull n h eye = Some h'" and ok: "assignedOK h bs"
    and e: "eye \<in> set (concat (map snd bs))"
  shows "\<exists>bs'. assignedOK h' bs'"
proof -
  let ?h0 = "h\<lparr> unassigned := clear (unassigned h) \<rparr>"
  from a obtain face h1 face1 h2 hz h3 and ev ev1 :: VertexNode where
    l0: "lookup (heap_v ?h0) eye = Some ev" and f0: "v_face ev = Some face" and
    r: "removeVertexFromFace ?h0 eye face = Some h1" and
    l1: "lookup (heap_v h1) eye = Some ev1" and f1: "v_face ev1 = Some face1" and
    c: "computeHorizon n h1 (v_point ev1) None face1 [] = Some (h2, hz)" and
    nf: "addNewFaces h2 eye hz = Some h3" and
    rs: "resolveUnassignedPoints n h3 (newFaces h3) = Some h'"
    by (auto simp: addVertexToHull_def Let_def split: bind_splits)
  from l0 f0 have ef: "v_face (heap_v ?h0 ! eye) = Some face"
    by (auto simp: lookup_def split: if_splits)
  from ok have ok0: "assignedOK ?h0 bs" by (simp add: assignedOK_def blocksOK_def)
  from removeVertexFromFace_blocks[OF ok0 e r ef] obtain bs1 where
    b1: "assignedOK h1 bs1" "listStep (set (concat (map snd bs))) ?h0 h1" by blast
  from b1(2) have "unassigned h1 = clear (unassigned h)" by (simp add: listStep_def)
  then have "dl (heap_v h1) (unassigned h1) []" by (simp add: dl_def clear_def)
  with b1(1) have "listsOK h1 bs1 []" by (simp add: listsOK_def)
  from computeHorizon_lists[OF c this] obtain bs2 ys2 where "listsOK h2 bs2 ys2" by blast
  from listsOK_kept[OF this addNewFaces_listsKept[OF nf]] have "listsOK h3 bs2 ys2" .
  from resolveUnassignedPoints_blocks[OF rs this] show ?thesis .
qed

lemma forEach_faces:
  assumes "forEach body s xs = Some s'" "\<And>s x s'. body s x = Some s' \<Longrightarrow> faces s' = faces s"
  shows "faces s' = faces s"
  by (rule forEach_inv[OF assms(1), where P="\<lambda>t. faces t = faces s"]) (auto dest: assms(2))

lemma initialFaces_faces:
  assumes "initialFaces h v0 v1 v2 v3 below = Some (fs, h')"
  shows "faces h' = faces h \<and> length fs = 4"
proof -
  from assms obtain f0 h0 f1 h1 f2 h2 f3 h3 a0 b0 c0 a1 b1 c1 a2 b2 c2 a3 b3 c3 where
    c: "create h a0 b0 c0 = Some (f0, h0)" "create h0 a1 b1 c1 = Some (f1, h1)"
       "create h1 a2 b2 c2 = Some (f2, h2)" "create h2 a3 b3 c3 = Some (f3, h3)" and
    t: "forEach (twinsOutward [f0, f1, f2, f3]) h3 [0, 1, 2] = Some h' \<or>
        forEach (twinsInward [f0, f1, f2, f3]) h3 [0, 1, 2] = Some h'" and
    fs: "fs = [f0, f1, f2, f3]"
    by (cases below) (auto simp: initialFaces_def Let_def split: bind_splits intro: that)
  have q: "faces h' = faces h3" using t
  proof
    assume "forEach (twinsOutward [f0, f1, f2, f3]) h3 [0, 1, 2] = Some h'"
    then show ?thesis
      by (rule forEach_faces) (auto simp: twinsOutward_def Let_def split: bind_splits)
  next
    assume "forEach (twinsInward [f0, f1, f2, f3]) h3 [0, 1, 2] = Some h'"
    then show ?thesis
      by (rule forEach_faces) (auto simp: twinsInward_def Let_def split: bind_splits)
  qed
  note e = create_effect[OF c(1)] create_effect[OF c(2)] create_effect[OF c(3)] create_effect[OF c(4)]
  from e q fs show ?thesis by simp
qed

lemma assignInitial_cases:
  assumes "assignInitial v0 v1 v2 v3 h v = Some h'"
  shows "h' = h \<or> (\<exists>j \<in> set (take 4 (faces h)). addVertexToFace h v j = Some h')"
proof (cases "v \<noteq> v0 \<and> v \<noteq> v1 \<and> v \<noteq> v2 \<and> v \<noteq> v3")
  case False
  with assms show ?thesis by (auto simp: assignInitial_def)
next
  case True
  with assms obtain md mf and n :: VertexNode where
    m: "maxOfFour (heap_f h) (v_point n) (take 4 (faces h)) (tolerance h, None) = Some (md, mf)" and
    s1: "(case mf of None \<Rightarrow> Some h | Some m \<Rightarrow> addVertexToFace h v m) = Some h'"
    by (auto simp: assignInitial_def split: bind_splits if_splits)
  note x = maxOfFour_max[OF m]
  show ?thesis
  proof (cases mf)
    case None
    with s1 show ?thesis by simp
  next
    case (Some j)
    with x have "j \<in> set (take 4 (faces h))" by auto
    with s1 Some show ?thesis by auto
  qed
qed

lemma assignLoop_blocks:
  assumes "forEach (assignInitial v0 v1 v2 v3) h vs = Some h'" "assignedOK h bs" "distinct vs"
    "set vs \<inter> set (concat (map snd bs)) = {}" "set vs \<subseteq> set (vertices h)"
    "\<forall>g \<in> set (take 4 (faces h)). g < length (heap_f h) \<and> f_mark (heap_f h ! g) = Visible"
  shows "\<exists>bs'. assignedOK h' bs'"
  using assms
proof (induction vs arbitrary: h bs)
  case Nil
  then show ?case by auto
next
  case (Cons v vs)
  from Cons.prems(1) obtain h1 where a: "assignInitial v0 v1 v2 v3 h v = Some h1"
    and l: "forEach (assignInitial v0 v1 v2 v3) h1 vs = Some h'"
    by (auto split: bind_splits)
  let ?xs = "concat (map snd bs)"
  have 1: "\<exists>bs1. assignedOK h1 bs1 \<and> set (concat (map snd bs1)) \<subseteq> insert v (set ?xs) \<and>
      vertices h1 = vertices h \<and> faces h1 = faces h \<and> length (heap_f h1) = length (heap_f h) \<and>
      (\<forall>g < length (heap_f h). f_mark (heap_f h1 ! g) = f_mark (heap_f h ! g))"
    using assignInitial_cases[OF a]
  proof
    assume "h1 = h"
    with Cons.prems(2) show ?thesis by auto
  next
    assume "\<exists>j \<in> set (take 4 (faces h)). addVertexToFace h v j = Some h1"
    then obtain j where j: "j \<in> set (take 4 (faces h))" "addVertexToFace h v j = Some h1" by blast
    from Cons.prems(6) j have vis: "f_mark (heap_f h ! j) = Visible" by simp
    from Cons.prems(4,5) have "v \<notin> set ?xs" "v \<in> set (vertices h)" by auto
    from addVertexToFace_blocks[OF Cons.prems(2) this vis j(2)] obtain bs1 where
      b: "assignedOK h1 bs1" "set (concat (map snd bs1)) = insert v (set ?xs)"
      "listStep (insert v (set ?xs)) h h1" by blast
    note e = addVertexToFace_effect[OF j(2)]
    from b(3) have "length (heap_f h1) = length (heap_f h)"
      "\<forall>g < length (heap_f h). f_mark (heap_f h1 ! g) = f_mark (heap_f h ! g)"
      by (simp_all add: listStep_def)
    with b e show ?thesis by (intro exI[of _ bs1]) simp
  qed
  then obtain bs1 where b1: "assignedOK h1 bs1" "set (concat (map snd bs1)) \<subseteq> insert v (set ?xs)"
    "vertices h1 = vertices h" "faces h1 = faces h" "length (heap_f h1) = length (heap_f h)"
    "\<forall>g < length (heap_f h). f_mark (heap_f h1 ! g) = f_mark (heap_f h ! g)" by blast
  from Cons.prems(3) have d: "distinct vs" by simp
  from Cons.prems(3,4) b1(2) have dj: "set vs \<inter> set (concat (map snd bs1)) = {}" by auto
  from Cons.prems(5) b1(3) have vv: "set vs \<subseteq> set (vertices h1)" by simp
  from Cons.prems(6) b1(4,5,6) have m: "\<forall>g \<in> set (take 4 (faces h1)).
      g < length (heap_f h1) \<and> f_mark (heap_f h1 ! g) = Visible"
    by simp
  from Cons.IH[OF l b1(1) d dj vv m] show ?case .
qed

lemma computeInitialHull_blocks:
  assumes c: "computeInitialHull h = Some h'" and a0: "assignedOK h []"
    and vs: "distinct (vertices h)" and fe: "faces h = []"
  shows "\<exists>bs. assignedOK h' bs"
proof -
  from c obtain ex h1 v0 v1 v2 v3 below fs h2 where
    e: "computeExtremes h = Some (ex, h1)" and
    f: "initialFaces h1 v0 v1 v2 v3 below = Some (fs, h2)" and
    a: "forEach (assignInitial v0 v1 v2 v3) (h2\<lparr> faces := faces h2 @ fs \<rparr>)
          (vertices (h2\<lparr> faces := faces h2 @ fs \<rparr>)) = Some h'"
    by (auto simp: computeInitialHull_def Let_def split: bind_splits)
  note h1 = computeExtremes_tolerance[OF e]
  from a0 have a1: "assignedOK h1 []" unfolding h1 by (simp add: assignedOK_def blocksOK_def)
  note k = initialFaces_listsKept[OF f]
  note ff = initialFaces_faces[OF f]
  let ?h3 = "h2\<lparr> faces := faces h2 @ fs \<rparr>"
  from assignedOK_kept[OF a1] k have "assignedOK h2 []" by simp
  then have a3: "assignedOK ?h3 []" by (simp add: assignedOK_def blocksOK_def)
  from k have v3: "vertices ?h3 = vertices h" by (simp add: listsKept_def h1)
  from ff fe have f3: "take 4 (faces ?h3) = fs" by (simp add: h1)
  have m: "\<forall>g \<in> set (take 4 (faces ?h3)). g < length (heap_f ?h3) \<and> f_mark (heap_f ?h3 ! g) = Visible"
    unfolding f3 using k by (auto simp: listsKept_def)
  have "\<exists>bs'. assignedOK h' bs'"
    by (rule assignLoop_blocks[OF a a3 _ _ _ m]) (use vs v3 in auto)
  then show ?thesis .
qed

lemma idle_assignedOK: "idle h = assignedOK h []"
  by (auto simp: idle_def assignedOK_def blocksOK_def dl_def)

lemma blocks_empty:
  assumes "assignedOK h bs" "isEmpty (assigned h)"
  shows "bs = []"
proof (cases bs)
  case Nil then show ?thesis .
next
  case (Cons fb rest)
  from assms(1) have bl: "blocksOK h bs" and d: "dl (heap_v h) (assigned h) (concat (map snd bs))"
    by (simp_all add: assignedOK_def)
  from blocks_hdo[OF bl] Cons d assms(2) show ?thesis by (simp add: dl_def isEmpty_def)
qed

lemma computing_inv:
  "(computing h \<longrightarrow> hullInv h \<and> (\<exists>bs. assignedOK h bs)) \<and> (finished h \<longrightarrow> hullInv h \<and> idle h)"
proof (induction rule: computing_finished.induct)
  case fresh
  show ?case
    by (simp add: newConvexHull_def hullInv_def outsideInv_def cyclesOK_def idle_def emptyList_def)
next
  case (emptied h)
  then show ?case
    by (simp add: makeEmpty_def hullInv_def outsideInv_def cyclesOK_def idle_def)
next
  case (started h0 points h)
  let ?h = "foldl pushVertex (makeEmpty h0) points"
  note p = pushVertices_effect[of "makeEmpty h0" points]
  from started.IH have "cyclesOK h0" by (simp add: hullInv_def)
  then have cy: "cyclesOK ?h" using p by (simp add: cyclesOK_def makeEmpty_def)
  have vs: "\<forall>v \<in> set (vertices ?h). v < length (heap_v ?h) \<and> v_face (heap_v ?h ! v) = None"
    using p by (auto simp: makeEmpty_def nth_append newVertexNode_def)
  have 1: "hullInv h" by (rule computeInitialHull_hullInv[OF started.hyps(3) cy vs])
  have as: "assigned ?h = assigned h0" "faces ?h = []"
    by (induction points rule: rev_induct) (simp_all add: makeEmpty_def pushVertex_def)
  from started.IH as p have a0: "assignedOK ?h []"
    unfolding idle_assignedOK[symmetric] by (simp add: idle_def makeEmpty_def)
  from p have dv: "distinct (vertices ?h)" by (simp add: makeEmpty_def)
  from computeInitialHull_blocks[OF started.hyps(3) a0 dv as(2)] 1 show ?case by simp
next
  case (round h fuel v h')
  then obtain bs where hi: "hullInv h" and ok: "assignedOK h bs" by blast
  from hi have 1: "hullInv h'" using round.hyps(3) by (blast intro: steady_hullInv addVertexToHull_steady)
  have ne: "isEmpty (assigned h) = False"
    using round.hyps(2) by (auto simp: nextVertexToAdd_def split: if_splits)
  have vn: "vertices h \<noteq> []"
  proof
    assume "vertices h = []"
    with ok have "\<forall>fb \<in> set bs. snd fb = []" by (auto simp: assignedOK_def blocksOK_def)
    moreover from ok have "\<forall>fb \<in> set bs. snd fb \<noteq> []" by (auto simp: assignedOK_def blocksOK_def)
    ultimately have "bs = []" by (cases bs) auto
    with ok ne show False by (simp add: assignedOK_def dl_def isEmpty_def)
  qed
  with hi have tol: "0 \<le> tolerance h" by (simp add: hullInv_def specTolerance_nonneg)
  from hi have oi: "outsideInv h" by (simp add: hullInv_def)
  from nextVertexToAdd_blocks[OF ok ne oi tol] obtain f b rest e where
    n: "bs = (f, b) # rest" "\<forall>n r. nextVertexToAdd n h = Some r \<longrightarrow> r = Some e" "e \<in> set b"
    by blast
  from n(2) round.hyps(2) have "v = e" by auto
  with n have "v \<in> set (concat (map snd bs))" by simp
  from addVertexToHull_blocks[OF round.hyps(3) ok this] 1 show ?case by simp
next
  case (completed h fuel h')
  then obtain bs where hi: "hullInv h" and ok: "assignedOK h bs" by blast
  from hi have 1: "hullInv (cleanup h')" using completed.hyps(3)
    by (blast intro: steady_hullInv quiet_steady reindexFaces_quiet cleanup_quiet)
  have em: "isEmpty (assigned h)"
  proof (rule ccontr)
    assume ne: "\<not> isEmpty (assigned h)"
    have vn: "vertices h \<noteq> []"
    proof
      assume "vertices h = []"
      with ok have "\<forall>fb \<in> set bs. snd fb = []" by (auto simp: assignedOK_def blocksOK_def)
      moreover from ok have "\<forall>fb \<in> set bs. snd fb \<noteq> []" by (auto simp: assignedOK_def blocksOK_def)
      ultimately have "bs = []" by (cases bs) auto
      with ok ne show False by (simp add: assignedOK_def dl_def isEmpty_def)
    qed
    with hi have tol: "0 \<le> tolerance h" by (simp add: hullInv_def specTolerance_nonneg)
    from hi have oi: "outsideInv h" by (simp add: hullInv_def)
    from ne have "isEmpty (assigned h) = False" by simp
    from nextVertexToAdd_blocks[OF ok this oi tol] completed.hyps(2) show False by auto
  qed
  from blocks_empty[OF ok em] ok have "idle h" by (simp add: idle_assignedOK)
  with completed.hyps(3) have "idle (cleanup h')"
    by (auto simp: idle_def cleanup_def clear_def reindexFaces_def split: bind_splits)
  with 1 show ?case by simp
qed

lemma computing_S3: "computing S3"
proof -
  have l: "4 \<le> length sixPoints" by (simp add: sixPoints_def)
  have c: "computeInitialHull (foldl pushVertex (makeEmpty newConvexHull) sixPoints) = Some S3"
    by (simp only: st_push run_initialHull)
  show ?thesis by (rule computing_finished.started[OF computing_finished.fresh l c])
qed

text \<open>
  C9: in every state at the head of the loop of \<open>_compute\<close> in which the assigned list is
  not empty, \<open>_nextVertexToAdd\<close> returns a vertex (with enough steps for its loop; with any
  number of steps it returns this vertex or runs out of steps). The vertex is taken from
  the face \<open>f\<close> of the first vertex of the assigned list. The outside set of \<open>f\<close> starts
  the list: the list is \<open>run @ rest\<close>, the vertices of \<open>run\<close> refer to \<open>f\<close>, those of
  \<open>rest\<close> to other faces, and \<open>run\<close> is the walk from \<open>f.outside\<close> along \<open>next\<close>. The
  vertex returned is the first vertex of \<open>run\<close> among those farthest above the plane of
  \<open>f\<close>; its distance is more than the tolerance. Vertices of other faces are not compared.
\<close>

theorem nextVertexToAdd_farthest_of_first_face:
  assumes "computing h" "isEmpty (assigned h) = False"
  shows "\<exists>fv f run rest e.
      first (assigned h) = Some fv \<and> fv < length (heap_v h) \<and>
      v_face (heap_v h ! fv) = Some f \<and> f < length (heap_f h) \<and>
      f_outside (heap_f h ! f) = Some fv \<and>
      dl (heap_v h) (assigned h) (run @ rest) \<and>
      (\<forall>u \<in> set run. v_face (heap_v h ! u) = Some f) \<and>
      (\<forall>u \<in> set rest. v_face (heap_v h ! u) \<noteq> Some f) \<and>
      (\<forall>n. length run \<le> n \<longrightarrow> outsideRun n (heap_v h) f fv = Some run \<and>
                                 nextVertexToAdd n h = Some (Some e)) \<and>
      (\<forall>n r. nextVertexToAdd n h = Some r \<longrightarrow> r = Some e) \<and>
      e \<in> set run \<and>
      tolerance h < distanceToPoint (heap_f h ! f) (v_point (heap_v h ! e)) \<and>
      (\<forall>u \<in> set run. distanceToPoint (heap_f h ! f) (v_point (heap_v h ! u))
           \<le> distanceToPoint (heap_f h ! f) (v_point (heap_v h ! e))) \<and>
      (\<forall>u \<in> set (takeWhile (\<lambda>u. u \<noteq> e) run).
           distanceToPoint (heap_f h ! f) (v_point (heap_v h ! u))
           < distanceToPoint (heap_f h ! f) (v_point (heap_v h ! e)))"
proof -
  from computing_inv[of h] assms(1) obtain bs where hi: "hullInv h" and ok: "assignedOK h bs" by blast
  have vn: "vertices h \<noteq> []"
  proof
    assume "vertices h = []"
    with ok have "\<forall>fb \<in> set bs. snd fb = []" by (auto simp: assignedOK_def blocksOK_def)
    moreover from ok have "\<forall>fb \<in> set bs. snd fb \<noteq> []" by (auto simp: assignedOK_def blocksOK_def)
    ultimately have "bs = []" by (cases bs) auto
    with ok assms(2) show False by (simp add: assignedOK_def dl_def isEmpty_def)
  qed
  with hi have tol: "0 \<le> tolerance h" by (simp add: hullInv_def specTolerance_nonneg)
  from hi have oi: "outsideInv h" by (simp add: hullInv_def)
  from nextVertexToAdd_blocks[OF ok assms(2) oi tol] obtain f b rest e where
    n: "bs = (f, b) # rest" "b \<noteq> []" "first (assigned h) = Some (hd b)"
      "f < length (heap_f h)" "f_outside (heap_f h ! f) = Some (hd b)"
      "\<forall>n. length b \<le> n \<longrightarrow> outsideRun n (heap_v h) f (hd b) = Some b \<and>
                               nextVertexToAdd n h = Some (Some e)"
      "\<forall>n r. nextVertexToAdd n h = Some r \<longrightarrow> r = Some e"
      "e \<in> set b"
      "tolerance h < distanceToPoint (heap_f h ! f) (v_point (heap_v h ! e))"
      "\<forall>u \<in> set b. distanceToPoint (heap_f h ! f) (v_point (heap_v h ! u))
           \<le> distanceToPoint (heap_f h ! f) (v_point (heap_v h ! e))"
      "\<forall>u \<in> set (takeWhile (\<lambda>u. u \<noteq> e) b).
           distanceToPoint (heap_f h ! f) (v_point (heap_v h ! u))
           < distanceToPoint (heap_f h ! f) (v_point (heap_v h ! e))"
    by blast
  let ?X = "concat (map snd rest)"
  from ok n(1) have d: "dl (heap_v h) (assigned h) (b @ ?X)" and bl: "blocksOK h ((f, b) # rest)"
    by (simp_all add: assignedOK_def)
  from bl have bf: "\<forall>u \<in> set b. v_face (heap_v h ! u) = Some f" by (simp add: blocksOK_def)
  note t = blocks_tail[OF bl]
  have rf: "\<forall>u \<in> set ?X. v_face (heap_v h ! u) \<noteq> Some f"
  proof
    fix u assume "u \<in> set ?X"
    then obtain gc where gc: "gc \<in> set rest" "u \<in> set (snd gc)" by auto
    with t have "fst gc \<noteq> f" "v_face (heap_v h ! u) = Some (fst gc)" by auto
    then show "v_face (heap_v h ! u) \<noteq> Some f" by simp
  qed
  from n(2) have hb: "hd b \<in> set b" by simp
  from d have "seg (heap_v h) None (b @ ?X) None" by (simp add: dl_def)
  from seg_valid[OF this, of "hd b"] hb have hv: "hd b < length (heap_v h)" by simp
  from bf hb have hf: "v_face (heap_v h ! hd b) = Some f" by simp
  show ?thesis
    apply (rule exI[of _ "hd b"], rule exI[of _ f], rule exI[of _ b], rule exI[of _ ?X],
        rule exI[of _ e])
    using n(3-11) hv hf d bf rf by simp
qed

theorem nextVertexToAdd_farthest_of_first_face_witness:
  "computing S3 \<and> isEmpty (assigned S3) = False \<and> first (assigned S3) = Some 5 \<and>
   v_face (heap_v S3 ! 5) = Some 2 \<and> f_outside (heap_f S3 ! 2) = Some 5 \<and>
   outsideRun 10 (heap_v S3) 2 5 = Some [5, 4] \<and>
   distanceToPoint (heap_f S3 ! 2) (v_point (heap_v S3 ! 5)) = 1 / 6 \<and>
   distanceToPoint (heap_f S3 ! 2) (v_point (heap_v S3 ! 4)) = 4 / 15 \<and>
   nextVertexToAdd 10 S3 = Some (Some 4) \<and>
   tolerance S3 < distanceToPoint (heap_f S3 ! 2) (v_point (heap_v S3 ! 4))"
proof -
  have hyps: "isEmpty (assigned S3) = False" "first (assigned S3) = Some 5"
    "v_face (heap_v S3 ! 5) = Some 2" "f_outside (heap_f S3 ! 2) = Some 5"
    by (simp_all add: run_defs isEmpty_def first_def)
  have run: "outsideRun 10 (heap_v S3) 2 5 = Some [5, 4]"
    by (simp add: run_defs lookup_def eval_nat_numeral)
  have d: "distanceToPoint (heap_f S3 ! 2) (v_point (heap_v S3 ! 5)) = 1 / 6"
    "distanceToPoint (heap_f S3 ! 2) (v_point (heap_v S3 ! 4)) = 4 / 15"
    by (simp_all add: run_defs distanceToPoint_def)
  from nextVertexToAdd_farthest_of_first_face[OF computing_S3 hyps(1)]
  obtain fv f e where r: "first (assigned S3) = Some fv" "v_face (heap_v S3 ! fv) = Some f"
    "\<forall>n r. nextVertexToAdd n S3 = Some r \<longrightarrow> r = Some e"
    "tolerance S3 < distanceToPoint (heap_f S3 ! f) (v_point (heap_v S3 ! e))"
    by blast
  from r(1) hyps(2) have "fv = 5" by simp
  with r(2) hyps(3) have "f = 2" by simp
  moreover from r(3) st_next have "e = 4" by auto
  ultimately have "tolerance S3 < distanceToPoint (heap_f S3 ! 2) (v_point (heap_v S3 ! 4))"
    using r(4) by simp
  with computing_S3 hyps run d st_next show ?thesis by simp
qed

subsection \<open>The run with a point within the tolerance of a face\<close>

lemmas flat_defs = run_defs F0_def ex2_def F1_def FC0_def FC1_def FC2_def FC3_def FT0_def FT1_def
  FT2_def F3_def G1_def G2_def G3_def G4_def G5_def

lemma fl_push: "foldl pushVertex (makeEmpty newConvexHull) flatPoints = F0"
  by (simp add: flatPoints_def flat_defs pushVertex_def makeEmpty_def newConvexHull_def
      newVertexNode_def emptyList_def)

lemma fl_extremes: "computeExtremes F0 = Some (ex2, F1)"
  by (simp add: flat_defs computeExtremes_def hp updateMin_def updateMax_def EPSILON_def)

lemma fl_vertices: "initialVertices F1 ex2 = Some (0, 1, 2, 3, False)"
  by (simp add: flat_defs initialVertices_def hp geo)

lemma fl_create0: "create F1 (Some 0) (Some 2) (Some 1) = Some (0, FC0)"
  by (simp add: flat_defs create_def compute_def hp geo Let_def)

lemma fl_create1: "create FC0 (Some 3) (Some 0) (Some 1) = Some (1, FC1)"
  by (simp add: flat_defs create_def compute_def hp geo Let_def)

lemma fl_create2: "create FC1 (Some 3) (Some 1) (Some 2) = Some (2, FC2)"
  by (simp add: flat_defs create_def compute_def hp geo Let_def)

lemma fl_create3: "create FC2 (Some 3) (Some 2) (Some 0) = Some (3, FC3)"
  by (simp add: flat_defs create_def compute_def hp geo Let_def)

lemma fl_twins0: "twinsInward [0, 1, 2, 3] FC3 0 = Some FT0"
  by (simp add: flat_defs twinsInward_def getEdge_def setTwin_def hp Let_def numeral_2_eq_2)

lemma fl_twins1: "twinsInward [0, 1, 2, 3] FT0 1 = Some FT1"
  by (simp add: flat_defs twinsInward_def getEdge_def setTwin_def hp Let_def numeral_2_eq_2)

lemma fl_twins2: "twinsInward [0, 1, 2, 3] FT1 2 = Some FT2"
  by (simp add: flat_defs twinsInward_def getEdge_def setTwin_def hp Let_def numeral_2_eq_2)

lemma fl_assign:
  "forEach (assignInitial 0 1 2 3) (FT2\<lparr> faces := faces FT2 @ [0, 1, 2, 3] \<rparr>) [0, 1, 2, 3, 4, 5] = Some F3"
  by (simp add: flat_defs assignInitial_def addVertexToFace_def set_face_def set_outside_def
      append_def insertBefore_def set_prev_def set_next_def hp geo Let_def)

lemma fl_next: "nextVertexToAdd 10 F3 = Some (Some 4)"
  by (simp add: flat_defs nextVertexToAdd_def isEmpty_def first_def hp geo Let_def
      eval_nat_numeral)

lemma fl_remove:
  "removeVertexFromFace (F3\<lparr> unassigned := clear (unassigned F3) \<rparr>) 4 1 = Some G1"
  by (simp add: flat_defs removeVertexFromFace_def fixOutsideLink_def remove_def clear_def
      set_outside_def set_prev_def set_next_def hp Let_def)

lemma fl_horizon:
  "computeHorizon 10 G1 (Vector3 (3 / 1125899906842624) (- (1 / 281474976710656)) (- (3 / 1125899906842624))) None 1 [] = Some (G2, [3, 4, 5])"
  by (simp add: flat_defs deleteFaceVertices_def removeAllVerticesFromFace_def removeSubList_def
      appendChain_def set_mark_def set_outside_def set_prev_def set_next_def getEdge_def hp geo
      Let_def eval_nat_numeral)

lemma fl_newfaces: "addNewFaces G2 4 [3, 4, 5] = Some G3"
  by (simp add: flat_defs addNewFaces_def addAdjoiningFace_def joinSideEdge_def create_def
      compute_def getEdge_def setTwin_def hp geo Let_def numeral_2_eq_2)

lemma fl_newFaces: "newFaces G3 = [4, 5, 6]"
  by (simp add: flat_defs)

lemma fl_resolve: "resolveUnassignedPoints 10 G3 [4, 5, 6] = Some G3"
  by (simp add: flat_defs resolveUnassignedPoints_def isEmpty_def first_def findMaxFace.simps hp
      geo Let_def eval_nat_numeral)

lemma fl_next2: "nextVertexToAdd 10 G3 = Some None"
  by (simp add: flat_defs nextVertexToAdd_def isEmpty_def first_def hp geo Let_def
      eval_nat_numeral)

lemma fl_reindex: "reindexFaces G3 = Some G4"
  by (simp add: flat_defs reindexFaces_def hp)

lemma fl_cleanup: "cleanup G4 = G5"
  by (simp add: flat_defs cleanup_def clear_def)

lemma flat_initialFaces: "initialFaces F1 0 1 2 3 False = Some ([0, 1, 2, 3], FT2)"
  by (simp add: initialFaces_def fl_create0 fl_create1 fl_create2 fl_create3
      fl_twins0 fl_twins1 fl_twins2 del: One_nat_def)

lemma FT2_vertices: "vertices FT2 = [0, 1, 2, 3, 4, 5]"
  by (simp add: flat_defs)

lemma flat_initialHull: "computeInitialHull F0 = Some F3"
  by (simp add: computeInitialHull_def fl_extremes fl_vertices flat_initialFaces FT2_vertices
      fl_assign del: One_nat_def forEach.simps)

lemma F3_vertex4: "lookup (heap_v F3) 4 = Some (heap_v F3 ! 4)"
  "v_face (heap_v F3 ! 4) = Some 1"
  by (simp_all add: flat_defs lookup_def)

lemma G1_vertex4: "lookup (heap_v G1) 4 = Some (heap_v G1 ! 4)"
  "v_face (heap_v G1 ! 4) = Some 1"
  "v_point (heap_v G1 ! 4)
     = Vector3 (3 / 1125899906842624) (- (1 / 281474976710656)) (- (3 / 1125899906842624))"
  by (simp_all add: flat_defs lookup_def)

lemma flat_addVertex: "addVertexToHull 10 F3 4 = Some G3"
  by (simp add: addVertexToHull_def F3_vertex4 fl_remove G1_vertex4 fl_horizon fl_newfaces
      fl_newFaces fl_resolve del: One_nat_def)

lemma flat_loop: "n = Suc (Suc m) \<Longrightarrow> computeLoop n 10 F3 = Some G3"
  by (simp add: fl_next flat_addVertex fl_next2 del: One_nat_def)

lemma flat_setFromPoints: "setFromPoints 10 newConvexHull flatPoints = Some G5"
proof -
  have l: "4 \<le> length flatPoints" by (simp add: flatPoints_def)
  have "computeHull 10 F0 = Some G5"
    by (simp add: computeHull_def flat_initialHull flat_loop[of 10 8] fl_reindex fl_cleanup
        del: One_nat_def)
  then show ?thesis using l by (simp add: setFromPoints_def fl_push)
qed

subsection \<open>The hull and the input points\<close>

text \<open>
  C1, as the code has it. The first four of the \<open>flatPoints\<close> span a tetrahedron (their
  triple product is 2). The fifth point is \<open>3 / 2 ^ 50\<close> above the
  plane of face 0, which is the tolerance and not more: face 0 stays, and the new face 6
  through vertices 4, 0 and 1 leans over it. After \<open>setFromPoints\<close> the sixth input
  point, which lies on face 0 inside the tetrahedron, is no vertex of a half-edge and is
  \<open>3 / 20\<close> above the plane of face 6: \<open>containsPoint\<close> returns false for it.
\<close>

theorem input_point_outside_hull:
  "length flatPoints = 6 \<and>
   dot (cross (subVectors (flatPoints ! 1) (flatPoints ! 0))
              (subVectors (flatPoints ! 2) (flatPoints ! 0)))
       (subVectors (flatPoints ! 3) (flatPoints ! 0)) = 2 \<and>
   setFromPoints 10 newConvexHull flatPoints = Some G5 \<and>
   flatPoints ! 5 = Vector3 (1/4) (1/4) 0 \<and> flatPoints ! 5 \<notin> set (take 5 flatPoints) \<and>
   Some 5 \<notin> set (map e_vertex (heap_e G5)) \<and>
   6 \<in> set (faces G5) \<and>
   distanceToPoint (heap_f G5 ! 6) (Vector3 (1/4) (1/4) 0) = 3 / 20 \<and>
   tolerance G5 = 3 / 2 ^ 50 \<and>
   containsPoint G5 (Vector3 (1/4) (1/4) 0) = Some False"
proof -
  have a: "flatPoints ! 5 = Vector3 (1/4) (1/4) 0" "flatPoints ! 5 \<notin> set (take 5 flatPoints)"
    by (simp_all add: flatPoints_def)
  have b: "Some 5 \<notin> set (map e_vertex (heap_e G5))" by (simp add: flat_defs)
  have f: "\<forall>i \<in> set (faces G5). i < length (heap_f G5)" by (simp add: flat_defs)
  have m: "6 \<in> set (faces G5)"
    "distanceToPoint (heap_f G5 ! 6) (Vector3 (1/4) (1/4) 0) = 3 / 20"
    "tolerance G5 = 3 / 2 ^ 50"
    by (simp_all add: flat_defs distanceToPoint_def)
  have "\<not> distanceToPoint (heap_f G5 ! 6) (Vector3 (1/4) (1/4) 0) \<le> tolerance G5"
    unfolding m(2,3) by simp
  with m(1) have "\<not> (\<forall>i \<in> set (faces G5).
      distanceToPoint (heap_f G5 ! i) (Vector3 (1/4) (1/4) 0) \<le> tolerance G5)" by blast
  with containsPoint_loop_eq[OF f] have c: "containsPoint G5 (Vector3 (1/4) (1/4) 0) = Some False"
    by (simp add: containsPoint_def)
  have v: "length flatPoints = 6"
    "dot (cross (subVectors (flatPoints ! 1) (flatPoints ! 0))
                (subVectors (flatPoints ! 2) (flatPoints ! 0)))
         (subVectors (flatPoints ! 3) (flatPoints ! 0)) = 2"
    by (simp_all add: flatPoints_def)
  from v flat_setFromPoints a b m c show ?thesis by blast
qed


subsection \<open>Fewer than four points\<close>

lemma setFromPoints_short:
  "length points < 4 \<Longrightarrow> setFromPoints fuel h points = Some h"
  by (simp add: setFromPoints_def)

lemma containsPoint_no_faces: "faces h = [] \<Longrightarrow> containsPoint h p = Some True"
  by (simp add: containsPoint_def)

text \<open>
  C2, as the code has it. \<open>setFromPoints\<close> with an array of three points does nothing:
  \<open>makeEmpty\<close> and \<open>_compute\<close> are inside the test for at least four points. On a new hull
  object the face list stays empty and \<open>containsPoint\<close> returns true for the point
  (5, 5, 5), where the spec says false for every query point. On the hull of the six
  points the same call returns the object with the six faces of that hull, where the spec
  says the face list is empty.
\<close>

theorem setFromPoints_few_points_run:
  "length threePoints_input = 3 \<and>
   setFromPoints 10 newConvexHull threePoints_input = Some newConvexHull \<and>
   faces newConvexHull = [] \<and>
   containsPoint newConvexHull (Vector3 5 5 5) = Some True \<and>
   setFromPoints 10 newConvexHull sixPoints = Some R5 \<and>
   setFromPoints 10 R5 threePoints_input = Some R5 \<and>
   faces R5 = [0, 1, 3, 4, 5, 6]"
proof -
  have l: "length threePoints_input = 3" by (simp add: threePoints_input_def)
  have f: "faces newConvexHull = []" by (simp add: newConvexHull_def)
  have g: "faces R5 = [0, 1, 3, 4, 5, 6]" by (simp add: run_defs)
  from l have s: "setFromPoints 10 h threePoints_input = Some h" for h
    by (simp add: setFromPoints_short)
  from l f g s containsPoint_no_faces[OF f] run_setFromPoints show ?thesis by blast
qed

subsection \<open>Containment\<close>






end
